(* ===== verification/Argo_Prelude.thy ===== *)
theory Argo_Prelude
  imports Main "HOL-Library.Word"
begin

text \<open>
  Shared vocabulary of the development: the types that stand for the C++ integer types, the
  errors the runtime can raise, the sum-type combinators that thread an exception through a
  sequence of statements, the index lists of C \<open>for\<close> loops, unsigned 64-bit arithmetic on
  \<open>nat\<close>, and the arithmetic and bit lemmas the component theories rest on.
\<close>

unbundle bit_operations_syntax

section \<open>Types\<close>

type_synonym byte = "8 word"
type_synonym u64 = "64 word"

text \<open>
  Every exception, failed assertion and abort of the modelled sources. A C++ function that may
  throw returns \<open>argo_error + 'a\<close>. \<open>Diverges\<close> is the outcome of a spin loop whose exit
  condition never becomes true.
\<close>

datatype argo_error =
    System_error string
  | Invalid_argument string
  | Logic_error string
  | Runtime_error string
  | Out_of_range
  | Bad_alloc
  | Bad_owner
  | Assert_failed string
  | Undefined_behaviour string
  | Diverges

section \<open>Collections of simplification rules\<close>

named_theorems wrap_simps \<open>unsigned arithmetic without overflow\<close>
named_theorems err_simps \<open>sequencing of computations that may raise\<close>
named_theorems frame_simps \<open>fields an operation leaves unchanged\<close>

section \<open>Sequencing computations that may raise\<close>

definition bindE :: "'e + 'a \<Rightarrow> ('a \<Rightarrow> 'e + 'b) \<Rightarrow> 'e + 'b" where
  "bindE m f = (case m of Inl e \<Rightarrow> Inl e | Inr x \<Rightarrow> f x)"

lemma bindE_simps [simp, err_simps]:
  "bindE (Inl e) f = Inl e"
  "bindE (Inr x) f = f x"
  by (simp_all add: bindE_def)

lemma bindE_assoc: "bindE (bindE m f) g = bindE m (\<lambda>x. bindE (f x) g)"
  by (cases m) simp_all

lemma bindE_eq_Inr_conv: "bindE m f = Inr y \<longleftrightarrow> (\<exists>x. m = Inr x \<and> f x = Inr y)"
  by (cases m) auto

lemma bindE_eq_Inl_conv: "bindE m f = Inl e \<longleftrightarrow> m = Inl e \<or> (\<exists>x. m = Inr x \<and> f x = Inl e)"
  by (cases m) simp_all

lemma bindE_cong [fundef_cong]:
  "m = m' \<Longrightarrow> (\<And>x. m' = Inr x \<Longrightarrow> f x = f' x) \<Longrightarrow> bindE m f = bindE m' f'"
  by (cases m') auto

definition assertE :: "string \<Rightarrow> bool \<Rightarrow> argo_error + unit" where
  "assertE msg b = (if b then Inr () else Inl (Assert_failed msg))"

lemma assertE_simps [simp, err_simps]:
  "b \<Longrightarrow> assertE msg b = Inr ()"
  "\<not> b \<Longrightarrow> assertE msg b = Inl (Assert_failed msg)"
  by (simp_all add: assertE_def)

lemma assertE_eq_Inr_conv [simp]: "assertE msg b = Inr u \<longleftrightarrow> b"
  by (simp add: assertE_def)

text \<open>A loop whose body may raise: it stops at the first exception.\<close>

fun foldE :: "('a \<Rightarrow> 's \<Rightarrow> 'e + 's) \<Rightarrow> 'a list \<Rightarrow> 's \<Rightarrow> 'e + 's" where
  "foldE f [] s = Inr s"
| "foldE f (x # xs) s = bindE (f x s) (foldE f xs)"

lemma foldE_append: "foldE f (xs @ ys) s = bindE (foldE f xs s) (foldE f ys)"
proof (induction xs arbitrary: s)
  case (Cons x xs)
  then show ?case by (cases "f x s") simp_all
qed simp

lemma foldE_invariant:
  assumes "foldE f xs s = Inr t" and "P s"
    and "\<And>x s t. x \<in> set xs \<Longrightarrow> P s \<Longrightarrow> f x s = Inr t \<Longrightarrow> P t"
  shows "P t"
  using assms
proof (induction xs arbitrary: s)
  case (Cons x xs)
  then obtain u where "f x s = Inr u" and "foldE f xs u = Inr t"
    by (auto simp: bindE_eq_Inr_conv)
  with Cons show ?case by (metis list.set_intros)
qed simp

lemma foldE_total:
  assumes "P s" and "\<And>x s. x \<in> set xs \<Longrightarrow> P s \<Longrightarrow> \<exists>t. f x s = Inr t \<and> P t"
  shows "\<exists>t. foldE f xs s = Inr t \<and> P t"
  using assms
proof (induction xs arbitrary: s)
  case (Cons x xs)
  then obtain u where "f x s = Inr u" and "P u" by (meson list.set_intros(1))
  with Cons show ?case by (metis bindE_simps(2) foldE.simps(2) list.set_intros(2))
qed simp

lemma foldE_each:
  assumes "P s" and "\<And>x s. x \<in> set xs \<Longrightarrow> P s \<Longrightarrow> \<exists>t. f x s = Inr t \<and> P t \<and> Q x t \<and> (\<forall>y. Q y s \<longrightarrow> Q y t)"
  shows "\<exists>t. foldE f xs s = Inr t \<and> P t \<and> (\<forall>x \<in> set xs. Q x t) \<and> (\<forall>y. Q y s \<longrightarrow> Q y t)"
  using assms
proof (induction xs arbitrary: s)
  case (Cons x xs)
  obtain u where u: "f x s = Inr u" "P u" "Q x u" "\<forall>y. Q y s \<longrightarrow> Q y u"
    using Cons.prems by (meson list.set_intros(1))
  have "\<exists>t. foldE f xs u = Inr t \<and> P t \<and> (\<forall>x \<in> set xs. Q x t) \<and> (\<forall>y. Q y u \<longrightarrow> Q y t)"
    using u(2) Cons.prems(2) by (rule Cons.IH) simp_all
  with u show ?case by auto
qed simp

lemma fold_invariant_set:
  assumes "P s" and "\<And>x s. x \<in> set xs \<Longrightarrow> P s \<Longrightarrow> P (f x s)"
  shows "P (fold f xs s)"
  using assms by (induction xs arbitrary: s) auto

section \<open>The index list of a C loop\<close>

text \<open>\<open>c_range a b d\<close> is the sequence of values of \<open>i\<close> in \<^verbatim>\<open>for(i = a; i < b; i += d)\<close>.\<close>

definition c_range :: "nat \<Rightarrow> nat \<Rightarrow> nat \<Rightarrow> nat list" where
  "c_range a b d = map (\<lambda>k. a + k * d) [0..<(b - a + d - 1) div d]"

lemma c_range_1 [simp]: "c_range a b (Suc 0) = [a..<b]"
  by (cases "a \<le> b") (auto simp: c_range_def map_add_upt add.commute)

lemma c_range_empty: "b \<le> a \<Longrightarrow> 0 < d \<Longrightarrow> c_range a b d = []"
  by (simp add: c_range_def)

lemma c_range_bounds:
  assumes "i \<in> set (c_range a b d)" and "0 < d"
  shows "a \<le> i \<and> i < b"
proof -
  from assms obtain k where i: "i = a + k * d" and k: "k < (b - a + d - 1) div d"
    by (auto simp: c_range_def)
  from k have "Suc k * d \<le> b - a + d - 1"
    using assms(2) by (metis Suc_leI div_times_less_eq_dividend le_trans mult_le_mono1)
  with assms(2) i show ?thesis by auto
qed

section \<open>Unsigned 64-bit and 32-bit arithmetic on natural numbers\<close>

text \<open>
  A \<^verbatim>\<open>std::size_t\<close> is a \<^typ>\<open>nat\<close> below \<open>2 ^ 64\<close>; an operation that can leave that range
  is written with its wrap-around. A \<^verbatim>\<open>node_id_t\<close> is an \<^verbatim>\<open>unsigned int\<close>.
\<close>

definition wrap64 :: "nat \<Rightarrow> nat" where
  "wrap64 n = n mod 2 ^ 64"

definition wrap32 :: "nat \<Rightarrow> nat" where
  "wrap32 n = n mod 2 ^ 32"

definition add64 :: "nat \<Rightarrow> nat \<Rightarrow> nat" where
  "add64 a b = wrap64 (a + b)"

definition mul64 :: "nat \<Rightarrow> nat \<Rightarrow> nat" where
  "mul64 a b = wrap64 (a * b)"

definition sub64 :: "nat \<Rightarrow> nat \<Rightarrow> nat" where
  "sub64 a b = (if b \<le> a then wrap64 (a - b) else wrap64 (2 ^ 64 - wrap64 (b - a)))"

definition size_max :: nat where
  "size_max = 2 ^ 64 - 1"

lemma wrap64_less [simp]: "wrap64 n < 2 ^ 64"
  by (simp add: wrap64_def)

lemma wrap64_id [wrap_simps]: "n < 2 ^ 64 \<Longrightarrow> wrap64 n = n"
  by (simp add: wrap64_def)

lemma wrap32_id [wrap_simps]: "n < 2 ^ 32 \<Longrightarrow> wrap32 n = n"
  by (simp add: wrap32_def)

lemma add64_id [wrap_simps]: "a + b < 2 ^ 64 \<Longrightarrow> add64 a b = a + b"
  by (simp add: add64_def wrap64_def)

lemma mul64_id [wrap_simps]: "a * b < 2 ^ 64 \<Longrightarrow> mul64 a b = a * b"
  by (simp add: mul64_def wrap64_def)

lemma sub64_id [wrap_simps]: "b \<le> a \<Longrightarrow> a < 2 ^ 64 \<Longrightarrow> sub64 a b = a - b"
  by (simp add: sub64_def wrap64_def)

lemma sub64_add_left [wrap_simps]: "s + a < 2 ^ 64 \<Longrightarrow> sub64 (s + a) s = a"
  by (simp add: sub64_def wrap64_def)

section \<open>Division into pages, blocks and chunks\<close>

lemma div_mod_unique_nat:
  "(a::nat) = q * d + r \<Longrightarrow> r < d \<Longrightarrow> a div d = q \<and> a mod d = r"
  by auto

lemma page_block_div:
  fixes a g pb :: nat
  assumes "g dvd pb"
  shows "(a div g * g) div pb = a div pb"
proof (cases "g = 0")
  case True
  with assms show ?thesis by simp
next
  case False
  from assms obtain k where pb: "pb = g * k" by (elim dvdE)
  have "(a div g * g) div pb = (a div g * g) div g div k" by (simp add: pb div_mult2_eq)
  also have "\<dots> = a div g div k" using False by simp
  also have "\<dots> = a div pb" by (simp add: pb div_mult2_eq)
  finally show ?thesis .
qed

lemma page_block_mod:
  fixes a g pb :: nat
  assumes "g dvd pb"
  shows "(a div g * g) mod pb + a mod g = a mod pb"
proof -
  have "a mod pb = a - a div pb * pb" by (simp add: minus_div_mult_eq_mod)
  moreover have "(a div g * g) mod pb = a div g * g - a div pb * pb"
    by (metis assms minus_div_mult_eq_mod page_block_div)
  moreover have "a div pb * pb \<le> a div g * g"
    by (metis assms div_times_less_eq_dividend page_block_div)
  moreover have "a = a div g * g + a mod g" by simp
  ultimately show ?thesis by linarith
qed

lemma block_offset_less:
  fixes q k pb r :: nat
  assumes "q < k" and "r < pb"
  shows "q * pb + r < k * pb"
proof -
  from assms(2) have "q * pb + r < Suc q * pb" by simp
  also have "\<dots> \<le> k * pb" using assms(1) by (intro mult_le_mono1) simp
  finally show ?thesis .
qed

lemma block_offset_inj:
  fixes q q' pb r r' :: nat
  assumes "q * pb + r = q' * pb + r'" and "r < pb" and "r' < pb"
  shows "q = q' \<and> r = r'"
  using assms div_mod_unique_nat by metis

lemma page_split:
  fixes a d j :: nat
  assumes "d dvd a" and "j < d"
  shows "(a + j) div d * d = a" and "(a + j) mod d = j"
proof -
  from assms(1) obtain k where "a = k * d" by (metis dvdE mult.commute)
  with assms(2) div_mod_unique_nat [of "a + j" k d j]
  show "(a + j) div d * d = a" and "(a + j) mod d = j" by simp_all
qed

lemma mod_add_inj:
  fixes x y c n :: nat
  assumes "(x + c) mod n = (y + c) mod n" and "x < n" and "y < n"
  shows "x = y"
proof -
  have "(int x + int c) mod int n = (int y + int c) mod int n"
    using assms(1) by (metis of_nat_add of_nat_mod)
  then have "int x mod int n = int y mod int n"
    by (metis add_diff_cancel_right' mod_diff_left_eq)
  with assms(2,3) show ?thesis by simp
qed

end
