(* ===== verification/Data_Distribution.thy ===== *)
theory Data_Distribution
  imports Argo_Prelude
begin

text \<open>
  The data distribution policies of \<^verbatim>\<open>src/data_distribution/\<close>: the shared statics of
  \<^verbatim>\<open>base_distribution\<close> as a record, the \<^verbatim>\<open>homenode\<close> and \<^verbatim>\<open>local_offset\<close> of the naive,
  cyclic, skew-mapp and prime-mapp policies with their range checks, and the policy helpers of
  \<^verbatim>\<open>data_distribution.hpp\<close>. Two locales state what a policy promises: \<open>distribution\<close> on
  bytes and \<open>block_distribution\<close> on blocks, the second giving the first. Every policy is
  interpreted. The first-touch policy keeps state and has its own theory.
\<close>

section \<open>base\_distribution.hpp\<close>

text \<open>\<^verbatim>\<open>invalid_node_id\<close> is \<open>-1\<close> in an unsigned int, \<^verbatim>\<open>invalid_offset\<close> is \<open>SIZE_MAX\<close>.\<close>

definition invalid_node_id :: nat where
  "invalid_node_id = 2 ^ 32 - 1"

definition invalid_offset :: nat where
  "invalid_offset = size_max"

definition granularity :: nat where
  "granularity = 4096"

definition msg_fetch_homenode_fail :: string where
  "msg_fetch_homenode_fail =
     ''ArgoDSM failed to fetch a valid backing node. Please report a bug.''"

definition msg_fetch_offset_fail :: string where
  "msg_fetch_offset_fail =
     ''ArgoDSM failed to fetch a valid backing offset. Please report a bug.''"

record base_distribution =
  nodes :: nat
  start_address :: nat
  total_size :: nat
  size_per_node :: nat

definition set_memory_space :: "nat \<Rightarrow> nat \<Rightarrow> nat \<Rightarrow> base_distribution" where
  "set_memory_space n start sz =
     \<lparr>nodes = n, start_address = start, total_size = sz, size_per_node = sz div n\<rparr>"

definition get_size_per_node :: "base_distribution \<Rightarrow> nat" where
  "get_size_per_node D = size_per_node D"

text \<open>The base class itself has no policy: both virtual functions return the invalid marker.\<close>

definition base_homenode :: "base_distribution \<Rightarrow> nat \<Rightarrow> argo_error + nat" where
  "base_homenode D ptr = Inr invalid_node_id"

definition base_local_offset :: "base_distribution \<Rightarrow> nat \<Rightarrow> argo_error + nat" where
  "base_local_offset D ptr = Inr invalid_offset"

definition get_ptr :: "base_distribution \<Rightarrow> nat \<Rightarrow> nat \<Rightarrow> nat" where
  "get_ptr D home offset =
     add64 (add64 (start_address D) (mul64 home (size_per_node D))) offset"

text \<open>The two range checks every policy ends with.\<close>

definition check_home :: "base_distribution \<Rightarrow> nat \<Rightarrow> argo_error + nat" where
  "check_home D home =
     (if home \<ge> nodes D then Inl (System_error msg_fetch_homenode_fail) else Inr home)"

definition check_offset :: "base_distribution \<Rightarrow> nat \<Rightarrow> argo_error + nat" where
  "check_offset D offset =
     (if offset \<ge> size_per_node D then Inl (System_error msg_fetch_offset_fail) else Inr offset)"

section \<open>naive\_distribution.hpp\<close>

definition naive_homenode :: "base_distribution \<Rightarrow> nat \<Rightarrow> argo_error + nat" where
  "naive_homenode D ptr =
     (let addr = sub64 ptr (start_address D);
          home = wrap32 (addr div size_per_node D)
      in check_home D home)"

definition naive_local_offset :: "base_distribution \<Rightarrow> nat \<Rightarrow> argo_error + nat" where
  "naive_local_offset D ptr =
     (let addr = sub64 ptr (start_address D)
      in bindE (naive_homenode D ptr)
           (\<lambda>home. check_offset D (sub64 addr (mul64 home (size_per_node D)))))"

section \<open>cyclic\_distribution.hpp\<close>

text \<open>
  The cyclic policies read the block size in pages from \<^verbatim>\<open>env::allocation_block_size()\<close>; it is
  the first argument \<open>bs\<close>. \<open>page_addr\<close>, \<open>page_drift\<close> and \<open>pageblock\<close> are the local
  constants \<^verbatim>\<open>addr\<close>, \<^verbatim>\<open>drift\<close> and \<^verbatim>\<open>pageblock\<close> that the three policies compute the same way.
\<close>

definition pageblock :: "nat \<Rightarrow> nat" where
  "pageblock bs = mul64 bs granularity"

definition page_addr :: "base_distribution \<Rightarrow> nat \<Rightarrow> nat" where
  "page_addr D ptr = sub64 ptr (start_address D) div granularity * granularity"

definition page_drift :: "base_distribution \<Rightarrow> nat \<Rightarrow> nat" where
  "page_drift D ptr = sub64 ptr (start_address D) mod granularity"

definition cyclic_homenode :: "nat \<Rightarrow> base_distribution \<Rightarrow> nat \<Rightarrow> argo_error + nat" where
  "cyclic_homenode bs D ptr =
     (let pagenum = page_addr D ptr div pageblock bs;
          home = wrap32 (pagenum mod nodes D)
      in check_home D home)"

definition cyclic_local_offset :: "nat \<Rightarrow> base_distribution \<Rightarrow> nat \<Rightarrow> argo_error + nat" where
  "cyclic_local_offset bs D ptr =
     (let drift = page_drift D ptr;
          addr = page_addr D ptr;
          pagenum = addr div pageblock bs;
          offset = add64 (add64 (mul64 (pagenum div nodes D) (pageblock bs))
                                (addr mod pageblock bs)) drift
      in check_offset D offset)"

section \<open>skew\_mapp\_distribution.hpp\<close>

definition skew_mapp_homenode :: "nat \<Rightarrow> base_distribution \<Rightarrow> nat \<Rightarrow> argo_error + nat" where
  "skew_mapp_homenode bs D ptr =
     (let pagenum = page_addr D ptr div pageblock bs;
          home = wrap32 (add64 (add64 pagenum (pagenum div nodes D)) 1 mod nodes D)
      in check_home D home)"

definition skew_mapp_local_offset :: "nat \<Rightarrow> base_distribution \<Rightarrow> nat \<Rightarrow> argo_error + nat" where
  "skew_mapp_local_offset bs D ptr =
     (let drift = page_drift D ptr;
          addr = page_addr D ptr;
          pagenum = addr div pageblock bs;
          offset = add64 (add64 (mul64 (pagenum div nodes D) (pageblock bs))
                                (addr mod pageblock bs)) drift
      in check_offset D offset)"

section \<open>prime\_mapp\_distribution.hpp\<close>

text \<open>\<^verbatim>\<open>(3 * nodes) / 2\<close> is computed in \<^verbatim>\<open>unsigned int\<close> before it is widened.\<close>

definition prime_of :: "base_distribution \<Rightarrow> nat" where
  "prime_of D = wrap32 (3 * nodes D) div 2"

definition prime_mapp_homenode :: "nat \<Rightarrow> base_distribution \<Rightarrow> nat \<Rightarrow> argo_error + nat" where
  "prime_mapp_homenode bs D ptr =
     (let prime = prime_of D;
          pagenum = page_addr D ptr div pageblock bs;
          home = wrap32
            (if pagenum mod prime \<ge> nodes D
             then add64 (mul64 (pagenum div prime) (sub64 prime (nodes D)))
                        (sub64 (pagenum mod prime) (nodes D)) mod nodes D
             else pagenum mod prime)
      in check_home D home)"

text \<open>
  The backwards search of \<^verbatim>\<open>local_offset\<close>: \<open>addr\<close> has already been decremented by the loop
  header. \<open>None\<close> is a search that never ends.
\<close>

partial_function (option) prime_mapp_scan ::
  "nat \<Rightarrow> base_distribution \<Rightarrow> nat \<Rightarrow> nat \<Rightarrow> nat \<Rightarrow> nat \<Rightarrow> (argo_error + nat) option" where
  "prime_mapp_scan bs D realhome drift addr homecounter =
     (let prime = prime_of D;
          pagenum = addr div pageblock bs
      in case prime_mapp_homenode bs D (add64 (start_address D) addr) of
           Inl e \<Rightarrow> Some (Inl e)
         | Inr currhome \<Rightarrow>
             (let homecounter' = add64 homecounter (if currhome = realhome then 1 else 0)
              in if (addr \<le> mul64 (nodes D) (pageblock bs) \<and> currhome = realhome)
                   \<or> (pagenum mod prime \<ge> nodes D \<and> currhome = realhome)
                 then Some (Inr (add64 (add64 (mul64 (pagenum div nodes D) (pageblock bs))
                                              (addr mod pageblock bs))
                                       (add64 (mul64 homecounter' (pageblock bs)) drift)))
                 else prime_mapp_scan bs D realhome drift (sub64 addr (pageblock bs)) homecounter'))"

definition prime_mapp_local_offset :: "nat \<Rightarrow> base_distribution \<Rightarrow> nat \<Rightarrow> argo_error + nat" where
  "prime_mapp_local_offset bs D ptr =
     (let prime = prime_of D;
          drift = page_drift D ptr;
          addr = page_addr D ptr;
          pagenum = addr div pageblock bs
      in bindE
           (if addr \<le> mul64 (nodes D) (pageblock bs) \<or> pagenum mod prime \<ge> nodes D
            then Inr (add64 (add64 (mul64 (pagenum div nodes D) (pageblock bs))
                                   (addr mod pageblock bs)) drift)
            else bindE (prime_mapp_homenode bs D ptr)
                   (\<lambda>realhome.
                      case prime_mapp_scan bs D realhome drift (sub64 addr (pageblock bs)) 0 of
                        None \<Rightarrow> Inl Diverges
                      | Some r \<Rightarrow> r))
           (check_offset D))"

section \<open>data\_distribution.hpp\<close>

datatype memory_policy = naive | cyclic | skew_mapp | prime_mapp | first_touch

text \<open>The value of \<^verbatim>\<open>env::allocation_policy()\<close> compared with the enumerators.\<close>

fun policy_number :: "memory_policy \<Rightarrow> nat" where
  "policy_number naive = 0"
| "policy_number cyclic = 1"
| "policy_number skew_mapp = 2"
| "policy_number prime_mapp = 3"
| "policy_number first_touch = 4"

definition is_cyclic_policy :: "nat \<Rightarrow> bool" where
  "is_cyclic_policy policy \<longleftrightarrow>
     policy = policy_number cyclic \<or> policy = policy_number skew_mapp
       \<or> policy = policy_number prime_mapp"

definition is_prime_mapp_policy :: "nat \<Rightarrow> bool" where
  "is_prime_mapp_policy policy \<longleftrightarrow> policy = policy_number prime_mapp"

definition is_first_touch_policy :: "nat \<Rightarrow> bool" where
  "is_first_touch_policy policy \<longleftrightarrow> policy = policy_number first_touch"

text \<open>\<^verbatim>\<open>number_of_nodes()\<close> returns an unsigned int, so the product by three wraps at 32 bits.\<close>

definition policy_padding :: "nat \<Rightarrow> nat \<Rightarrow> nat \<Rightarrow> nat" where
  "policy_padding policy bs number_of_nodes =
     (let padding = (if is_cyclic_policy policy then bs else 1)
      in mul64 padding
           (if is_prime_mapp_policy policy then wrap32 (3 * number_of_nodes) div 2 else 1))"

definition policy_block_size :: "nat \<Rightarrow> nat \<Rightarrow> base_distribution \<Rightarrow> nat" where
  "policy_block_size policy bs D =
     (if is_cyclic_policy policy then mul64 bs granularity
      else if is_first_touch_policy policy then granularity
      else get_size_per_node D)"

section \<open>What a policy promises\<close>

text \<open>Where a global byte is backed: its home node and its offset in that node's store.\<close>

definition place ::
  "(base_distribution \<Rightarrow> nat \<Rightarrow> argo_error + nat) \<Rightarrow> (base_distribution \<Rightarrow> nat \<Rightarrow> argo_error + nat)
     \<Rightarrow> base_distribution \<Rightarrow> nat \<Rightarrow> nat \<times> nat" where
  "place home off D a =
     (projr (home D (start_address D + a)), projr (off D (start_address D + a)))"

locale distribution =
  fixes valid :: "base_distribution \<Rightarrow> bool"
    and home :: "base_distribution \<Rightarrow> nat \<Rightarrow> argo_error + nat"
    and off :: "base_distribution \<Rightarrow> nat \<Rightarrow> argo_error + nat"
  assumes total: "valid D \<Longrightarrow> total_size D = nodes D * size_per_node D"
    and home_range: "valid D \<Longrightarrow> a < total_size D \<Longrightarrow>
          \<exists>h < nodes D. home D (start_address D + a) = Inr h"
    and off_range: "valid D \<Longrightarrow> a < total_size D \<Longrightarrow>
          \<exists>q < size_per_node D. off D (start_address D + a) = Inr q"
    and no_alias: "valid D \<Longrightarrow> a < total_size D \<Longrightarrow> b < total_size D \<Longrightarrow>
          home D (start_address D + a) = home D (start_address D + b) \<Longrightarrow>
          off D (start_address D + a) = off D (start_address D + b) \<Longrightarrow> a = b"
begin

lemma place_eqs:
  assumes "valid D" and "a < total_size D"
  shows "home D (start_address D + a) = Inr (fst (place home off D a))"
    and "off D (start_address D + a) = Inr (snd (place home off D a))"
  using home_range [OF assms] off_range [OF assms] by (auto simp: place_def)

lemma place_in_range:
  assumes "valid D" and "a < total_size D"
  shows "place home off D a \<in> {..<nodes D} \<times> {..<size_per_node D}"
  using home_range [OF assms] off_range [OF assms] by (auto simp: place_def)

lemma place_inj: "valid D \<Longrightarrow> inj_on (place home off D) {..<total_size D}"
  by (rule inj_onI) (metis lessThan_iff no_alias place_eqs)

text \<open>Injective into a set of the same finite size: every backing byte is used exactly once.\<close>

lemma place_bij:
  assumes "valid D"
  shows "bij_betw (place home off D) {..<total_size D} ({..<nodes D} \<times> {..<size_per_node D})"
proof (rule bij_betw_imageI)
  show "inj_on (place home off D) {..<total_size D}" using assms by (rule place_inj)
  show "place home off D ` {..<total_size D} = {..<nodes D} \<times> {..<size_per_node D}"
  proof (rule card_subset_eq)
    show "place home off D ` {..<total_size D} \<subseteq> {..<nodes D} \<times> {..<size_per_node D}"
      using assms place_in_range by blast
    show "card (place home off D ` {..<total_size D})
            = card ({..<nodes D} \<times> {..<size_per_node D})"
      using assms place_inj total by (simp add: card_image)
  qed simp
qed

end

text \<open>
  A policy that moves whole blocks of \<open>bsize D\<close> bytes: block \<open>b\<close> goes to slot \<open>bslot D b\<close>
  of node \<open>bhome D b\<close> and a byte keeps its position inside the block.
\<close>

locale block_distribution =
  fixes valid :: "base_distribution \<Rightarrow> bool"
    and home :: "base_distribution \<Rightarrow> nat \<Rightarrow> argo_error + nat"
    and off :: "base_distribution \<Rightarrow> nat \<Rightarrow> argo_error + nat"
    and bsize :: "base_distribution \<Rightarrow> nat"
    and bhome :: "base_distribution \<Rightarrow> nat \<Rightarrow> nat"
    and bslot :: "base_distribution \<Rightarrow> nat \<Rightarrow> nat"
  assumes bsize_pos: "valid D \<Longrightarrow> 0 < bsize D"
    and bsize_dvd: "valid D \<Longrightarrow> bsize D dvd size_per_node D"
    and total_nodes: "valid D \<Longrightarrow> total_size D = nodes D * size_per_node D"
    and home_block: "valid D \<Longrightarrow> a < total_size D \<Longrightarrow>
          home D (start_address D + a) = Inr (bhome D (a div bsize D))"
    and off_block: "valid D \<Longrightarrow> a < total_size D \<Longrightarrow>
          off D (start_address D + a) = Inr (bslot D (a div bsize D) * bsize D + a mod bsize D)"
    and bhome_less: "valid D \<Longrightarrow> b < total_size D div bsize D \<Longrightarrow> bhome D b < nodes D"
    and bslot_less: "valid D \<Longrightarrow> b < total_size D div bsize D \<Longrightarrow>
          bslot D b < size_per_node D div bsize D"
    and block_inj: "valid D \<Longrightarrow> b < total_size D div bsize D \<Longrightarrow> c < total_size D div bsize D \<Longrightarrow>
          bhome D b = bhome D c \<Longrightarrow> bslot D b = bslot D c \<Longrightarrow> b = c"
begin

lemma block_less:
  assumes "valid D" and "a < total_size D"
  shows "a div bsize D < total_size D div bsize D"
proof -
  have "bsize D dvd total_size D"
    using assms(1) by (metis bsize_dvd dvd_mult total_nodes)
  then obtain k where k: "total_size D = bsize D * k" by (elim dvdE)
  with assms bsize_pos [OF assms(1)] show ?thesis
    by (simp add: less_mult_imp_div_less mult.commute)
qed

lemma slot_offset_less:
  assumes "valid D" and "b < total_size D div bsize D" and "r < bsize D"
  shows "bslot D b * bsize D + r < size_per_node D"
  using block_offset_less [OF bslot_less [OF assms(1,2)] assms(3)] bsize_dvd [OF assms(1)]
  by simp

end

sublocale block_distribution \<subseteq> distribution valid home off
proof
  fix D a
  assume v: "valid D"
  show "total_size D = nodes D * size_per_node D" using v by (rule total_nodes)
  assume a: "a < total_size D"
  show "\<exists>h < nodes D. home D (start_address D + a) = Inr h"
    using home_block [OF v a] bhome_less [OF v block_less [OF v a]] by blast
  show "\<exists>q < size_per_node D. off D (start_address D + a) = Inr q"
    using off_block [OF v a] slot_offset_less [OF v block_less [OF v a]] bsize_pos [OF v] by simp
  fix b
  assume b: "b < total_size D"
    and h: "home D (start_address D + a) = home D (start_address D + b)"
    and q: "off D (start_address D + a) = off D (start_address D + b)"
  let ?bs = "bsize D"
  from q off_block [OF v a] off_block [OF v b] have "bslot D (a div ?bs) = bslot D (b div ?bs)"
    and r: "a mod ?bs = b mod ?bs"
    using block_offset_inj bsize_pos [OF v] by (metis mod_less_divisor sum.inject(2))+
  moreover from h have "bhome D (a div ?bs) = bhome D (b div ?bs)"
    using home_block [OF v a] home_block [OF v b] by simp
  ultimately have "a div ?bs = b div ?bs"
    using block_inj [OF v block_less [OF v a] block_less [OF v b]] by simp
  with r show "a = b" by (metis div_mult_mod_eq)
qed

end
