(* ===== verification/Distribution_Policies.thy ===== *)
theory Distribution_Policies
  imports Data_Distribution
begin

text \<open>
  Each policy of \<^verbatim>\<open>src/data_distribution/\<close> meets the contract of the locale
  \<open>block_distribution\<close>: the naive policy with one block per node, the cyclic and skew-mapp
  policies with round-robin rows of blocks, and the prime-mapp policy, whose backwards search
  is shown to end and to compute the rank of a block among the blocks of its home node.
\<close>

section \<open>Well-formed memory spaces\<close>

text \<open>What \<^verbatim>\<open>argo_initialize\<close> establishes: equal non-empty chunks that fit the address space.\<close>

definition wf_space :: "base_distribution \<Rightarrow> bool" where
  "wf_space D \<longleftrightarrow> 0 < nodes D \<and> nodes D < 2 ^ 32 \<and> 0 < size_per_node D
     \<and> total_size D = nodes D * size_per_node D \<and> start_address D + total_size D < 2 ^ 64"

definition wf_blocks :: "nat \<Rightarrow> base_distribution \<Rightarrow> bool" where
  "wf_blocks bs D \<longleftrightarrow> wf_space D \<and> 0 < bs \<and> bs * granularity dvd size_per_node D"

definition wf_prime_blocks :: "nat \<Rightarrow> base_distribution \<Rightarrow> bool" where
  "wf_prime_blocks bs D \<longleftrightarrow> wf_space D \<and> 0 < bs \<and> 3 * nodes D < 2 ^ 32
     \<and> bs * granularity * (3 * nodes D div 2) dvd size_per_node D"

lemma granularity_pos [simp]: "0 < granularity"
  by (simp add: granularity_def)

lemma wf_space_bounds:
  assumes "wf_space D" and "a < total_size D"
  shows "start_address D + a < 2 ^ 64" and "a < 2 ^ 64"
    and "size_per_node D \<le> total_size D" and "total_size D < 2 ^ 64"
  using assms by (auto simp: wf_space_def)

lemma addr_of_ptr:
  assumes "wf_space D" and "a < total_size D"
  shows "sub64 (start_address D + a) (start_address D) = a"
  using wf_space_bounds [OF assms] by (simp add: sub64_add_left)

lemma wf_blocks_space: "wf_blocks bs D \<Longrightarrow> wf_space D"
  by (simp add: wf_blocks_def)

lemma wf_prime_blocks_wf_blocks:
  assumes "wf_prime_blocks bs D"
  shows "wf_blocks bs D"
  using assms unfolding wf_prime_blocks_def wf_blocks_def by (meson dvd_mult_left)

lemma pageblock_eq:
  assumes "wf_blocks bs D" and "a < total_size D"
  shows "pageblock bs = bs * granularity"
proof -
  from assms have "bs * granularity \<le> size_per_node D"
    by (meson dvd_imp_le wf_blocks_def wf_space_def)
  then have "bs * granularity < 2 ^ 64"
    using wf_space_bounds(3,4) [OF wf_blocks_space [OF assms(1)] assms(2)] by linarith
  then show ?thesis by (simp add: pageblock_def mul64_id)
qed

lemma page_addr_div:
  assumes "wf_blocks bs D" and "a < total_size D"
  shows "page_addr D (start_address D + a) div pageblock bs = a div (bs * granularity)"
  by (simp only: page_addr_def addr_of_ptr [OF wf_blocks_space [OF assms(1)] assms(2)]
      pageblock_eq [OF assms] page_block_div dvd_triv_right)

lemma page_addr_mod:
  assumes "wf_blocks bs D" and "a < total_size D"
  shows "page_addr D (start_address D + a) mod pageblock bs + page_drift D (start_address D + a)
           = a mod (bs * granularity)"
  by (simp only: page_addr_def page_drift_def addr_of_ptr [OF wf_blocks_space [OF assms(1)] assms(2)]
      pageblock_eq [OF assms] page_block_mod dvd_triv_right)

section \<open>The naive policy\<close>

interpretation naive: block_distribution wf_space naive_homenode naive_local_offset
  size_per_node "\<lambda>D b. b" "\<lambda>D b. 0"
proof
  fix D b c assume v: "wf_space D"
  then show "0 < size_per_node D" "size_per_node D dvd size_per_node D"
    "total_size D = nodes D * size_per_node D"
    by (simp_all add: wf_space_def)
  show "b < total_size D div size_per_node D \<Longrightarrow> b < nodes D"
    and "b < total_size D div size_per_node D \<Longrightarrow> 0 < size_per_node D div size_per_node D"
    using v by (simp_all add: wf_space_def)
next
  fix D a assume v: "wf_space D" and a: "a < total_size D"
  from v a have n: "a div size_per_node D < nodes D"
    by (simp add: wf_space_def less_mult_imp_div_less)
  with v have w: "wrap32 (a div size_per_node D) = a div size_per_node D"
    by (simp add: wrap32_id wf_space_def)
  show h: "naive_homenode D (start_address D + a) = Inr (a div size_per_node D)"
    using n w v a by (simp add: naive_homenode_def Let_def addr_of_ptr check_home_def)
  have le: "a div size_per_node D * size_per_node D \<le> a" by simp
  moreover have "a < 2 ^ 64" using wf_space_bounds [OF v a] by simp
  ultimately have "sub64 a (mul64 (a div size_per_node D) (size_per_node D)) = a mod size_per_node D"
    by (metis le_less_trans minus_div_mult_eq_mod mul64_id sub64_id)
  then show "naive_local_offset D (start_address D + a)
          = Inr (0 * size_per_node D + a mod size_per_node D)"
    using v a h
    by (simp add: naive_local_offset_def Let_def addr_of_ptr check_offset_def wf_space_def not_le)
qed auto

section \<open>Row-wise placement\<close>

text \<open>
  Cyclic and skew-mapp share \<^verbatim>\<open>local_offset\<close>: block \<open>b\<close> of row \<open>b div N\<close> takes slot
  \<open>b div N\<close> on its node.
\<close>

lemma row_offset:
  assumes "wf_blocks bs D" and "a < total_size D"
  shows "cyclic_local_offset bs D (start_address D + a)
           = Inr (a div (bs * granularity) div nodes D * (bs * granularity) + a mod (bs * granularity))"
proof -
  let ?pb = "bs * granularity"
  let ?q = "a div ?pb div nodes D"
  let ?ad = "page_addr D (start_address D + a)" and ?dr = "page_drift D (start_address D + a)"
  from assms(1) have v: "wf_space D" and pb: "0 < ?pb" "?pb dvd size_per_node D"
    by (auto simp: wf_blocks_def)
  from pb obtain k where k: "size_per_node D = ?pb * k" by (elim dvdE)
  from v assms(2) have "a div ?pb < nodes D * k"
    by (metis (no_types, lifting) k less_mult_imp_div_less mult.assoc mult.commute wf_space_def)
  then have "?q < k" by (simp add: less_mult_imp_div_less mult.commute)
  then have lt: "?q * ?pb + a mod ?pb < size_per_node D"
    using block_offset_less [of ?q k "a mod ?pb" ?pb] pb by (simp add: k mult.commute)
  have b64: "?q * ?pb + a mod ?pb < 2 ^ 64"
    using lt wf_space_bounds [OF v assms(2)] by linarith
  have sum: "?ad mod pageblock bs + ?dr = a mod ?pb" by (rule page_addr_mod [OF assms])
  have m: "mul64 ?q (pageblock bs) = ?q * ?pb"
    using b64 by (simp add: pageblock_eq [OF assms] mul64_id)
  have "add64 (add64 (?q * ?pb) (?ad mod pageblock bs)) ?dr = ?q * ?pb + a mod ?pb"
    using sum b64 by (simp add: add64_id)
  then show ?thesis
    using lt m by (simp add: cyclic_local_offset_def Let_def page_addr_div [OF assms]
        check_offset_def)
qed

lemma skew_offset_eq: "skew_mapp_local_offset = cyclic_local_offset"
  by (intro ext) (simp add: skew_mapp_local_offset_def cyclic_local_offset_def)

lemma cyclic_home:
  assumes "wf_blocks bs D" and "a < total_size D"
  shows "cyclic_homenode bs D (start_address D + a) = Inr (a div (bs * granularity) mod nodes D)"
proof -
  have "a div (bs * granularity) mod nodes D < nodes D" and "nodes D < 2 ^ 32"
    using assms by (auto simp: wf_blocks_def wf_space_def)
  then show ?thesis
    by (simp add: cyclic_homenode_def Let_def page_addr_div [OF assms] wrap32_id check_home_def)
qed

lemma row_slot_less:
  assumes "wf_blocks bs D" and "b < total_size D div (bs * granularity)"
  shows "b div nodes D < size_per_node D div (bs * granularity)"
proof -
  from assms(1) obtain k where k: "size_per_node D = bs * granularity * k" and "0 < bs * granularity"
    and t: "total_size D = nodes D * size_per_node D"
    by (auto simp: wf_blocks_def wf_space_def elim!: dvdE)
  then have "total_size D div (bs * granularity) = nodes D * k"
    by (metis mult.left_commute nonzero_mult_div_cancel_left not_gr_zero)
  with assms(2) have "b div nodes D < k"
    by (simp add: less_mult_imp_div_less mult.commute)
  then show ?thesis using k \<open>0 < bs * granularity\<close> by simp
qed

interpretation cyclic: block_distribution "wf_blocks bs" "cyclic_homenode bs" "cyclic_local_offset bs"
  "\<lambda>D. bs * granularity" "\<lambda>D b. b mod nodes D" "\<lambda>D b. b div nodes D" for bs
proof
  fix D b c assume v: "wf_blocks bs D"
  then show "0 < bs * granularity" "bs * granularity dvd size_per_node D"
    "total_size D = nodes D * size_per_node D" "b mod nodes D < nodes D"
    by (simp_all add: wf_blocks_def wf_space_def)
  show "b < total_size D div (bs * granularity) \<Longrightarrow>
      b div nodes D < size_per_node D div (bs * granularity)"
    using v by (rule row_slot_less)
  show "b mod nodes D = c mod nodes D \<Longrightarrow> b div nodes D = c div nodes D \<Longrightarrow> b = c"
    by (metis div_mult_mod_eq)
qed (simp_all add: cyclic_home row_offset)

section \<open>The skew-mapp policy\<close>

text \<open>Row \<open>r\<close> is rotated by \<open>r + 1\<close>.\<close>

lemma skew_row: "(b + b div n + 1) mod n = (b mod n + (b div n + 1)) mod (n::nat)"
  by (metis add.assoc mod_add_left_eq)

lemma skew_home:
  assumes "wf_blocks bs D" and "a < total_size D"
  shows "skew_mapp_homenode bs D (start_address D + a) =
     Inr ((a div (bs * granularity) + a div (bs * granularity) div nodes D + 1) mod nodes D)"
proof -
  let ?b = "a div (bs * granularity)"
  have g: "granularity * ?b \<le> a"
    by (metis div_mult2_eq div_times_less_eq_dividend le_trans mult.commute
        times_div_less_eq_dividend mult_le_mono2 div_le_dividend div_le_mono)
  have "a < 2 ^ 64" using assms wf_space_bounds wf_blocks_space by blast
  with g have "?b < 2 ^ 52" by (simp add: granularity_def)
  moreover have "?b div nodes D \<le> ?b" by (rule div_le_dividend)
  ultimately have "?b + ?b div nodes D + 1 < 2 ^ 52 + 2 ^ 52 + 1" by linarith
  then have "?b + ?b div nodes D + 1 < 2 ^ 64" by simp
  then have "add64 (add64 ?b (?b div nodes D)) 1 = ?b + ?b div nodes D + 1"
    by (simp add: add64_id)
  moreover have "0 < nodes D" and "nodes D < 2 ^ 32"
    using assms by (auto simp: wf_blocks_def wf_space_def)
  moreover have "(?b + ?b div nodes D + 1) mod nodes D < nodes D" using calculation by simp
  ultimately show ?thesis
    by (simp add: skew_mapp_homenode_def Let_def page_addr_div [OF assms] wrap32_id check_home_def)
qed

interpretation skew: block_distribution "wf_blocks bs" "skew_mapp_homenode bs"
  "skew_mapp_local_offset bs" "\<lambda>D. bs * granularity"
  "\<lambda>D b. (b + b div nodes D + 1) mod nodes D" "\<lambda>D b. b div nodes D" for bs
proof
  fix D b c assume v: "wf_blocks bs D"
  then have n: "0 < nodes D" by (simp add: wf_blocks_def wf_space_def)
  from v n show "0 < bs * granularity" "bs * granularity dvd size_per_node D"
    "total_size D = nodes D * size_per_node D" "(b + b div nodes D + 1) mod nodes D < nodes D"
    by (simp_all add: wf_blocks_def wf_space_def)
  show "b < total_size D div (bs * granularity) \<Longrightarrow>
      b div nodes D < size_per_node D div (bs * granularity)"
    using v by (rule row_slot_less)
  assume h: "(b + b div nodes D + 1) mod nodes D = (c + c div nodes D + 1) mod nodes D"
    and r: "b div nodes D = c div nodes D"
  from h have "(b mod nodes D + (b div nodes D + 1)) mod nodes D
      = (c mod nodes D + (c div nodes D + 1)) mod nodes D"
    by (simp only: skew_row)
  then have "(b mod nodes D + (c div nodes D + 1)) mod nodes D
      = (c mod nodes D + (c div nodes D + 1)) mod nodes D"
    by (simp only: r)
  then have "b mod nodes D = c mod nodes D" by (rule mod_add_inj) (use n in simp_all)
  with r show "b = c" by (metis div_mult_mod_eq)
qed (simp_all add: skew_home skew_offset_eq row_offset)

section \<open>The prime-mapp policy\<close>

text \<open>
  Block \<open>b\<close> of the prime-mapp policy on \<open>n\<close> nodes, with \<open>p = 3n / 2\<close> virtual nodes, and
  the number of blocks below \<open>b\<close> that node \<open>m\<close> holds.
\<close>

fun prime_home :: "nat \<Rightarrow> nat \<Rightarrow> nat" where
  "prime_home n b =
     (let p = 3 * n div 2
      in if b mod p \<ge> n then ((b div p) * (p - n) + (b mod p - n)) mod n else b mod p)"

declare prime_home.simps [simp del]

fun blocks_below :: "nat \<Rightarrow> nat \<Rightarrow> nat \<Rightarrow> nat" where
  "blocks_below n m 0 = 0"
| "blocks_below n m (Suc b) = blocks_below n m b + (if prime_home n b = m then 1 else 0)"

definition prime_slot :: "nat \<Rightarrow> nat \<Rightarrow> nat" where
  "prime_slot n b = blocks_below n (prime_home n b) b"

lemma prime_home_less: "0 < n \<Longrightarrow> prime_home n b < n"
  by (simp add: prime_home.simps Let_def)

lemma blocks_below_mono: "b \<le> c \<Longrightarrow> blocks_below n m b \<le> blocks_below n m c"
  by (induction c) (auto simp: le_Suc_eq)

lemma blocks_below_le: "blocks_below n m b \<le> b"
  by (induction b) auto

lemma prime_slot_inj:
  assumes "prime_home n b = prime_home n c" and "prime_slot n b = prime_slot n c"
  shows "b = c"
proof (rule ccontr)
  have *: False if "b < c" "prime_home n b = prime_home n c" "prime_slot n b = prime_slot n c" for b c
    using blocks_below_mono [of "Suc b" c n "prime_home n c"] that
    by (simp add: prime_slot_def)
  assume "b \<noteq> c"
  with * assms show False by (metis linorder_neqE_nat)
qed

text \<open>Multiples: how many \<open>k < K\<close> have \<open>k mod n = m\<close>.\<close>

definition residues_below :: "nat \<Rightarrow> nat \<Rightarrow> nat \<Rightarrow> nat" where
  "residues_below n m K = (K + n - 1 - m) div n"

lemma residues_below_eq:
  assumes "K + n - 1 - m = r + q * n" and "r < n"
  shows "residues_below n m K = q"
  unfolding residues_below_def assms(1) using assms(2) by simp

lemma residues_below_Suc:
  assumes "m < n"
  shows "residues_below n m (Suc K) = residues_below n m K + (if K mod n = m then 1 else 0)"
proof -
  let ?M = "K + n - 1 - m"
  have S: "Suc K + n - 1 - m = Suc ?M" using assms by auto
  have "Suc ?M mod n = 0 \<longleftrightarrow> K mod n = m"
  proof -
    have e: "Suc ?M = K + (n - m)" using assms by auto
    have "(K + (n - m)) mod n = 0 \<longleftrightarrow> (K mod n + (n - m)) mod n = (m + (n - m)) mod n"
      using assms by (simp only: mod_add_left_eq le_add_diff_inverse mod_self less_imp_le)
    also have "\<dots> \<longleftrightarrow> K mod n = m"
      using assms mod_add_inj [of "K mod n" "n - m" n m] by auto
    finally show ?thesis by (simp only: e)
  qed
  then show ?thesis using S by (simp add: residues_below_def div_Suc)
qed

lemma blocks_below_closed:
  assumes "m < n"
  defines "p \<equiv> 3 * n div 2"
  shows "blocks_below n m b =
    b div p + (if m < b mod p then 1 else 0)
      + residues_below n m ((b div p) * (p - n) + (b mod p - n))"
proof (induction b)
  case 0
  from assms(1) show ?case by (simp add: residues_below_def)
next
  case (Suc b)
  have p: "n \<le> p" "0 < p" using assms(1) by (auto simp: p_def)
  define q r where "q = b div p" and "r = b mod p"
  have r: "r < p" using p by (simp add: r_def)
  have home: "prime_home n b = (if r \<ge> n then (q * (p - n) + (r - n)) mod n else r)"
    by (simp add: prime_home.simps Let_def p_def q_def r_def)
  have IH: "blocks_below n m b =
      q + (if m < r then 1 else 0) + residues_below n m (q * (p - n) + (r - n))"
    using Suc by (simp add: q_def r_def)
  show ?case
  proof (cases "Suc r = p")
    case True
    then have d: "Suc b div p = Suc q" "Suc b mod p = 0"
      by (simp_all add: q_def r_def div_Suc mod_Suc)
    have K: "r \<ge> n \<Longrightarrow> Suc q * (p - n) = Suc (q * (p - n) + (r - n))" using True by auto
    have e: "\<not> r \<ge> n \<Longrightarrow> p = n \<and> n = Suc r" using True p by auto
    show ?thesis
    proof (cases "r \<ge> n")
      case True
      then show ?thesis
        using d IH home K assms(1) by (simp add: residues_below_Suc)
    next
      case False
      with e have "n = 1" using assms(1) by (auto simp: p_def)
      with False e d IH home assms(1) show ?thesis by (simp add: residues_below_def)
    qed
  next
    case False
    then have d: "Suc b div p = q" "Suc b mod p = Suc r"
      by (simp_all add: q_def r_def div_Suc mod_Suc)
    show ?thesis
    proof (cases "r \<ge> n")
      case True
      then have "q * (p - n) + (Suc r - n) = Suc (q * (p - n) + (r - n))" by auto
      with True d IH home assms(1) show ?thesis by (simp add: residues_below_Suc)
    next
      case False
      with d IH home show ?thesis by auto
    qed
  qed
qed

lemma blocks_below_total:
  assumes "m < n" and "T = k * n * (3 * n div 2)"
  shows "blocks_below n m T = k * (3 * n div 2)"
proof -
  let ?p = "3 * n div 2"
  have p: "n \<le> ?p" "0 < ?p" using assms(1) by auto
  have "residues_below n m (k * n * (?p - n)) = k * (?p - n)"
  proof -
    have "k * n * (?p - n) + n - 1 - m = (n - 1 - m) + k * (?p - n) * n"
      using assms(1) by (simp add: ac_simps)
    then show ?thesis by (rule residues_below_eq) (use assms(1) in simp)
  qed
  then have "blocks_below n m T = k * n + k * (?p - n)"
    using p by (simp add: blocks_below_closed [OF assms(1)] assms(2))
  also have "\<dots> = k * ?p" using p by (metis add_mult_distrib2 le_add_diff_inverse)
  finally show ?thesis .
qed

text \<open>At an anchor of the backwards search the rank is the row number.\<close>

lemma anchor_rank:
  assumes "0 < n" and "b \<le> n \<or> b mod (3 * n div 2) \<ge> n"
  shows "prime_slot n b = b div n"
proof -
  let ?p = "3 * n div 2" and ?m = "prime_home n b"
  have p: "n \<le> ?p" "0 < ?p" using assms(1) by auto
  have m: "?m < n" using assms(1) by (rule prime_home_less)
  have n1: "n = 1" if "\<not> n < ?p" using that assms(1) by linarith
  consider (phase2) "b mod ?p \<ge> n" | (small) "b < n" | (one) "n = 1" "b = 1"
  proof (cases "b = n \<and> n < ?p")
    case True
    then have "b mod ?p = n" by simp
    with that(1) show thesis by simp
  next
    case False
    with that assms(2) n1 show thesis by (metis le_neq_implies_less)
  qed
  then show ?thesis
  proof cases
    case phase2
    let ?K = "(b div ?p) * (?p - n) + (b mod ?p - n)"
    have "?m = ?K mod n" using phase2 by (simp add: prime_home.simps Let_def)
    then have "?K = ?K div n * n + ?m" by simp
    then have "?K + n - 1 - ?m = (n - 1) + ?K div n * n" using m by linarith
    then have "residues_below n ?m ?K = ?K div n"
      by (rule residues_below_eq) (use assms(1) in simp)
    moreover have "b = n * Suc (b div ?p) + ?K"
    proof -
      have "b = b div ?p * ?p + b mod ?p" by (rule div_mult_mod_eq [symmetric])
      also have "\<dots> = b div ?p * (n + (?p - n)) + (n + (b mod ?p - n))"
        using p phase2 by simp
      also have "\<dots> = n * Suc (b div ?p) + ?K"
        unfolding distrib_left by simp
      finally show ?thesis .
    qed
    then have "b div n = Suc (b div ?p) + ?K div n"
      using assms(1) by (metis div_mult_self2 add.commute not_gr_zero)
    ultimately show ?thesis
      using m phase2 by (simp add: prime_slot_def blocks_below_closed [OF m])
  next
    case small
    then have "?m = b" using p by (simp add: prime_home.simps Let_def)
    moreover have "blocks_below n b b = 0"
      using small p by (simp add: blocks_below_closed [OF small] residues_below_def)
    ultimately show ?thesis using small by (simp add: prime_slot_def)
  next
    case one
    then show ?thesis by (simp add: prime_slot_def prime_home.simps)
  qed
qed

lemma prime_of_eq: "3 * nodes D < 2 ^ 32 \<Longrightarrow> prime_of D = 3 * nodes D div 2"
  by (simp add: prime_of_def wrap32_id)

lemma prime_block_small:
  assumes "wf_prime_blocks bs D" and "a < total_size D"
  shows "a div (bs * granularity) < 2 ^ 52"
proof -
  have "a div (bs * granularity) \<le> a div granularity"
    using assms(1) by (intro div_le_mono2) (auto simp: wf_prime_blocks_def)
  moreover have "a < 2 ^ 64"
    using assms wf_space_bounds wf_blocks_space wf_prime_blocks_wf_blocks by blast
  then have "a div granularity < 2 ^ 52" by (simp add: granularity_def less_mult_imp_div_less)
  ultimately show ?thesis by linarith
qed

lemma prime_mapp_home:
  assumes "wf_prime_blocks bs D" and "a < total_size D"
  shows "prime_mapp_homenode bs D (start_address D + a)
           = Inr (prime_home (nodes D) (a div (bs * granularity)))"
proof -
  let ?b = "a div (bs * granularity)" and ?n = "nodes D" and ?p = "3 * nodes D div 2"
  have n: "0 < ?n" "?n < 2 ^ 32" "3 * ?n < 2 ^ 32"
    using assms(1) by (auto simp: wf_prime_blocks_def wf_space_def)
  then have p: "?n \<le> ?p" "0 < ?p" "?p < 2 ^ 32" by auto
  have b: "?b < 2 ^ 52" using assms by (rule prime_block_small)
  let ?K = "?b div ?p * (?p - ?n) + (?b mod ?p - ?n)"
  have "?K \<le> ?b div ?p * ?p + ?b mod ?p" by (intro add_le_mono mult_le_mono2) auto
  then have "?K < 2 ^ 52" unfolding div_mult_mod_eq using b by (rule le_less_trans)
  then have K: "?K < 2 ^ 64" by simp
  have "?b mod ?p < 2 ^ 52" using b by (rule le_less_trans [OF mod_less_eq_dividend])
  then have "?b mod ?p < 2 ^ 64" by simp
  then have s: "?b mod ?p \<ge> ?n \<Longrightarrow> sub64 (?b mod ?p) ?n = ?b mod ?p - ?n" by (simp add: sub64_id)
  have "sub64 ?p ?n = ?p - ?n" using p by (simp add: sub64_id)
  moreover have "mul64 (?b div ?p) (?p - ?n) = ?b div ?p * (?p - ?n)"
    using K by (intro mul64_id) linarith
  ultimately have "?b mod ?p \<ge> ?n \<Longrightarrow>
      add64 (mul64 (?b div ?p) (sub64 ?p ?n)) (sub64 (?b mod ?p) ?n) = ?K"
    using s K by (simp only: add64_id)
  then have home: "(if ?b mod ?p \<ge> ?n
      then add64 (mul64 (?b div ?p) (sub64 ?p ?n)) (sub64 (?b mod ?p) ?n) mod ?n
      else ?b mod ?p) = prime_home ?n ?b"
    by (simp only: prime_home.simps Let_def split: if_split) simp
  have lt: "prime_home ?n ?b < ?n" using n(1) by (rule prime_home_less)
  with n(2) have w: "wrap32 (prime_home ?n ?b) = prime_home ?n ?b" by (simp add: wrap32_id)
  have "check_home D (prime_home ?n ?b) = Inr (prime_home ?n ?b)"
    using lt by (simp add: check_home_def)
  then show ?thesis
    by (simp only: prime_mapp_homenode_def Let_def prime_of_eq [OF n(3)] home w
        page_addr_div [OF wf_prime_blocks_wf_blocks [OF assms(1)] assms(2)])
qed

text \<open>
  One round of the backwards search at block \<open>b\<close>, then the whole search: it ends, because
  block \<open>m\<close> itself is an anchor, and adds up the rank of the block it started for.
\<close>

lemma prime_mapp_scan_step:
  assumes "wf_prime_blocks bs D"
  defines "pb \<equiv> bs * granularity" and "n \<equiv> nodes D"
  assumes A: "b * pb + r < total_size D" "r < pb" and ov: "(Suc b + hc) * pb + r + drift < 2 ^ 64"
  shows "prime_mapp_scan bs D m drift (b * pb + r) hc =
     (if prime_home n b = m \<and> (b * pb + r \<le> n * pb \<or> b mod (3 * n div 2) \<ge> n)
      then Some (Inr ((b div n + Suc hc) * pb + r + drift))
      else prime_mapp_scan bs D m drift (sub64 (b * pb + r) pb)
             (hc + (if prime_home n b = m then 1 else 0)))"
proof -
  have w: "wf_blocks bs D" using assms(1) by (rule wf_prime_blocks_wf_blocks)
  have pbe: "pageblock bs = pb" using pageblock_eq [OF w A(1)] by (simp add: pb_def)
  have bd: "(b * pb + r) div pb = b" "(b * pb + r) mod pb = r" using A(2) by simp_all
  have h: "prime_mapp_homenode bs D (start_address D + (b * pb + r)) = Inr (prime_home n b)"
    using prime_mapp_home [OF assms(1) A(1)] bd by (simp add: pb_def n_def)
  have st: "start_address D + (b * pb + r) < 2 ^ 64"
    using wf_space_bounds [OF wf_blocks_space [OF w] A(1)] by simp
  have "n * pb \<le> total_size D"
    using w by (auto simp: wf_blocks_def wf_space_def pb_def n_def intro: dvd_imp_le)
  then have npb: "n * pb < 2 ^ 64"
    using wf_space_bounds(4) [OF wf_blocks_space [OF w] A(1)] by linarith
  have "0 < pb" using A(2) by simp
  have "b div n * pb \<le> b * pb" by simp
  moreover have "(Suc b + hc) * pb = b * pb + Suc hc * pb" by (simp add: algebra_simps)
  ultimately have q: "b div n * pb + r + Suc hc * pb + drift < 2 ^ 64" using ov by linarith
  have "Suc hc \<le> Suc hc * pb" using \<open>0 < pb\<close> by (cases pb) auto
  with q have hc: "Suc hc < 2 ^ 64" by linarith
  have res: "add64 (add64 (mul64 (b div n) pb) r) (add64 (mul64 (hc + 1) pb) drift)
     = (b div n + Suc hc) * pb + r + drift"
    using q by (simp add: add64_id mul64_id algebra_simps)
  have cnt: "add64 hc 1 = hc + 1" "add64 hc 0 = hc + 0" using hc by (simp_all add: add64_id)
  have pr: "prime_of D = 3 * n div 2"
    using assms(1) by (simp add: wf_prime_blocks_def n_def prime_of_eq)
  have nd: "nodes D = n" by (simp add: n_def)
  show ?thesis
  proof (cases "prime_home n b = m")
    case True
    then show ?thesis
      by (simp only: prime_mapp_scan.simps [of bs D m drift "b * pb + r" hc] Let_def add64_id [OF st]
          nd mul64_id [OF npb] h pbe bd pr sum.case cnt res if_True simp_thms)
  next
    case False
    then show ?thesis
      by (simp only: prime_mapp_scan.simps [of bs D m drift "b * pb + r" hc] Let_def add64_id [OF st]
          nd mul64_id [OF npb] h pbe bd pr sum.case cnt if_False simp_thms)
  qed
qed

lemma prime_mapp_scan_rank:
  assumes "wf_prime_blocks bs D"
  defines "pb \<equiv> bs * granularity" and "n \<equiv> nodes D"
  assumes "m < n" and "m \<le> b" and "b * pb + r < total_size D" and "r < pb"
    and "(Suc b + hc) * pb + r + drift < 2 ^ 64"
  shows "prime_mapp_scan bs D m drift (b * pb + r) hc
     = Some (Inr ((blocks_below n m (Suc b) + hc) * pb + r + drift))"
  using assms(5-)
proof (induction b arbitrary: hc rule: less_induct)
  case (less b)
  let ?stop = "prime_home n b = m \<and> (b * pb + r \<le> n * pb \<or> b mod (3 * n div 2) \<ge> n)"
  note step = prime_mapp_scan_step [OF assms(1) less.prems(2-4) [unfolded pb_def],
      folded pb_def n_def]
  show ?case
  proof (cases ?stop)
    case True
    moreover have "0 < pb" using \<open>r < pb\<close> by simp
    ultimately have "b \<le> n \<or> b mod (3 * n div 2) \<ge> n"
      by (metis add_leD1 mult_le_cancel2)
    then have "blocks_below n m b = b div n"
      using anchor_rank [of n b] True assms(4) by (simp add: prime_slot_def)
    with True step show ?thesis by simp
  next
    case False
    have "b \<noteq> m"
    proof
      assume "b = m"
      then have "prime_home n b = m" using assms(4) by (simp add: prime_home.simps Let_def)
      moreover have "b * pb + r \<le> n * pb"
        using block_offset_less [OF assms(4) \<open>r < pb\<close>] \<open>b = m\<close> by simp
      ultimately show False using False by simp
    qed
    with less.prems(1) obtain c where c: "b = Suc c" and "m \<le> c" by (cases b) auto
    let ?hc = "hc + (if prime_home n b = m then 1 else 0)"
    have "b * pb + r < 2 ^ 64"
      using wf_space_bounds [OF wf_blocks_space [OF wf_prime_blocks_wf_blocks [OF assms(1)]]]
        less.prems(2) by blast
    then have "sub64 (b * pb + r) pb = c * pb + r" by (simp add: c sub64_id)
    moreover have "Suc c + ?hc \<le> Suc b + hc" by (simp add: c)
    then have "(Suc c + ?hc) * pb \<le> (Suc b + hc) * pb" by (rule mult_le_mono1)
    then have "(Suc c + ?hc) * pb + r + drift < 2 ^ 64" using less.prems(4) by linarith
    then have "prime_mapp_scan bs D m drift (c * pb + r) ?hc
        = Some (Inr ((blocks_below n m (Suc c) + ?hc) * pb + r + drift))"
      using less.IH [of c ?hc] \<open>m \<le> c\<close> less.prems(2,3) c by simp
    moreover have "blocks_below n m (Suc c) + ?hc = blocks_below n m (Suc b) + hc"
      by (simp add: c)
    ultimately show ?thesis by (simp only: step [of m] if_not_P [OF False])
  qed
qed

lemma prime_mapp_offset:
  assumes "wf_prime_blocks bs D" and a: "a < total_size D"
  defines "pb \<equiv> bs * granularity" and "n \<equiv> nodes D"
  assumes slot: "prime_slot n (a div pb) * pb + a mod pb < size_per_node D"
  shows "prime_mapp_local_offset bs D (start_address D + a)
           = Inr (prime_slot n (a div pb) * pb + a mod pb)"
proof -
  let ?b = "a div pb" and ?ad = "page_addr D (start_address D + a)"
  let ?dr = "page_drift D (start_address D + a)"
  have w: "wf_blocks bs D" using assms(1) by (rule wf_prime_blocks_wf_blocks)
  note sp = wf_space_bounds [OF wf_blocks_space [OF w] a]
  have n0: "0 < n" and pb0: "0 < pb" using w by (auto simp: wf_blocks_def wf_space_def n_def pb_def)
  have pbe: "pageblock bs = pb" using pageblock_eq [OF w a] by (simp add: pb_def)
  have pr: "prime_of D = 3 * n div 2" using assms(1) by (simp add: wf_prime_blocks_def n_def prime_of_eq)
  have nd: "nodes D = n" by (simp add: n_def)
  have adb: "?ad div pb = ?b" using page_addr_div [OF w a] pbe by (simp add: pb_def)
  have adr: "?ad mod pb + ?dr = a mod pb" using page_addr_mod [OF w a] pbe by (simp add: pb_def)
  have ad: "?ad = ?b * pb + ?ad mod pb" using adb by (metis div_mult_mod_eq)
  have ada: "?ad + ?dr = a" using ad adr by (metis add.assoc div_mult_mod_eq)
  have "n * pb \<le> total_size D"
    using w by (auto simp: wf_blocks_def wf_space_def pb_def n_def intro: dvd_imp_le)
  then have npb: "mul64 n pb = n * pb" using sp(4) by (intro mul64_id) linarith
  have lt64: "prime_slot n ?b * pb + a mod pb < 2 ^ 64" using slot sp(3,4) by linarith
  have chk: "check_offset D (prime_slot n ?b * pb + a mod pb) = Inr (prime_slot n ?b * pb + a mod pb)"
    using slot by (simp add: check_offset_def)
  show ?thesis
  proof (cases "?ad \<le> n * pb \<or> ?b mod (3 * n div 2) \<ge> n")
    case True
    have "?b \<le> n \<or> ?b mod (3 * n div 2) \<ge> n"
      using True ad pb0 by (metis add_leD1 mult_le_cancel2)
    then have s: "prime_slot n ?b = ?b div n" using n0 by (intro anchor_rank)
    have "add64 (add64 (mul64 (?b div n) pb) (?ad mod pb)) ?dr = prime_slot n ?b * pb + a mod pb"
      using lt64 adr s by (simp add: add64_id mul64_id)
    with True chk show ?thesis
      by (simp only: prime_mapp_local_offset_def Let_def nd pbe pr adb npb if_True bindE_simps)
  next
    case False
    let ?m = "prime_home n ?b"
    have m: "?m < n" using n0 by (rule prime_home_less)
    have gt: "n * pb < ?ad" using False by simp
    have "?m < ?b"
    proof -
      have "n * pb < Suc ?b * pb" using gt ad pb0 by (metis add_less_cancel_left less_trans
            mod_less_divisor mult_Suc add.commute)
      then have "n < Suc ?b" using mult_less_cancel2 by blast
      with m show ?thesis by simp
    qed
    then obtain c where c: "?b = Suc c" "?m \<le> c" by (cases ?b) auto
    have sub: "sub64 ?ad pb = c * pb + ?ad mod pb"
      using ada sp(2) ad c(1) by (simp add: sub64_id)
    have eq: "Suc c * pb + ?ad mod pb + ?dr = a" using ad ada c(1) by simp
    have scan: "prime_mapp_scan bs D ?m ?dr (c * pb + ?ad mod pb) 0
        = Some (Inr ((blocks_below n ?m (Suc c) + 0) * pb + ?ad mod pb + ?dr))"
      unfolding pb_def n_def
      by (rule prime_mapp_scan_rank [OF assms(1)])
         (use m c eq a sp(2) pb0 in \<open>auto simp: pb_def n_def\<close>)
    have res: "(blocks_below n ?m (Suc c) + 0) * pb + ?ad mod pb + ?dr
        = prime_slot n ?b * pb + a mod pb"
      using adr c(1) by (simp add: prime_slot_def)
    have hm: "prime_mapp_homenode bs D (start_address D + a) = Inr ?m"
      using prime_mapp_home [OF assms(1) a] by (simp add: pb_def n_def)
    show ?thesis
      using False
      by (simp only: prime_mapp_local_offset_def Let_def nd pbe pr adb npb if_False bindE_simps
          hm sub scan option.case res chk)
  qed
qed

lemma prime_blocks_total:
  assumes "wf_prime_blocks bs D"
  obtains k where "total_size D div (bs * granularity) = k * nodes D * (3 * nodes D div 2)"
    and "size_per_node D div (bs * granularity) = k * (3 * nodes D div 2)"
proof -
  let ?pb = "bs * granularity" and ?p = "3 * nodes D div 2"
  from assms obtain k where k: "size_per_node D = ?pb * ?p * k" and "0 < ?pb"
    and t: "total_size D = nodes D * size_per_node D"
    by (auto simp: wf_prime_blocks_def wf_space_def elim!: dvdE)
  have "size_per_node D div ?pb = k * ?p"
    using \<open>0 < ?pb\<close> by (metis k mult.assoc mult.commute nonzero_mult_div_cancel_left not_gr_zero)
  moreover have "total_size D = ?pb * (k * nodes D * ?p)" by (simp add: t k)
  then have "total_size D div ?pb = k * nodes D * ?p"
    using \<open>0 < ?pb\<close> by (metis nonzero_mult_div_cancel_left not_gr_zero)
  ultimately show thesis by (intro that)
qed

lemma prime_slot_less:
  assumes "wf_prime_blocks bs D" and "b < total_size D div (bs * granularity)"
  shows "prime_slot (nodes D) b < size_per_node D div (bs * granularity)"
proof -
  let ?n = "nodes D"
  from assms(1) obtain k where k: "total_size D div (bs * granularity) = k * ?n * (3 * ?n div 2)"
      "size_per_node D div (bs * granularity) = k * (3 * ?n div 2)"
    by (rule prime_blocks_total)
  have m: "prime_home ?n b < ?n"
    using assms(1) by (intro prime_home_less) (simp add: wf_prime_blocks_def wf_space_def)
  have "prime_slot ?n b < blocks_below ?n (prime_home ?n b) (Suc b)"
    by (simp add: prime_slot_def)
  also have "\<dots> \<le> blocks_below ?n (prime_home ?n b) (k * ?n * (3 * ?n div 2))"
    using assms(2) k(1) by (intro blocks_below_mono) simp
  also have "\<dots> = k * (3 * ?n div 2)" using m refl by (rule blocks_below_total)
  finally show ?thesis using k(2) by simp
qed

interpretation prime: block_distribution "wf_prime_blocks bs" "prime_mapp_homenode bs"
  "prime_mapp_local_offset bs" "\<lambda>D. bs * granularity"
  "\<lambda>D b. prime_home (nodes D) b" "\<lambda>D b. prime_slot (nodes D) b" for bs
proof
  fix D a b c assume v: "wf_prime_blocks bs D"
  then have w: "wf_blocks bs D" by (rule wf_prime_blocks_wf_blocks)
  then show pb: "0 < bs * granularity" and dvd: "bs * granularity dvd size_per_node D"
    and t: "total_size D = nodes D * size_per_node D" and "prime_home (nodes D) b < nodes D"
    by (simp_all add: wf_blocks_def wf_space_def prime_home_less)
  show slot: "b < total_size D div (bs * granularity) \<Longrightarrow>
      prime_slot (nodes D) b < size_per_node D div (bs * granularity)"
    using v by (rule prime_slot_less)
  show "prime_home (nodes D) b = prime_home (nodes D) c \<Longrightarrow>
      prime_slot (nodes D) b = prime_slot (nodes D) c \<Longrightarrow> b = c"
    by (rule prime_slot_inj)
next
  fix D a assume v: "wf_prime_blocks bs D" and a: "a < total_size D"
  then show "prime_mapp_homenode bs D (start_address D + a)
      = Inr (prime_home (nodes D) (a div (bs * granularity)))"
    by (rule prime_mapp_home)
  have w: "wf_blocks bs D" using v by (rule wf_prime_blocks_wf_blocks)
  then have pb: "0 < bs * granularity" and dvd: "bs * granularity dvd size_per_node D"
    by (simp_all add: wf_blocks_def)
  have "a div (bs * granularity) < total_size D div (bs * granularity)"
    using cyclic.block_less [OF w a] .
  then have "prime_slot (nodes D) (a div (bs * granularity)) < size_per_node D div (bs * granularity)"
    by (rule prime_slot_less [OF v])
  then have "prime_slot (nodes D) (a div (bs * granularity)) * (bs * granularity)
      + a mod (bs * granularity) < size_per_node D"
    using block_offset_less pb dvd by (metis dvd_div_mult_self mod_less_divisor)
  with v a show "prime_mapp_local_offset bs D (start_address D + a)
      = Inr (prime_slot (nodes D) (a div (bs * granularity)) * (bs * granularity)
             + a mod (bs * granularity))"
    by (rule prime_mapp_offset)
qed

section \<open>Properties\<close>

text \<open>
  Under the naive policy \<^verbatim>\<open>homenode\<close> and \<^verbatim>\<open>local_offset\<close> place the bytes of the global
  memory one to one onto the bytes of the nodes' shares: none is lost and none is shared.
\<close>

lemma naive_placement:
  assumes "wf_space D"
  shows "bij_betw (place naive_homenode naive_local_offset D) {..<total_size D}
           ({..<nodes D} \<times> {..<size_per_node D})"
  using assms by (rule naive.place_bij)

lemma naive_placement_example:
  "bij_betw (place naive_homenode naive_local_offset (set_memory_space 3 4096 24576)) {..<24576}
     ({..<3} \<times> {..<8192})"
  using naive_placement [of "set_memory_space 3 4096 24576"]
  by (simp add: set_memory_space_def wf_space_def)

text \<open>The same for the cyclic policy, with blocks of \<open>bs\<close> pages.\<close>

lemma cyclic_placement:
  assumes "wf_blocks bs D"
  shows "bij_betw (place (cyclic_homenode bs) (cyclic_local_offset bs) D) {..<total_size D}
           ({..<nodes D} \<times> {..<size_per_node D})"
  using assms by (rule cyclic.place_bij)

lemma cyclic_placement_example:
  "bij_betw (place (cyclic_homenode 2) (cyclic_local_offset 2) (set_memory_space 3 4096 49152)) {..<49152}
     ({..<3} \<times> {..<16384})"
  using cyclic_placement [of 2 "set_memory_space 3 4096 49152"]
  by (simp add: set_memory_space_def wf_blocks_def wf_space_def granularity_def)

text \<open>The same for the skew-mapp policy, which rotates every round of blocks by one more node.\<close>

lemma skew_mapp_placement:
  assumes "wf_blocks bs D"
  shows "bij_betw (place (skew_mapp_homenode bs) (skew_mapp_local_offset bs) D) {..<total_size D}
           ({..<nodes D} \<times> {..<size_per_node D})"
  using assms by (rule skew.place_bij)

lemma skew_mapp_placement_example:
  "bij_betw (place (skew_mapp_homenode 1) (skew_mapp_local_offset 1) (set_memory_space 3 4096 24576)) {..<24576}
     ({..<3} \<times> {..<8192})"
  using skew_mapp_placement [of 1 "set_memory_space 3 4096 24576"]
  by (simp add: set_memory_space_def wf_blocks_def wf_space_def granularity_def)

text \<open>
  Claim C19. The same for the prime-mapp policy, on a memory that is a multiple of the padding
  \<^verbatim>\<open>policy_padding\<close> asks for: the two phases of the mapping and the search of \<^verbatim>\<open>local_offset\<close>
  together use every byte of every node exactly once.
\<close>

theorem prime_mapp_placement:
  assumes "wf_prime_blocks bs D"
  shows "bij_betw (place (prime_mapp_homenode bs) (prime_mapp_local_offset bs) D) {..<total_size D}
           ({..<nodes D} \<times> {..<size_per_node D})"
  using assms by (rule prime.place_bij)

theorem prime_mapp_placement_witness:
  "bij_betw (place (prime_mapp_homenode 1) (prime_mapp_local_offset 1) (set_memory_space 3 4096 49152)) {..<49152}
     ({..<3} \<times> {..<16384})"
  using prime_mapp_placement [of 1 "set_memory_space 3 4096 49152"]
  by (simp add: set_memory_space_def wf_prime_blocks_def wf_space_def granularity_def)

text \<open>
  Claim C21. The backwards search of prime-mapp's \<^verbatim>\<open>local_offset\<close> ends for every address of the
  global memory, with the rank of the block among the blocks of its home node.
\<close>

theorem prime_mapp_search_terminates:
  assumes "wf_prime_blocks bs D" and "a < total_size D"
  shows "prime_mapp_local_offset bs D (start_address D + a)
     = Inr (prime_slot (nodes D) (a div (bs * granularity)) * (bs * granularity) + a mod (bs * granularity))"
  using assms by (rule prime.off_block)

theorem prime_mapp_search_terminates_witness:
  "prime_mapp_local_offset 1 (set_memory_space 3 4096 49152) (4096 + 40961)
     = Inr (prime_slot 3 10 * 4096 + 1)"
  using prime_mapp_search_terminates [of 1 "set_memory_space 3 4096 49152" 40961]
  by (simp add: set_memory_space_def wf_prime_blocks_def wf_space_def granularity_def)

text \<open>
  \<^verbatim>\<open>get_ptr\<close> inverts the naive placement: the home node and offset of an address give
  the address back.
\<close>

lemma naive_get_ptr:
  assumes "wf_space D" and "a < total_size D"
  shows "\<exists>h q. naive_homenode D (start_address D + a) = Inr h
     \<and> naive_local_offset D (start_address D + a) = Inr q \<and> get_ptr D h q = start_address D + a"
proof -
  have ptr: "get_ptr D h q = start_address D + (h * size_per_node D + q)"
    if "start_address D + (h * size_per_node D + q) < 2 ^ 64" for h q
    using that by (simp add: get_ptr_def add64_id mul64_id)
  have "get_ptr D (a div size_per_node D) (a mod size_per_node D) = start_address D + a"
    using ptr [of "a div size_per_node D" "a mod size_per_node D"] wf_space_bounds [OF assms] by simp
  then show ?thesis using naive.home_block [OF assms] naive.off_block [OF assms] by simp
qed

end
