(* ===== verification/Global_Ptr.thy ===== *)
theory Global_Ptr
  imports Distribution_Policies
begin

text \<open>
  The smart pointer of \<^verbatim>\<open>src/data_distribution/global_ptr.hpp\<close>: a global address with its home
  node and local offset computed on demand through the selected policy. The virtual functions
  of the policy object are the fields of \<open>dist_ops\<close>; \<open>static_policy\<close> is the table
  \<^verbatim>\<open>policies[]\<close> for the four policies without state.
\<close>

record dist_ops =
  op_homenode :: "nat \<Rightarrow> argo_error + nat"
  op_peek_homenode :: "nat \<Rightarrow> argo_error + nat"
  op_local_offset :: "nat \<Rightarrow> argo_error + nat"
  op_peek_local_offset :: "nat \<Rightarrow> argo_error + nat"

text \<open>Outside the first-touch policy the \<^verbatim>\<open>peek\<close> functions call their counterparts.\<close>

definition plain_ops ::
  "(nat \<Rightarrow> argo_error + nat) \<Rightarrow> (nat \<Rightarrow> argo_error + nat) \<Rightarrow> dist_ops" where
  "plain_ops h q = \<lparr>op_homenode = h, op_peek_homenode = h, op_local_offset = q,
                    op_peek_local_offset = q\<rparr>"

fun static_policy :: "nat \<Rightarrow> base_distribution \<Rightarrow> memory_policy \<Rightarrow> dist_ops option" where
  "static_policy bs D naive = Some (plain_ops (naive_homenode D) (naive_local_offset D))"
| "static_policy bs D cyclic = Some (plain_ops (cyclic_homenode bs D) (cyclic_local_offset bs D))"
| "static_policy bs D skew_mapp =
     Some (plain_ops (skew_mapp_homenode bs D) (skew_mapp_local_offset bs D))"
| "static_policy bs D prime_mapp =
     Some (plain_ops (prime_mapp_homenode bs D) (prime_mapp_local_offset bs D))"
| "static_policy bs D first_touch = None"

record global_ptr =
  gp_homenode :: nat
  gp_local_offset :: nat
  gp_access_ptr :: nat

definition global_ptr_new :: "dist_ops \<Rightarrow> nat \<Rightarrow> bool \<Rightarrow> bool \<Rightarrow> argo_error + global_ptr" where
  "global_ptr_new P ptr compute_homenode compute_offset =
     (let g = \<lparr>gp_homenode = invalid_node_id, gp_local_offset = invalid_offset,
               gp_access_ptr = ptr\<rparr>
      in bindE (if compute_homenode
                then bindE (op_homenode P ptr) (\<lambda>h. Inr (g\<lparr>gp_homenode := h\<rparr>)) else Inr g)
           (\<lambda>g. if compute_offset
                then bindE (op_local_offset P ptr) (\<lambda>q. Inr (g\<lparr>gp_local_offset := q\<rparr>))
                else Inr g))"

definition gp_get :: "global_ptr \<Rightarrow> nat" where
  "gp_get g = gp_access_ptr g"

text \<open>The accessors cache what they compute, so they return the updated pointer too.\<close>

definition gp_node :: "dist_ops \<Rightarrow> global_ptr \<Rightarrow> argo_error + nat \<times> global_ptr" where
  "gp_node P g =
     (if gp_homenode g = invalid_node_id
      then bindE (op_homenode P (gp_access_ptr g)) (\<lambda>h. Inr (h, g\<lparr>gp_homenode := h\<rparr>))
      else Inr (gp_homenode g, g))"

definition gp_peek_node :: "dist_ops \<Rightarrow> global_ptr \<Rightarrow> argo_error + nat \<times> global_ptr" where
  "gp_peek_node P g =
     (if gp_homenode g = invalid_node_id
      then bindE (op_peek_homenode P (gp_access_ptr g))
             (\<lambda>h. let g' = (if h \<noteq> invalid_node_id then g\<lparr>gp_homenode := h\<rparr> else g)
                  in Inr (gp_homenode g', g'))
      else Inr (gp_homenode g, g))"

definition gp_offset :: "dist_ops \<Rightarrow> global_ptr \<Rightarrow> argo_error + nat \<times> global_ptr" where
  "gp_offset P g =
     (if gp_local_offset g = invalid_offset
      then bindE (op_local_offset P (gp_access_ptr g)) (\<lambda>q. Inr (q, g\<lparr>gp_local_offset := q\<rparr>))
      else Inr (gp_local_offset g, g))"

definition gp_peek_offset :: "dist_ops \<Rightarrow> global_ptr \<Rightarrow> argo_error + nat \<times> global_ptr" where
  "gp_peek_offset P g =
     (if gp_local_offset g = invalid_offset
      then bindE (op_peek_local_offset P (gp_access_ptr g))
             (\<lambda>q. let g' = (if q \<noteq> invalid_offset then g\<lparr>gp_local_offset := q\<rparr> else g)
                  in Inr (gp_local_offset g', g'))
      else Inr (gp_local_offset g, g))"

text \<open>The converting constructor \<^verbatim>\<open>global_ptr(global_ptr<U> other)\<close> forces both values.\<close>

definition global_ptr_convert :: "dist_ops \<Rightarrow> global_ptr \<Rightarrow> argo_error + global_ptr" where
  "global_ptr_convert P other =
     bindE (gp_node P other) (\<lambda>(h, other). bindE (gp_offset P other)
       (\<lambda>(q, other). Inr \<lparr>gp_homenode = h, gp_local_offset = q, gp_access_ptr = gp_get other\<rparr>))"

section \<open>The pointer agrees with the policy however it was built\<close>

text \<open>
  A pointer is coherent with a policy when each cached value is either the invalid marker or
  what the policy answers for the pointer's address.
\<close>

definition gp_coherent :: "dist_ops \<Rightarrow> global_ptr \<Rightarrow> bool" where
  "gp_coherent P g \<longleftrightarrow>
     (gp_homenode g \<noteq> invalid_node_id \<longrightarrow> op_homenode P (gp_access_ptr g) = Inr (gp_homenode g))
   \<and> (gp_local_offset g \<noteq> invalid_offset
        \<longrightarrow> op_local_offset P (gp_access_ptr g) = Inr (gp_local_offset g))"

lemma global_ptr_new_coherent:
  "global_ptr_new P ptr ch co = Inr g \<Longrightarrow> gp_coherent P g \<and> gp_access_ptr g = ptr"
  by (auto simp: global_ptr_new_def gp_coherent_def Let_def bindE_eq_Inr_conv split: if_splits)

lemma gp_node_value: "gp_coherent P g \<Longrightarrow>
    gp_node P g = bindE (op_homenode P (gp_access_ptr g)) (\<lambda>h. Inr (h, g\<lparr>gp_homenode := h\<rparr>))"
  by (cases g) (auto simp: gp_node_def gp_coherent_def)

lemma gp_offset_value: "gp_coherent P g \<Longrightarrow>
    gp_offset P g = bindE (op_local_offset P (gp_access_ptr g)) (\<lambda>q. Inr (q, g\<lparr>gp_local_offset := q\<rparr>))"
  by (cases g) (auto simp: gp_offset_def gp_coherent_def)

lemma gp_node_coherent: "gp_coherent P g \<Longrightarrow> gp_node P g = Inr (h, g') \<Longrightarrow>
    gp_coherent P g' \<and> gp_access_ptr g' = gp_access_ptr g"
  by (auto simp: gp_node_def gp_coherent_def bindE_eq_Inr_conv split: if_splits)

lemma global_ptr_convert_value:
  assumes "gp_coherent P g" and "global_ptr_convert P g = Inr g'"
  shows "op_homenode P (gp_access_ptr g) = Inr (gp_homenode g')"
    and "op_local_offset P (gp_access_ptr g) = Inr (gp_local_offset g')"
    and "gp_access_ptr g' = gp_access_ptr g"
proof -
  from assms(2) obtain h g1 q g2 where n: "gp_node P g = Inr (h, g1)" and
    q: "gp_offset P g1 = Inr (q, g2)" and
    g': "g' = \<lparr>gp_homenode = h, gp_local_offset = q, gp_access_ptr = gp_get g2\<rparr>"
    by (auto simp: global_ptr_convert_def bindE_eq_Inr_conv)
  have c1: "gp_coherent P g1" "gp_access_ptr g1 = gp_access_ptr g"
    using gp_node_coherent [OF assms(1) n] by simp_all
  from n q show "op_homenode P (gp_access_ptr g) = Inr (gp_homenode g')"
    and "op_local_offset P (gp_access_ptr g) = Inr (gp_local_offset g')"
    and "gp_access_ptr g' = gp_access_ptr g"
    by (auto simp: g' gp_get_def gp_node_value [OF assms(1)] gp_offset_value [OF c1(1)] c1(2)
        bindE_eq_Inr_conv)
qed

end
