(* ===== verification/Mpi_Rma.thy ===== *)
theory Mpi_Rma
  imports Argo_Prelude
begin

text \<open>
  The one-sided MPI operations the MPI backend calls. MPI is not part of the repository, so
  its operations are the fields of a record \<open>mpi\<close> that every definition using them takes as
  an argument; the locale \<open>mpi_rma\<close> states the documented effect of each operation on the
  target window, and \<open>mpi_seq\<close> is an instance that satisfies the laws. A window is the
  function from displacements to the elements stored there.
\<close>

section \<open>Reading and writing a run of elements\<close>

definition splice :: "'a list \<Rightarrow> nat \<Rightarrow> (nat \<Rightarrow> 'a) \<Rightarrow> nat \<Rightarrow> 'a" where
  "splice xs d w = (\<lambda>i. if d \<le> i \<and> i < d + length xs then xs ! (i - d) else w i)"

definition slice :: "nat \<Rightarrow> nat \<Rightarrow> (nat \<Rightarrow> 'a) \<Rightarrow> 'a list" where
  "slice d n w = map (\<lambda>i. w (d + i)) [0..<n]"

lemma splice_Nil [simp]: "splice [] d w = w"
  by (rule ext) (auto simp: splice_def)

lemma length_slice [simp]: "length (slice d n w) = n"
  by (simp add: slice_def)

lemma slice_nth [simp]: "i < n \<Longrightarrow> slice d n w ! i = w (d + i)"
  by (simp add: slice_def)

lemma splice_in: "d \<le> i \<Longrightarrow> i < d + length xs \<Longrightarrow> splice xs d w i = xs ! (i - d)"
  by (simp add: splice_def)

lemma splice_out: "i < d \<or> d + length xs \<le> i \<Longrightarrow> splice xs d w i = w i"
  by (auto simp: splice_def)

lemma slice_splice: "slice d (length xs) (splice xs d w) = xs"
  by (auto simp: slice_def splice_def intro: nth_equalityI)

lemma slice_splice_disjoint:
  "d + n \<le> e \<or> e + length xs \<le> d \<Longrightarrow> slice d n (splice xs e w) = slice d n w"
  by (auto simp: slice_def splice_def)

lemma slice_0 [simp]: "slice d 0 w = []"
  by (simp add: slice_def)

lemma slice_Suc: "slice d (Suc n) w = slice d n w @ [w (d + n)]"
  by (simp add: slice_def)

section \<open>The operations\<close>

text \<open>The predefined datatypes the backend asks for, and their sizes.\<close>

datatype mpi_type = MPI_INT32_T | MPI_INT64_T | MPI_UINT32_T | MPI_UINT64_T | MPI_FLOAT | MPI_DOUBLE

fun mpi_type_size :: "mpi_type \<Rightarrow> nat" where
  "mpi_type_size MPI_INT32_T = 4"
| "mpi_type_size MPI_UINT32_T = 4"
| "mpi_type_size MPI_FLOAT = 4"
| "mpi_type_size MPI_INT64_T = 8"
| "mpi_type_size MPI_UINT64_T = 8"
| "mpi_type_size MPI_DOUBLE = 8"

abbreviation mpi_integer :: "mpi_type \<Rightarrow> bool" where
  "mpi_integer t \<equiv> t \<noteq> MPI_FLOAT \<and> t \<noteq> MPI_DOUBLE"

text \<open>
  The last three operations are put, get and compare-and-swap on a window whose displacement unit is
  the size of an element; the law holds for elements of eight bytes, the only ones the directory of
  the first-touch policy has.
\<close>

record mpi =
  MPI_Put :: "byte list \<Rightarrow> nat \<Rightarrow> (nat \<Rightarrow> byte) \<Rightarrow> nat \<Rightarrow> byte"
  MPI_Get :: "nat \<Rightarrow> nat \<Rightarrow> (nat \<Rightarrow> byte) \<Rightarrow> byte list"
  MPI_Fetch_and_replace :: "byte list \<Rightarrow> nat \<Rightarrow> (nat \<Rightarrow> byte) \<Rightarrow> byte list \<times> (nat \<Rightarrow> byte)"
  MPI_Fetch_and_sum :: "mpi_type \<Rightarrow> byte list \<Rightarrow> nat \<Rightarrow> (nat \<Rightarrow> byte) \<Rightarrow> byte list \<times> (nat \<Rightarrow> byte)"
  MPI_Compare_and_swap ::
    "byte list \<Rightarrow> byte list \<Rightarrow> nat \<Rightarrow> (nat \<Rightarrow> byte) \<Rightarrow> byte list \<times> (nat \<Rightarrow> byte)"
  MPI_Get_long :: "nat \<Rightarrow> nat \<Rightarrow> (nat \<Rightarrow> u64) \<Rightarrow> u64 list"
  MPI_Accumulate_bor :: "u64 list \<Rightarrow> nat \<Rightarrow> (nat \<Rightarrow> u64) \<Rightarrow> nat \<Rightarrow> u64"
  MPI_Get_accumulate_bor :: "u64 list \<Rightarrow> nat \<Rightarrow> (nat \<Rightarrow> u64) \<Rightarrow> u64 list \<times> (nat \<Rightarrow> u64)"
  MPI_Put_elems :: "mpi_type \<Rightarrow> nat list \<Rightarrow> nat \<Rightarrow> (nat \<Rightarrow> nat) \<Rightarrow> nat \<Rightarrow> nat"
  MPI_Get_elems :: "mpi_type \<Rightarrow> nat \<Rightarrow> nat \<Rightarrow> (nat \<Rightarrow> nat) \<Rightarrow> nat list"
  MPI_Compare_and_swap_elem :: "mpi_type \<Rightarrow> nat \<Rightarrow> nat \<Rightarrow> nat \<Rightarrow> (nat \<Rightarrow> nat) \<Rightarrow> nat \<times> (nat \<Rightarrow> nat)"

definition bor_splice :: "u64 list \<Rightarrow> nat \<Rightarrow> (nat \<Rightarrow> u64) \<Rightarrow> nat \<Rightarrow> u64" where
  "bor_splice xs d w = (\<lambda>i. if d \<le> i \<and> i < d + length xs then w i OR xs ! (i - d) else w i)"

lemma bor_splice_single: "bor_splice [x] d w = w(d := w d OR x)"
  by (auto simp: bor_splice_def)

lemma bor_splice_in: "d \<le> i \<Longrightarrow> i < d + length xs \<Longrightarrow> bor_splice xs d w i = w i OR xs ! (i - d)"
  by (simp add: bor_splice_def)

lemma bor_splice_out: "i < d \<or> d + length xs \<le> i \<Longrightarrow> bor_splice xs d w i = w i"
  by (auto simp: bor_splice_def)

text \<open>The sum of two little-endian integers, modulo their size, with a carry.\<close>

fun le_add :: "nat \<Rightarrow> byte list \<Rightarrow> byte list \<Rightarrow> byte list" where
  "le_add c (x # xs) (y # ys) =
     (let t = unat x + unat y + c in word_of_nat (t mod 256) # le_add (t div 256) xs ys)"
| "le_add c xs ys = xs"

lemma length_le_add [simp]: "length (le_add c xs ys) = length xs"
  by (induction c xs ys rule: le_add.induct) (simp_all add: Let_def)

locale mpi_rma =
  fixes M :: "'x mpi_scheme"
  assumes put: "MPI_Put M xs d w = splice xs d w"
    and get: "MPI_Get M d n w = slice d n w"
    and fetch_and_replace:
      "MPI_Fetch_and_replace M xs d w = (slice d (length xs) w, splice xs d w)"
    and fetch_and_sum:
      "fst (MPI_Fetch_and_sum M t xs d w) = slice d (length xs) w"
      "i < d \<or> d + length xs \<le> i \<Longrightarrow> snd (MPI_Fetch_and_sum M t xs d w) i = w i"
    and fetch_and_sum_int: "mpi_integer t \<Longrightarrow> length xs = mpi_type_size t \<Longrightarrow>
      snd (MPI_Fetch_and_sum M t xs d w) = splice (le_add 0 (slice d (length xs) w) xs) d w"
    and compare_and_swap:
      "length ys = length xs \<Longrightarrow> MPI_Compare_and_swap M xs ys d w =
         (slice d (length xs) w, if slice d (length xs) w = ys then splice xs d w else w)"
    and get_long: "MPI_Get_long M d n l = slice d n l"
    and accumulate_bor: "MPI_Accumulate_bor M bs d l = bor_splice bs d l"
    and get_accumulate_bor:
      "MPI_Get_accumulate_bor M bs d l = (slice d (length bs) l, bor_splice bs d l)"
    and put_elems: "mpi_type_size t = 8 \<Longrightarrow> MPI_Put_elems M t ns d v = splice ns d v"
    and get_elems: "mpi_type_size t = 8 \<Longrightarrow> MPI_Get_elems M t d n v = slice d n v"
    and compare_and_swap_elem: "mpi_type_size t = 8 \<Longrightarrow>
      MPI_Compare_and_swap_elem M t desired expected d v =
         (v d, if v d = expected then v(d := desired) else v)"
begin

lemma put_get: "MPI_Get M d (length xs) (MPI_Put M xs d w) = xs"
  by (simp add: put get slice_splice)

end

text \<open>A sequential instance.\<close>

definition mpi_seq :: mpi where
  "mpi_seq = \<lparr>
     MPI_Put = splice,
     MPI_Get = slice,
     MPI_Fetch_and_replace = (\<lambda>xs d w. (slice d (length xs) w, splice xs d w)),
     MPI_Fetch_and_sum = (\<lambda>t xs d w. (slice d (length xs) w,
                                     splice (le_add 0 (slice d (length xs) w) xs) d w)),
     MPI_Compare_and_swap = (\<lambda>xs ys d w. (slice d (length xs) w,
                                           if slice d (length xs) w = ys then splice xs d w else w)),
     MPI_Get_long = slice,
     MPI_Accumulate_bor = bor_splice,
     MPI_Get_accumulate_bor = (\<lambda>xs d w. (slice d (length xs) w, bor_splice xs d w)),
     MPI_Put_elems = (\<lambda>t. splice),
     MPI_Get_elems = (\<lambda>t. slice),
     MPI_Compare_and_swap_elem = (\<lambda>t desired expected d v.
       (v d, if v d = expected then v(d := desired) else v))\<rparr>"

interpretation seq: mpi_rma mpi_seq
  by unfold_locales (simp_all add: mpi_seq_def splice_out)

end
