(* ===== verification/Swdsm_State.thy ===== *)
theory Swdsm_State
  imports Global_Ptr Mpi_Rma
begin

text \<open>
  The state of the MPI backend, \<^verbatim>\<open>src/backend/mpi/swdsm.cpp\<close> and \<^verbatim>\<open>swdsm.h\<close>: what
  \<^verbatim>\<open>argo_initialize\<close> fixes for the whole run (\<open>swdsm_config\<close>), the variables of one node
  (\<open>node\<close>), and the cluster as a function from ranks to nodes. The address arithmetic of
  the backend (cache index, classification index, MPI window index, alignment) follows, with
  the primitive actions on the virtual memory mapping, the page protection and the cache locks.
\<close>

section \<open>Configuration\<close>

text \<open>
  \<open>PAGE_SIZE\<close> and \<open>CACHELINE\<close> come from the generated \<^verbatim>\<open>config.hpp\<close>. The policy object is
  \<open>policy\<close>. \<open>wb_max_size\<close> and \<open>wb_write_back_size\<close> are the write buffer's constants.
\<close>

record swdsm_config =
  PAGE_SIZE :: nat
  CACHELINE :: nat
  numtasks :: nat
  startAddr :: nat
  size_of_all :: nat
  size_of_chunk :: nat
  cachesize :: nat
  load_size :: nat
  cacheoffset :: nat
  classificationSize :: nat
  mpi_windows :: nat
  GLOBAL_NULL :: nat
  wb_max_size :: nat
  wb_write_back_size :: nat
  policy :: dist_ops

definition block_size :: "swdsm_config \<Rightarrow> nat" where
  "block_size c = PAGE_SIZE c * CACHELINE c"

section \<open>One node\<close>

datatype cache_state = INVALID | VALID
datatype cache_dirty = CLEAN | DIRTY
datatype prot = PROT_NONE | PROT_READ | PROT_READ_WRITE

record control_data =
  state :: cache_state
  dirty :: cache_dirty
  tag :: nat

text \<open>
  \<open>backing\<close> is the memory object behind the ArgoDSM virtual memory: the page cache at offset
  0, this node's share of the global memory at \<open>cacheoffset\<close>. \<open>vmap\<close> gives for a page of the
  global address space the offset it is mapped to (\<open>None\<close>: the initial anonymous mapping),
  \<open>vprot\<close> its protection. \<open>wb_buffer\<close> and the two counters are the write buffer.
\<close>

record node =
  cacheControl :: "nat \<Rightarrow> control_data"
  touchedcache :: "nat \<Rightarrow> bool"
  cache_locks :: "nat \<Rightarrow> bool"
  backing :: "nat \<Rightarrow> byte"
  vmap :: "nat \<Rightarrow> nat option"
  vprot :: "nat \<Rightarrow> prot"
  pagecopy :: "nat \<Rightarrow> byte"
  globalSharers :: "nat \<Rightarrow> u64"
  wb_buffer :: "nat list"
  wb_page_count :: nat
  wb_partial_flush_count :: nat
  read_misses :: nat
  write_misses :: nat
  barriers :: nat

type_synonym cluster = "nat \<Rightarrow> node"

text \<open>
  The delegation lock \<^verbatim>\<open>qd.hpp\<close> is a submodule outside the repository: \<open>DELEGATE_N\<close> stands
  for running a closure on the shared state through it.
\<close>

record ext = mpi +
  DELEGATE_N :: "(cluster \<Rightarrow> argo_error + cluster) \<Rightarrow> cluster \<Rightarrow> argo_error + cluster"

locale externals = mpi_rma E for E :: ext +
  assumes delegate: "DELEGATE_N E f s = f s"

definition ext_seq :: ext where
  "ext_seq = mpi.extend mpi_seq \<lparr>DELEGATE_N = (\<lambda>f s. f s)\<rparr>"

interpretation ext_seq: externals ext_seq
  by unfold_locales (simp_all add: ext_seq_def mpi_seq_def mpi.extend_def splice_out)

section \<open>Address arithmetic\<close>

definition isZeroOrPowerOf2 :: "u64 \<Rightarrow> bool" where
  "isZeroOrPowerOf2 x \<longleftrightarrow> x AND (x - 1) = 0"

definition getCacheIndex :: "swdsm_config \<Rightarrow> nat \<Rightarrow> nat" where
  "getCacheIndex c addr = (addr div PAGE_SIZE c) mod cachesize c"

definition align_backwards :: "nat \<Rightarrow> nat \<Rightarrow> nat" where
  "align_backwards offset sz = (offset div sz) * sz"

definition align_forwards :: "nat \<Rightarrow> nat \<Rightarrow> nat" where
  "align_forwards offset sz =
     (if offset = 0 then offset else mul64 (add64 1 ((offset - 1) div sz)) sz)"

definition get_classification_index :: "swdsm_config \<Rightarrow> nat \<Rightarrow> nat" where
  "get_classification_index c addr = (2 * (addr div block_size c)) mod classificationSize c"

text \<open>
  The sharer windows are indexed by an \<^verbatim>\<open>int\<close>: the classification index is converted to 32-bit
  signed, halved with truncation towards zero, and widened to \<^verbatim>\<open>std::size_t\<close> again.
\<close>

definition int32_of :: "nat \<Rightarrow> int" where
  "int32_of n = sint (word_of_nat n :: 32 word)"

lemma int32_of_small:
  assumes "n < 2 ^ 31"
  shows "int32_of n = int n"
  using assms by (simp add: int32_of_def signed_of_nat signed_take_bit_int_eq_self)

definition half_to_size_t :: "int \<Rightarrow> nat" where
  "half_to_size_t i = (if 0 \<le> i then nat (i div 2) else sub64 0 (nat ((- i) div 2)))"

definition get_sharer_win_index :: "swdsm_config \<Rightarrow> nat \<Rightarrow> nat" where
  "get_sharer_win_index c classification_index =
     (let granul = load_size c * 2;
          chunk_index = half_to_size_t (int32_of classification_index) div granul
      in (chunk_index + chunk_index div mpi_windows c + 1) mod mpi_windows c)"

text \<open>The same \<^verbatim>\<open>int\<close> parameter, returned as \<^verbatim>\<open>std::size_t\<close>.\<close>

definition get_sharer_win_offset :: "swdsm_config \<Rightarrow> nat \<Rightarrow> nat" where
  "get_sharer_win_offset c classification_index =
     (let i = int32_of classification_index in if 0 \<le> i then nat i else sub64 0 (nat (- i)))"

definition get_data_win_index :: "swdsm_config \<Rightarrow> nat \<Rightarrow> nat" where
  "get_data_win_index c offset =
     (let granul = load_size c * 2;
          chunk_index = (offset div block_size c) div granul
      in (chunk_index + chunk_index div mpi_windows c + 1) mod mpi_windows c)"

definition get_data_win_offset :: "swdsm_config \<Rightarrow> nat \<Rightarrow> nat" where
  "get_data_win_offset c offset = offset"

definition get_homenode :: "swdsm_config \<Rightarrow> nat \<Rightarrow> argo_error + nat" where
  "get_homenode c addr =
     bindE (global_ptr_new (policy c) (add64 addr (startAddr c)) True False)
       (\<lambda>g. bindE (gp_node (policy c) g) (\<lambda>(h, _). Inr h))"

definition peek_homenode :: "swdsm_config \<Rightarrow> nat \<Rightarrow> argo_error + nat" where
  "peek_homenode c addr =
     bindE (global_ptr_new (policy c) (add64 addr (startAddr c)) False False)
       (\<lambda>g. bindE (gp_peek_node (policy c) g) (\<lambda>(h, _). Inr h))"

definition get_offset :: "swdsm_config \<Rightarrow> nat \<Rightarrow> argo_error + nat" where
  "get_offset c addr =
     bindE (global_ptr_new (policy c) (add64 addr (startAddr c)) False True)
       (\<lambda>g. bindE (gp_offset (policy c) g) (\<lambda>(q, _). Inr q))"

definition peek_offset :: "swdsm_config \<Rightarrow> nat \<Rightarrow> argo_error + nat" where
  "peek_offset c addr =
     bindE (global_ptr_new (policy c) (add64 addr (startAddr c)) False False)
       (\<lambda>g. bindE (gp_peek_offset (policy c) g) (\<lambda>(q, _). Inr q))"

text \<open>The directory bit of a rank, \<^verbatim>\<open>static_cast<std::uint64_t>(1) << workrank\<close>.\<close>

definition node_bit :: "nat \<Rightarrow> u64" where
  "node_bit r = push_bit r 1"

section \<open>Virtual memory, protections and windows\<close>

definition upd :: "nat \<Rightarrow> (node \<Rightarrow> node) \<Rightarrow> cluster \<Rightarrow> cluster" where
  "upd r f s = s(r := f (s r))"

lemma upd_same [simp]: "upd r f s r = f (s r)"
  by (simp add: upd_def)

lemma upd_other [simp]: "n \<noteq> r \<Longrightarrow> upd r f s n = s n"
  by (simp add: upd_def)

lemma upd_upd [simp]: "upd r f (upd r g s) = upd r (\<lambda>x. f (g x)) s"
  by (simp add: upd_def)

lemma upd_id [simp]: "upd r (\<lambda>x. x) s = s"
  by (simp add: upd_def)

lemma upd_commute: "m \<noteq> n \<Longrightarrow> upd m f (upd n g s) = upd n g (upd m f s)"
  by (simp add: upd_def fun_upd_twist)

lemma upd_cong_at: "f (s r) = g (s r) \<Longrightarrow> upd r f s = upd r g s"
  by (simp add: upd_def)

text \<open>The pages a range of \<open>n\<close> bytes at a page-aligned address covers.\<close>

definition pages_of :: "swdsm_config \<Rightarrow> nat \<Rightarrow> nat \<Rightarrow> nat list" where
  "pages_of c addr n = c_range addr (addr + n) (PAGE_SIZE c)"

definition mprotect :: "swdsm_config \<Rightarrow> nat \<Rightarrow> nat \<Rightarrow> prot \<Rightarrow> node \<Rightarrow> node" where
  "mprotect c addr n p nd = nd\<lparr>vprot := (\<lambda>a. if a \<in> set (pages_of c addr n) then p else vprot nd a)\<rparr>"

definition map_memory :: "swdsm_config \<Rightarrow> nat \<Rightarrow> nat \<Rightarrow> nat \<Rightarrow> prot \<Rightarrow> node \<Rightarrow> node" where
  "map_memory c addr n offset p nd =
     mprotect c addr n p
       (nd\<lparr>vmap := (\<lambda>a. if a \<in> set (pages_of c addr n) then Some (offset + (a - addr))
                        else vmap nd a)\<rparr>)"

text \<open>The byte a node sees at a global address through its current mapping.\<close>

definition vm_read :: "swdsm_config \<Rightarrow> node \<Rightarrow> nat \<Rightarrow> byte" where
  "vm_read c nd addr =
     (case vmap nd (align_backwards addr (PAGE_SIZE c)) of
        None \<Rightarrow> 0
      | Some off \<Rightarrow> backing nd (off + addr mod PAGE_SIZE c))"

text \<open>The memory exposed through the data windows: this node's share of the global memory.\<close>

definition data_window :: "swdsm_config \<Rightarrow> node \<Rightarrow> nat \<Rightarrow> byte" where
  "data_window c nd = (\<lambda>i. backing nd (cacheoffset c + i))"

definition set_data_window :: "swdsm_config \<Rightarrow> (nat \<Rightarrow> byte) \<Rightarrow> node \<Rightarrow> node" where
  "set_data_window c w nd =
     nd\<lparr>backing := (\<lambda>j. if cacheoffset c \<le> j then w (j - cacheoffset c) else backing nd j)\<rparr>"

lemma data_window_set [simp]: "data_window c (set_data_window c w nd) = w"
  by (simp add: data_window_def set_data_window_def)

lemma set_data_window_set [simp]:
  "set_data_window c w (set_data_window c w' nd) = set_data_window c w nd"
  by (cases nd) (simp add: set_data_window_def fun_eq_iff)

lemma set_data_window_same [simp]: "set_data_window c (data_window c nd) nd = nd"
  by (cases nd) (auto simp: set_data_window_def data_window_def)

lemma set_data_window_backing:
  "j < cacheoffset c \<Longrightarrow> backing (set_data_window c w nd) j = backing nd j"
  by (simp add: set_data_window_def)

lemma set_data_window_frame [simp, frame_simps]:
  "cacheControl (set_data_window c w nd) = cacheControl nd"
  "touchedcache (set_data_window c w nd) = touchedcache nd"
  "cache_locks (set_data_window c w nd) = cache_locks nd"
  "vmap (set_data_window c w nd) = vmap nd"
  "vprot (set_data_window c w nd) = vprot nd"
  "pagecopy (set_data_window c w nd) = pagecopy nd"
  "globalSharers (set_data_window c w nd) = globalSharers nd"
  "wb_buffer (set_data_window c w nd) = wb_buffer nd"
  by (simp_all add: set_data_window_def)

lemma mprotect_frame [simp, frame_simps]:
  "cacheControl (mprotect c a n p nd) = cacheControl nd"
  "touchedcache (mprotect c a n p nd) = touchedcache nd"
  "cache_locks (mprotect c a n p nd) = cache_locks nd"
  "backing (mprotect c a n p nd) = backing nd"
  "vmap (mprotect c a n p nd) = vmap nd"
  "pagecopy (mprotect c a n p nd) = pagecopy nd"
  "globalSharers (mprotect c a n p nd) = globalSharers nd"
  "wb_buffer (mprotect c a n p nd) = wb_buffer nd"
  by (simp_all add: mprotect_def)

lemma map_memory_frame [simp, frame_simps]:
  "cacheControl (map_memory c a n off p nd) = cacheControl nd"
  "touchedcache (map_memory c a n off p nd) = touchedcache nd"
  "cache_locks (map_memory c a n off p nd) = cache_locks nd"
  "backing (map_memory c a n off p nd) = backing nd"
  "pagecopy (map_memory c a n off p nd) = pagecopy nd"
  "globalSharers (map_memory c a n off p nd) = globalSharers nd"
  "wb_buffer (map_memory c a n off p nd) = wb_buffer nd"
  by (simp_all add: map_memory_def)

text \<open>
  The cache locks. Taking a lock that is held never returns when nothing else runs;
  \<^verbatim>\<open>try_lock\<close> reports whether it got the lock.
\<close>

definition cache_lock :: "nat \<Rightarrow> nat \<Rightarrow> cluster \<Rightarrow> argo_error + cluster" where
  "cache_lock r i s =
     (if cache_locks (s r) i then Inl Diverges
      else Inr (upd r (\<lambda>nd. nd\<lparr>cache_locks := (cache_locks nd)(i := True)\<rparr>) s))"

definition cache_try_lock :: "nat \<Rightarrow> nat \<Rightarrow> cluster \<Rightarrow> bool \<times> cluster" where
  "cache_try_lock r i s =
     (if cache_locks (s r) i then (False, s)
      else (True, upd r (\<lambda>nd. nd\<lparr>cache_locks := (cache_locks nd)(i := True)\<rparr>) s))"

definition cache_unlock :: "nat \<Rightarrow> nat \<Rightarrow> cluster \<Rightarrow> cluster" where
  "cache_unlock r i s = upd r (\<lambda>nd. nd\<lparr>cache_locks := (cache_locks nd)(i := False)\<rparr>) s"

text \<open>
  \<^verbatim>\<open>sharer_op\<close> locks the window for a rank, runs the operation with the window's index and
  unlocks; every window of a rank exposes the same directory.
\<close>

definition sharer_op :: "swdsm_config \<Rightarrow> nat \<Rightarrow> (nat \<Rightarrow> cluster \<Rightarrow> cluster) \<Rightarrow> cluster \<Rightarrow> cluster" where
  "sharer_op c offset op s = op (get_sharer_win_index c offset) s"

definition set_sharers :: "(nat \<Rightarrow> u64) \<Rightarrow> node \<Rightarrow> node" where
  "set_sharers g nd = nd\<lparr>globalSharers := g\<rparr>"

definition is_cached :: "swdsm_config \<Rightarrow> nat \<Rightarrow> nat \<Rightarrow> node \<Rightarrow> argo_error + bool" where
  "is_cached c r addr nd =
     (let aligned_address = align_backwards (sub64 addr (startAddr c)) (block_size c)
      in bindE (peek_homenode c aligned_address)
           (\<lambda>homenode.
              let cc = cacheControl nd (getCacheIndex c aligned_address)
              in Inr (homenode = r \<or> (tag cc = aligned_address \<and> state cc = VALID))))"

section \<open>What the backend relies on\<close>

text \<open>
  The home node and the backing offset of a page as plain functions, and the two contracts the
  cache is verified against: \<open>placement\<close> is what the distribution policy promises,
  \<open>dsm_config\<close> adds the sizes that \<^verbatim>\<open>argo_initialize\<close> establishes. The directory keeps one bit
  per node in a 64-bit word, hence the bound on the number of nodes.
\<close>

definition home_of :: "swdsm_config \<Rightarrow> nat \<Rightarrow> nat" where
  "home_of c p = projr (get_homenode c p)"

definition off_of :: "swdsm_config \<Rightarrow> nat \<Rightarrow> nat" where
  "off_of c p = projr (get_offset c p)"

definition is_page :: "swdsm_config \<Rightarrow> nat \<Rightarrow> bool" where
  "is_page c p \<longleftrightarrow> PAGE_SIZE c dvd p \<and> p < size_of_all c"

locale placement =
  fixes c :: swdsm_config
  assumes page_pos: "0 < PAGE_SIZE c"
    and size_pages: "PAGE_SIZE c dvd size_of_all c"
    and home_total: "p < size_of_all c \<Longrightarrow> \<exists>h < numtasks c. get_homenode c p = Inr h"
    and off_total: "p < size_of_all c \<Longrightarrow> \<exists>q < size_of_chunk c. get_offset c p = Inr q"
    and peek_home: "p < size_of_all c \<Longrightarrow> peek_homenode c p = get_homenode c p"
    and peek_off: "p < size_of_all c \<Longrightarrow> peek_offset c p = get_offset c p"
    and page_home: "is_page c p \<Longrightarrow> j < PAGE_SIZE c \<Longrightarrow> home_of c (p + j) = home_of c p"
    and page_off: "is_page c p \<Longrightarrow> j < PAGE_SIZE c \<Longrightarrow> off_of c (p + j) = off_of c p + j"
    and place_inj: "p < size_of_all c \<Longrightarrow> q < size_of_all c \<Longrightarrow>
          home_of c p = home_of c q \<Longrightarrow> off_of c p = off_of c q \<Longrightarrow> p = q"
begin

lemma get_homenode_eq: "p < size_of_all c \<Longrightarrow> get_homenode c p = Inr (home_of c p)"
  using home_total by (fastforce simp: home_of_def)

lemma get_offset_eq: "p < size_of_all c \<Longrightarrow> get_offset c p = Inr (off_of c p)"
  using off_total by (fastforce simp: off_of_def)

lemma page_less: "is_page c p \<Longrightarrow> p < size_of_all c"
  by (simp add: is_page_def)

lemma page_byte_less:
  assumes "is_page c p" and "j < PAGE_SIZE c"
  shows "p + j < size_of_all c"
proof -
  from assms(1) obtain k where p: "p = PAGE_SIZE c * k" and l: "p < size_of_all c"
    unfolding is_page_def by (elim conjE dvdE)
  from size_pages obtain m where s: "size_of_all c = PAGE_SIZE c * m" by (elim dvdE)
  from l have "k < m" unfolding p s by simp
  then have "k * PAGE_SIZE c + j < m * PAGE_SIZE c" using assms(2) by (rule block_offset_less)
  then show ?thesis unfolding p s by (simp only: mult.commute)
qed

text \<open>Two pages never share a byte of any node's store.\<close>

lemma page_ranges_disjoint:
  assumes "is_page c p" and "is_page c q" and "home_of c p = home_of c q" and "p \<noteq> q"
    and "i < PAGE_SIZE c" and "j < PAGE_SIZE c"
  shows "off_of c p + i \<noteq> off_of c q + j"
proof
  assume "off_of c p + i = off_of c q + j"
  then have "p + i = q + j"
    using assms(3) page_home [OF assms(1,5)] page_home [OF assms(2,6)] page_off [OF assms(1,5)]
      page_off [OF assms(2,6)] page_byte_less [OF assms(1,5)] page_byte_less [OF assms(2,6)]
    by (metis place_inj)
  then have "(p + i) div PAGE_SIZE c * PAGE_SIZE c = (q + j) div PAGE_SIZE c * PAGE_SIZE c" by simp
  then have "p = q" using assms(1,2,5,6) by (metis is_page_def page_split(1))
  with \<open>p \<noteq> q\<close> show False by simp
qed

end

locale dsm_config = placement +
  assumes cacheline: "CACHELINE c = 1"
    and cachesize_pos: "0 < cachesize c"
    and cache_below: "cachesize c * PAGE_SIZE c \<le> cacheoffset c"
    and null: "size_of_all c < GLOBAL_NULL c"
    and class_size: "classificationSize c = 2 * (size_of_all c div PAGE_SIZE c)"
    and size_pos: "0 < size_of_all c"
    and class_int: "classificationSize c < 2 ^ 31"
    and few_nodes: "numtasks c \<le> 64"
    and load_pos: "0 < load_size c"
    and write_back_le: "wb_write_back_size c \<le> wb_max_size c"
begin

lemma sharer_win_offset_class [simp]:
  "get_sharer_win_offset c (get_classification_index c p) = get_classification_index c p"
proof -
  have "PAGE_SIZE c \<le> size_of_all c" using size_pages size_pos by (rule dvd_imp_le)
  then have "0 < classificationSize c" using page_pos by (simp add: class_size div_greater_zero_iff)
  then have "get_classification_index c p < classificationSize c" by (simp add: get_classification_index_def)
  then have "get_classification_index c p < 2 ^ 31" using class_int by simp
  then have "int32_of (get_classification_index c p) = int (get_classification_index c p)"
    by (rule int32_of_small)
  then show ?thesis by (simp add: get_sharer_win_offset_def)
qed

end

text \<open>The page at \<open>addr\<close> is mapped into the page cache of the node, below the exported memory.\<close>

definition in_cache :: "swdsm_config \<Rightarrow> node \<Rightarrow> nat \<Rightarrow> bool" where
  "in_cache c nd addr \<longleftrightarrow>
     (\<exists>off. vmap nd addr = Some off \<and> off + PAGE_SIZE c \<le> cacheoffset c)"

lemma vm_read_page:
  assumes "PAGE_SIZE c dvd addr" and "j < PAGE_SIZE c"
  shows "vm_read c nd (addr + j) = (case vmap nd addr of None \<Rightarrow> 0 | Some off \<Rightarrow> backing nd (off + j))"
  by (simp add: vm_read_def align_backwards_def page_split [OF assms] split: option.split)

lemma vm_read_set_window:
  assumes "PAGE_SIZE c dvd addr" and "j < PAGE_SIZE c" and "in_cache c nd addr"
  shows "vm_read c (set_data_window c w nd) (addr + j) = vm_read c nd (addr + j)"
  using assms by (auto simp: vm_read_page in_cache_def set_data_window_backing)

end
