(* ===== verification/Swdsm_Cache.thy ===== *)
theory Swdsm_Cache
  imports Swdsm_State
begin

text \<open>
  Writing dirty pages back: \<^verbatim>\<open>storepageDIFF\<close> of \<^verbatim>\<open>swdsm.cpp\<close>, which sends the bytes that
  differ from the twin of the page as runs of \<^verbatim>\<open>MPI_Put\<close>, and the class \<^verbatim>\<open>write_buffer\<close> of
  \<^verbatim>\<open>write_buffer.hpp\<close>, the FIFO of dirty cache indices. The first part shows that the runs
  amount to a bytewise merge into the home node's memory, the second what the write buffer
  operations do to the buffer, the cache and the home nodes.
\<close>

section \<open>storepageDIFF\<close>

definition put_data :: "ext \<Rightarrow> swdsm_config \<Rightarrow> nat \<Rightarrow> byte list \<Rightarrow> nat \<Rightarrow> cluster \<Rightarrow> cluster" where
  "put_data E c homenode bytes disp s =
     upd homenode (\<lambda>nd. set_data_window c (MPI_Put E bytes disp (data_window c nd)) nd) s"

text \<open>
  The bytes \<^verbatim>\<open>real[a..b)\<close> of the page at \<open>addr\<close> as node \<open>r\<close> sees them. One iteration of the
  loop carries the length \<open>cnt\<close> of the current run of differing bytes; the comparison unit
  \<^verbatim>\<open>drf_unit\<close> is one byte.
\<close>

definition real_bytes :: "swdsm_config \<Rightarrow> nat \<Rightarrow> nat \<Rightarrow> nat \<Rightarrow> nat \<Rightarrow> cluster \<Rightarrow> byte list" where
  "real_bytes c r addr a b s = map (\<lambda>j. vm_read c (s r) (addr + j)) [a..<b]"

definition diff_step ::
  "ext \<Rightarrow> swdsm_config \<Rightarrow> nat \<Rightarrow> nat \<Rightarrow> nat \<Rightarrow> nat \<Rightarrow> nat \<Rightarrow> nat \<Rightarrow> nat \<times> cluster \<Rightarrow> nat \<times> cluster" where
  "diff_step E c r index addr homenode win_offset i st =
     (let (cnt, s) = st;
          branchval = vm_read c (s r) (addr + i) \<noteq> pagecopy (s r) (index * PAGE_SIZE c + i)
      in if branchval then (cnt + 1, s)
         else if cnt > 0
         then (0, put_data E c homenode (real_bytes c r addr (i - cnt) i s) (win_offset + (i - cnt)) s)
         else (cnt, s))"

definition storepageDIFF ::
  "ext \<Rightarrow> swdsm_config \<Rightarrow> nat \<Rightarrow> nat \<Rightarrow> nat \<Rightarrow> cluster \<Rightarrow> argo_error + cluster" where
  "storepageDIFF E c r index addr s =
     bindE (get_homenode c addr) (\<lambda>homenode.
     bindE (get_offset c addr) (\<lambda>offset.
       let win_offset = get_data_win_offset c offset;
           (cnt, s) = fold (diff_step E c r index addr homenode win_offset) [0..<PAGE_SIZE c] (0, s);
           i = PAGE_SIZE c;
           s = (if cnt > 0
                then put_data E c homenode (real_bytes c r addr (i - cnt) i s) (win_offset + (i - cnt)) s
                else s)
       in Inr (upd r (\<lambda>nd. nd\<lparr>write_misses := add64 (write_misses nd) 1\<rparr>) s)))"

section \<open>The write back is a bytewise merge\<close>

text \<open>The bytes of home memory after the first \<open>m\<close> bytes of a page have been merged in.\<close>

definition merge :: "nat \<Rightarrow> nat \<Rightarrow> (nat \<Rightarrow> 'a) \<Rightarrow> (nat \<Rightarrow> 'a) \<Rightarrow> (nat \<Rightarrow> 'a) \<Rightarrow> nat \<Rightarrow> 'a" where
  "merge d m new twin old =
     (\<lambda>k. if d \<le> k \<and> k < d + m \<and> new (k - d) \<noteq> twin (k - d) then new (k - d) else old k)"

lemma merge_0 [simp]: "merge d 0 new twin old = old"
  by (rule ext) (auto simp: merge_def)

lemma merge_same: "new m = twin m \<Longrightarrow> merge d (Suc m) new twin old = merge d m new twin old"
  by (intro ext) (auto simp: merge_def less_Suc_eq)

lemma merge_run:
  assumes "a \<le> b" and "\<And>j. a \<le> j \<Longrightarrow> j < b \<Longrightarrow> new j \<noteq> twin j"
  shows "splice (map new [a..<b]) (d + a) (merge d a new twin old) = merge d b new twin old"
proof
  fix k
  show "splice (map new [a..<b]) (d + a) (merge d a new twin old) k = merge d b new twin old k"
    using assms(1) assms(2) [of "k - d"] by (auto simp: splice_def merge_def)
qed

definition page_merge ::
  "swdsm_config \<Rightarrow> nat \<Rightarrow> nat \<Rightarrow> nat \<Rightarrow> nat \<Rightarrow> nat \<Rightarrow> nat \<Rightarrow> cluster \<Rightarrow> cluster" where
  "page_merge c r index addr homenode offset m s =
     upd homenode (\<lambda>nd. set_data_window c
       (merge offset m (\<lambda>j. vm_read c (s r) (addr + j)) (\<lambda>j. pagecopy (s r) (index * PAGE_SIZE c + j))
          (data_window c nd)) nd) s"

context externals
begin

lemma put_page_merge:
  fixes h d :: nat
  assumes "addr = PAGE_SIZE c * k" and "in_cache c (s r) addr" and "cnt \<le> i" and "i \<le> PAGE_SIZE c"
    and "\<And>j. i - cnt \<le> j \<Longrightarrow> j < i \<Longrightarrow>
           vm_read c (s r) (addr + j) \<noteq> pagecopy (s r) (index * PAGE_SIZE c + j)"
  defines "t \<equiv> page_merge c r index addr h d (i - cnt) s"
  shows "put_data E c h (real_bytes c r addr (i - cnt) i t) (d + (i - cnt)) t
           = page_merge c r index addr h d i s"
proof -
  have "vm_read c (t r) (addr + j) = vm_read c (s r) (addr + j)" if "j < PAGE_SIZE c" for j
    using assms(1,2) that by (cases "h = r") (simp_all add: t_def page_merge_def vm_read_set_window)
  then have "real_bytes c r addr (i - cnt) i t = real_bytes c r addr (i - cnt) i s"
    using assms(4) by (auto simp: real_bytes_def)
  moreover have "splice (map (\<lambda>j. vm_read c (s r) (addr + j)) [i - cnt..<i]) (d + (i - cnt))
      (merge d (i - cnt) (\<lambda>j. vm_read c (s r) (addr + j)) (\<lambda>j. pagecopy (s r) (index * PAGE_SIZE c + j)) w)
    = merge d i (\<lambda>j. vm_read c (s r) (addr + j)) (\<lambda>j. pagecopy (s r) (index * PAGE_SIZE c + j)) w" for w
    by (rule merge_run) (use assms(5) in auto)
  ultimately show ?thesis
    unfolding put_data_def put by (simp only: real_bytes_def) (simp add: t_def page_merge_def)
qed

lemma diff_loop:
  assumes "addr = PAGE_SIZE c * k" and "in_cache c (s r) addr" and "i \<le> PAGE_SIZE c"
  shows "\<exists>cnt \<le> i. fold (diff_step E c r index addr h d) [0..<i] (0, s)
             = (cnt, page_merge c r index addr h d (i - cnt) s)
           \<and> (\<forall>j. i - cnt \<le> j \<and> j < i \<longrightarrow>
                vm_read c (s r) (addr + j) \<noteq> pagecopy (s r) (index * PAGE_SIZE c + j))"
  using assms(3)
proof (induction i)
  case 0
  then show ?case by (simp add: page_merge_def)
next
  case (Suc i)
  then obtain cnt where cnt: "cnt \<le> i" and
    f: "fold (diff_step E c r index addr h d) [0..<i] (0, s)
             = (cnt, page_merge c r index addr h d (i - cnt) s)" and
    run: "\<And>j. i - cnt \<le> j \<Longrightarrow> j < i \<Longrightarrow>
                vm_read c (s r) (addr + j) \<noteq> pagecopy (s r) (index * PAGE_SIZE c + j)" by auto
  let ?t = "page_merge c r index addr h d (i - cnt) s"
  have rd: "vm_read c (?t r) (addr + i) = vm_read c (s r) (addr + i)"
    using assms(1,2) Suc.prems by (cases "h = r") (simp_all add: page_merge_def vm_read_set_window)
  have cp: "pagecopy (?t r) = pagecopy (s r)" by (cases "h = r") (simp_all add: page_merge_def)
  show ?case
  proof (cases "vm_read c (s r) (addr + i) = pagecopy (s r) (index * PAGE_SIZE c + i)")
    case False
    then have "fold (diff_step E c r index addr h d) [0..<Suc i] (0, s) = (Suc cnt, ?t)"
      using f by (simp add: diff_step_def rd cp)
    with cnt run False show ?thesis
      by (intro exI [of _ "Suc cnt"]) (auto simp: less_Suc_eq)
  next
    case True
    then have same: "page_merge c r index addr h d (Suc i) s = page_merge c r index addr h d i s"
      by (simp add: page_merge_def merge_same)
    have put: "put_data E c h (real_bytes c r addr (i - cnt) i ?t) (d + (i - cnt)) ?t
        = page_merge c r index addr h d i s"
      using assms cnt Suc.prems run by (intro put_page_merge) auto
    have "fold (diff_step E c r index addr h d) [0..<Suc i] (0, s)
        = (0, page_merge c r index addr h d (Suc i) s)"
    proof (cases "cnt = 0")
      case True
      with rd cp f \<open>vm_read c (s r) (addr + i) = _\<close> show ?thesis
        by (simp add: diff_step_def same)
    next
      case False
      with rd cp f put True show ?thesis by (simp add: diff_step_def same)
    qed
    then show ?thesis by (intro exI [of _ 0]) auto
  qed
qed

lemma storepageDIFF_merge:
  assumes "get_homenode c addr = Inr h" and "get_offset c addr = Inr d"
    and "PAGE_SIZE c dvd addr" and "in_cache c (s r) addr"
  shows "storepageDIFF E c r index addr s
    = Inr (upd r (\<lambda>nd. nd\<lparr>write_misses := add64 (write_misses nd) 1\<rparr>)
             (page_merge c r index addr h d (PAGE_SIZE c) s))"
proof -
  from assms(3) obtain k where k: "addr = PAGE_SIZE c * k" by (elim dvdE)
  obtain cnt where cnt: "cnt \<le> PAGE_SIZE c" and
    f: "fold (diff_step E c r index addr h d) [0..<PAGE_SIZE c] (0, s)
             = (cnt, page_merge c r index addr h d (PAGE_SIZE c - cnt) s)" and
    run: "\<And>j. PAGE_SIZE c - cnt \<le> j \<Longrightarrow> j < PAGE_SIZE c \<Longrightarrow>
                vm_read c (s r) (addr + j) \<noteq> pagecopy (s r) (index * PAGE_SIZE c + j)"
    using diff_loop [where i = "PAGE_SIZE c" and addr = addr and c = c and s = s and r = r
        and h = h and d = d and index = index, OF k assms(4) order.refl]
    by auto
  have "put_data E c h (real_bytes c r addr (PAGE_SIZE c - cnt) (PAGE_SIZE c)
             (page_merge c r index addr h d (PAGE_SIZE c - cnt) s))
          (d + (PAGE_SIZE c - cnt)) (page_merge c r index addr h d (PAGE_SIZE c - cnt) s)
        = page_merge c r index addr h d (PAGE_SIZE c) s"
    using k assms(4) cnt run by (intro put_page_merge) auto
  with f show ?thesis
    by (cases "cnt = 0") (simp_all add: storepageDIFF_def assms get_data_win_offset_def)
qed

end

section \<open>The write buffer\<close>

definition wb_empty :: "node \<Rightarrow> bool" where
  "wb_empty nd \<longleftrightarrow> wb_buffer nd = []"

definition wb_has :: "nat \<Rightarrow> node \<Rightarrow> bool" where
  "wb_has val nd \<longleftrightarrow> val \<in> set (wb_buffer nd)"

definition wb_emplace_back :: "nat \<Rightarrow> node \<Rightarrow> node" where
  "wb_emplace_back val nd = nd\<lparr>wb_buffer := wb_buffer nd @ [val]\<rparr>"

text \<open>\<^verbatim>\<open>front()\<close> of an empty deque is undefined.\<close>

definition wb_pop :: "nat \<Rightarrow> cluster \<Rightarrow> argo_error + nat \<times> cluster" where
  "wb_pop r s =
     (case wb_buffer (s r) of
        [] \<Rightarrow> Inl (Undefined_behaviour ''front of an empty deque'')
      | x # xs \<Rightarrow> Inr (x, upd r (\<lambda>nd. nd\<lparr>wb_buffer := xs\<rparr>) s))"

definition set_dirty :: "nat \<Rightarrow> cache_dirty \<Rightarrow> node \<Rightarrow> node" where
  "set_dirty i d nd = nd\<lparr>cacheControl := (cacheControl nd)(i := (cacheControl nd i)\<lparr>dirty := d\<rparr>)\<rparr>"

definition store_lines ::
  "ext \<Rightarrow> swdsm_config \<Rightarrow> nat \<Rightarrow> nat \<Rightarrow> nat \<Rightarrow> cluster \<Rightarrow> argo_error + cluster" where
  "store_lines E c r index addr =
     foldE (\<lambda>j. storepageDIFF E c r (index + j) (PAGE_SIZE c * j + addr)) [0..<CACHELINE c]"

definition write_back_index ::
  "ext \<Rightarrow> swdsm_config \<Rightarrow> nat \<Rightarrow> nat \<Rightarrow> cluster \<Rightarrow> argo_error + cluster" where
  "write_back_index E c r cache_index s =
     bindE (cache_lock r cache_index s) (\<lambda>s.
     bindE (assertE ''cacheControl[cache_index].dirty == DIRTY''
              (dirty (cacheControl (s r) cache_index) = DIRTY)) (\<lambda>_.
       let page_address = tag (cacheControl (s r) cache_index);
           s = upd r (mprotect c page_address (block_size c) PROT_READ) s;
           s = upd r (set_dirty cache_index CLEAN) s
       in bindE (store_lines E c r cache_index page_address s)
            (\<lambda>s. Inr (cache_unlock r cache_index s))))"

definition pop_write_back ::
  "ext \<Rightarrow> swdsm_config \<Rightarrow> nat \<Rightarrow> cluster \<Rightarrow> argo_error + cluster" where
  "pop_write_back E c r s = bindE (wb_pop r s) (\<lambda>(i, s). write_back_index E c r i s)"

definition flush_partial :: "ext \<Rightarrow> swdsm_config \<Rightarrow> nat \<Rightarrow> cluster \<Rightarrow> argo_error + cluster" where
  "flush_partial E c r s =
     bindE (foldE (\<lambda>_. pop_write_back E c r) [0..<wb_write_back_size c] s)
       (\<lambda>s. Inr (upd r (\<lambda>nd. nd\<lparr>wb_partial_flush_count := add64 (wb_partial_flush_count nd) 1\<rparr>) s))"

definition wb_add_locked :: "ext \<Rightarrow> swdsm_config \<Rightarrow> nat \<Rightarrow> nat \<Rightarrow> cluster \<Rightarrow> argo_error + cluster" where
  "wb_add_locked E c r val s =
     bindE (assertE ''!has(val)'' (\<not> wb_has val (s r))) (\<lambda>_.
     bindE (if length (wb_buffer (s r)) \<ge> wb_max_size c then flush_partial E c r s else Inr s)
       (\<lambda>s. Inr (upd r (\<lambda>nd. (wb_emplace_back val nd)\<lparr>wb_page_count := add64 (wb_page_count nd) 1\<rparr>) s)))"

definition wb_erase_locked :: "nat \<Rightarrow> nat \<Rightarrow> cluster \<Rightarrow> argo_error + cluster" where
  "wb_erase_locked r val s = Inr (upd r (\<lambda>nd. nd\<lparr>wb_buffer := remove1 val (wb_buffer nd)\<rparr>) s)"

text \<open>\<^verbatim>\<open>while(!empty()) write_back_index(pop());\<close>. \<open>None\<close> is a loop that never ends.\<close>

partial_function (option) wb_flush_loop ::
  "ext \<Rightarrow> swdsm_config \<Rightarrow> nat \<Rightarrow> cluster \<Rightarrow> (argo_error + cluster) option" where
  "wb_flush_loop E c r s =
     (if wb_empty (s r) then Some (Inr s)
      else case pop_write_back E c r s of
             Inl e \<Rightarrow> Some (Inl e)
           | Inr s' \<Rightarrow> wb_flush_loop E c r s')"

definition wb_flush_locked :: "ext \<Rightarrow> swdsm_config \<Rightarrow> nat \<Rightarrow> cluster \<Rightarrow> argo_error + cluster" where
  "wb_flush_locked E c r s =
     (case wb_flush_loop E c r s of None \<Rightarrow> Inl Diverges | Some res \<Rightarrow> res)"

definition wb_erase :: "ext \<Rightarrow> nat \<Rightarrow> nat \<Rightarrow> cluster \<Rightarrow> argo_error + cluster" where
  "wb_erase E r val s = DELEGATE_N E (wb_erase_locked r val) s"

definition wb_flush :: "ext \<Rightarrow> swdsm_config \<Rightarrow> nat \<Rightarrow> cluster \<Rightarrow> argo_error + cluster" where
  "wb_flush E c r s = DELEGATE_N E (wb_flush_locked E c r) s"

definition wb_add :: "ext \<Rightarrow> swdsm_config \<Rightarrow> nat \<Rightarrow> nat \<Rightarrow> cluster \<Rightarrow> argo_error + cluster" where
  "wb_add E c r val s = DELEGATE_N E (wb_add_locked E c r val) s"

definition wb_reset_stats :: "node \<Rightarrow> node" where
  "wb_reset_stats nd = nd\<lparr>wb_page_count := 0, wb_partial_flush_count := 0\<rparr>"

end
