(* ===== verification/Swdsm_Load.thy ===== *)
theory Swdsm_Load
  imports Swdsm_Cache
begin

text \<open>
  Loading pages into the cache, \<^verbatim>\<open>load_cache_entry\<close> of \<^verbatim>\<open>swdsm.cpp\<close>. The function is split at
  its comments: choosing how many pages to fetch (\<open>extend_end\<close>), claiming and evicting the
  cache entries (\<open>claim_entry\<close>, \<open>evict_entry\<close>), registering as a sharer, notifying private
  owners (\<open>downgrade_step\<close>), fetching the data and filling the entries (\<open>fill_entry\<close>).
\<close>

section \<open>How many pages to fetch\<close>

text \<open>
  The loop over \<open>p = CACHELINE, 2*CACHELINE, \<dots>\<close> below \<open>load_size\<close>; it breaks at the first
  page that is out of bounds, on another node, not contiguous there, or in another window.
\<close>

fun extend_end ::
  "swdsm_config \<Rightarrow> nat \<Rightarrow> nat \<Rightarrow> nat \<Rightarrow> nat \<Rightarrow> nat list \<Rightarrow> nat \<Rightarrow> argo_error + nat" where
  "extend_end c aligned start_index load_node load_offset [] end_index = Inr end_index"
| "extend_end c aligned start_index load_node load_offset (p # ps) end_index =
     (let temp_addr = aligned + p * block_size c
      in if temp_addr < size_of_all c \<and> start_index + p < cachesize c
         then bindE (peek_homenode c temp_addr) (\<lambda>temp_node.
              bindE (peek_offset c temp_addr) (\<lambda>temp_offset.
                if temp_node = load_node
                   \<and> temp_offset = load_offset + p * block_size c
                   \<and> get_sharer_win_index c (get_classification_index c temp_addr)
                       = get_sharer_win_index c (get_classification_index c aligned)
                   \<and> get_data_win_index c temp_offset = get_data_win_index c load_offset
                then extend_end c aligned start_index load_node load_offset ps (end_index + CACHELINE c)
                else Inr end_index))
         else Inr end_index)"

section \<open>Claiming and evicting cache entries\<close>

definition set_entry :: "nat \<Rightarrow> control_data \<Rightarrow> node \<Rightarrow> node" where
  "set_entry i cc nd = nd\<lparr>cacheControl := (cacheControl nd)(i := cc)\<rparr>"

definition evict_entry ::
  "ext \<Rightarrow> swdsm_config \<Rightarrow> nat \<Rightarrow> nat \<Rightarrow> nat \<Rightarrow> cluster \<Rightarrow> argo_error + cluster" where
  "evict_entry E c r idx temp_addr s =
     (let old = tag (cacheControl (s r) idx)
      in if old \<noteq> temp_addr \<and> old \<noteq> GLOBAL_NULL c
         then bindE
           (if dirty (cacheControl (s r) idx) = DIRTY
            then bindE (store_lines E c r idx old (upd r (mprotect c old (block_size c) PROT_READ) s))
                   (wb_erase E r idx)
            else Inr s)
           (\<lambda>s. Inr (upd r (\<lambda>nd.
              mprotect c old (block_size c) PROT_NONE
                (map_memory c temp_addr (block_size c) (PAGE_SIZE c * idx) PROT_NONE
                  (set_entry idx \<lparr>state = INVALID, dirty = CLEAN, tag = temp_addr\<rparr> nd))) s))
         else Inr s)"

text \<open>
  One iteration of the eviction loop at \<open>idx = start_index + p\<close>. The state carries
  \<^verbatim>\<open>pages_to_load\<close>. The lock of the first entry is held by the caller.
\<close>

definition claim_entry ::
  "ext \<Rightarrow> swdsm_config \<Rightarrow> nat \<Rightarrow> nat \<Rightarrow> nat \<Rightarrow> nat \<Rightarrow> (nat \<Rightarrow> bool) \<times> cluster
     \<Rightarrow> argo_error + (nat \<Rightarrow> bool) \<times> cluster" where
  "claim_entry E c r aligned start_index p st =
     (let (pages_to_load, s) = st;
          idx = start_index + p;
          temp_addr = aligned + p * block_size c;
          (got, s) = cache_try_lock r idx s
      in if got \<or> idx = start_index
         then if tag (cacheControl (s r) idx) = temp_addr \<and> state (cacheControl (s r) idx) \<noteq> INVALID
              then Inr (pages_to_load(p := False), cache_unlock r idx s)
              else bindE (evict_entry E c r idx temp_addr s)
                     (\<lambda>s. Inr (pages_to_load(p := True), s))
         else Inr (pages_to_load(p := False), s))"

section \<open>The directory\<close>

text \<open>
  The classification index of page \<open>i\<close> of the load, and the mask with this node's bit at the
  sharer word of every page in the set \<open>new\<close>. The vectors have two words per page.
\<close>

definition load_class :: "swdsm_config \<Rightarrow> nat \<Rightarrow> nat \<Rightarrow> nat" where
  "load_class c aligned i = get_classification_index c (aligned + i * block_size c)"

definition sharer_mask :: "nat \<Rightarrow> nat \<Rightarrow> (nat \<Rightarrow> bool) \<Rightarrow> u64 list" where
  "sharer_mask r fetch_size new =
     map (\<lambda>k. if even k \<and> new (k div 2) then node_bit r else 0) [0..<2 * fetch_size]"

definition load_pages :: "swdsm_config \<Rightarrow> nat \<Rightarrow> nat list" where
  "load_pages c fetch_size = c_range 0 fetch_size (CACHELINE c)"

definition register_sharer ::
  "ext \<Rightarrow> swdsm_config \<Rightarrow> nat \<Rightarrow> nat \<Rightarrow> nat \<Rightarrow> nat \<Rightarrow> (nat \<Rightarrow> bool) \<Rightarrow> cluster
     \<Rightarrow> u64 list \<times> cluster" where
  "register_sharer E c r aligned fetch_size load_node new s =
     (if \<exists>i \<in> set (load_pages c fetch_size). new i
      then let (remote_sharers, g) =
                 MPI_Get_accumulate_bor E (sharer_mask r fetch_size new)
                   (get_sharer_win_offset c (load_class c aligned 0)) (globalSharers (s load_node))
           in (remote_sharers,
               sharer_op c (load_class c aligned 0) (\<lambda>_. upd load_node (set_sharers g)) s)
      else (replicate (2 * fetch_size) 0, s))"

definition add_remote_sharers ::
  "swdsm_config \<Rightarrow> nat \<Rightarrow> nat \<Rightarrow> nat \<Rightarrow> (nat \<Rightarrow> bool) \<Rightarrow> u64 list \<Rightarrow> cluster \<Rightarrow> cluster" where
  "add_remote_sharers c r aligned fetch_size pages_to_load remote_sharers s =
     sharer_op c (load_class c aligned 0)
       (\<lambda>_. fold (\<lambda>i s.
          if pages_to_load i
          then let ci = load_class c aligned i in
               upd r (\<lambda>nd. set_sharers
                 ((globalSharers nd)
                   (ci := globalSharers nd ci OR remote_sharers ! (2 * i) OR node_bit r,
                    ci + 1 := globalSharers nd (ci + 1) OR remote_sharers ! (2 * i + 1))) nd) s
          else s) (load_pages c fetch_size)) s"

text \<open>\<^verbatim>\<open>for(n = 0; n < numtasks; n++) if((1 << n) == bits) { owner = n; break; }\<close>\<close>

definition find_owner :: "swdsm_config \<Rightarrow> nat \<Rightarrow> u64 \<Rightarrow> nat" where
  "find_owner c failsafe bits =
     (case List.find (\<lambda>n. node_bit n = bits) [0..<numtasks c] of None \<Rightarrow> failsafe | Some n \<Rightarrow> n)"

definition invalid_node :: nat where
  "invalid_node = size_max"

definition accumulate_sharers ::
  "ext \<Rightarrow> swdsm_config \<Rightarrow> nat \<Rightarrow> u64 list \<Rightarrow> nat \<Rightarrow> cluster \<Rightarrow> cluster" where
  "accumulate_sharers E c target bits disp s =
     upd target (\<lambda>nd. set_sharers (MPI_Accumulate_bor E bits disp (globalSharers nd)) nd) s"

text \<open>
  One iteration of the notification loop. \<open>local_new i\<close> says that \<^verbatim>\<open>local_sharers[i] == 0\<close>;
  the first component of the state is \<^verbatim>\<open>handled_pages\<close>.
\<close>

definition downgrade_step ::
  "ext \<Rightarrow> swdsm_config \<Rightarrow> nat \<Rightarrow> nat \<Rightarrow> nat \<Rightarrow> (nat \<Rightarrow> bool) \<Rightarrow> (nat \<Rightarrow> bool) \<Rightarrow> u64 list
     \<Rightarrow> nat \<Rightarrow> (nat \<Rightarrow> bool) \<times> cluster \<Rightarrow> (nat \<Rightarrow> bool) \<times> cluster" where
  "downgrade_step E c r aligned fetch_size pages_to_load local_new remote_sharers i st =
     (let (handled, s) = st
      in if pages_to_load i \<and> \<not> handled i
         then let owner_id_bit = remote_sharers ! (2 * i) AND NOT (node_bit r)
              in if isZeroOrPowerOf2 owner_id_bit \<and> owner_id_bit \<noteq> 0 \<and> local_new i
                 then let owner = find_owner c invalid_node owner_id_bit;
                          also_handled = (\<lambda>j. j \<in> set (c_range (i + CACHELINE c) fetch_size (CACHELINE c))
                             \<and> pages_to_load j \<and> \<not> handled j
                             \<and> remote_sharers ! (2 * j) AND NOT (node_bit r) = owner_id_bit
                             \<and> local_new j);
                          bits = sharer_mask r fetch_size (\<lambda>j. j = i \<or> also_handled j)
                      in (\<lambda>j. handled j \<or> also_handled j,
                          sharer_op c (load_class c aligned 0)
                            (\<lambda>_. accumulate_sharers E c owner bits
                                   (get_sharer_win_offset c (load_class c aligned 0))) s)
                 else (handled, s)
         else (handled, s))"

section \<open>Fetching the data\<close>

definition fetch_data :: "ext \<Rightarrow> swdsm_config \<Rightarrow> nat \<Rightarrow> nat \<Rightarrow> nat \<Rightarrow> cluster \<Rightarrow> byte list" where
  "fetch_data E c load_node load_offset fetch_size s =
     MPI_Get E (get_data_win_offset c load_offset) (fetch_size * block_size c)
       (data_window c (s load_node))"

definition fill_entry ::
  "swdsm_config \<Rightarrow> nat \<Rightarrow> nat \<Rightarrow> nat \<Rightarrow> (nat \<Rightarrow> bool) \<Rightarrow> byte list \<Rightarrow> nat \<Rightarrow> cluster \<Rightarrow> cluster" where
  "fill_entry c r aligned start_index pages_to_load temp_data p s =
     (if pages_to_load p
      then let idx = start_index + p;
               temp_addr = aligned + p * block_size c;
               block = take (block_size c) (drop (p * block_size c) temp_data);
               s = upd r (\<lambda>nd. nd\<lparr>backing := splice block (idx * block_size c) (backing nd)\<rparr>) s;
               s = upd r (\<lambda>nd.
                     if tag (cacheControl nd idx) = GLOBAL_NULL c
                     then set_entry idx ((cacheControl nd idx)\<lparr>tag := temp_addr\<rparr>)
                            (map_memory c temp_addr (block_size c) (PAGE_SIZE c * idx) PROT_READ nd)
                     else mprotect c temp_addr (block_size c) PROT_READ nd) s;
               s = upd r (\<lambda>nd. set_entry idx ((cacheControl nd idx)\<lparr>state := VALID, dirty := CLEAN\<rparr>)
                                (nd\<lparr>touchedcache := (touchedcache nd)(idx := True)\<rparr>)) s
           in if idx \<noteq> start_index then cache_unlock r idx s else s
      else s)"

section \<open>load\_cache\_entry\<close>

definition load_chunk ::
  "ext \<Rightarrow> swdsm_config \<Rightarrow> nat \<Rightarrow> nat \<Rightarrow> nat \<Rightarrow> nat \<Rightarrow> nat \<Rightarrow> nat \<Rightarrow> cluster
     \<Rightarrow> argo_error + cluster" where
  "load_chunk E c r aligned start_index fetch_size load_node load_offset s =
     bindE (foldE (claim_entry E c r aligned start_index) (load_pages c fetch_size) (\<lambda>_. False, s))
       (\<lambda>(pages_to_load, s).
          let s = upd r (\<lambda>nd. nd\<lparr>read_misses := add64 (read_misses nd) 1\<rparr>) s;
              local_new = (\<lambda>i. i \<in> set (load_pages c fetch_size) \<and> pages_to_load i
                 \<and> globalSharers (s r) (load_class c aligned i) AND node_bit r = 0);
              (remote_sharers, s) = register_sharer E c r aligned fetch_size load_node local_new s;
              s = add_remote_sharers c r aligned fetch_size pages_to_load remote_sharers s;
              (_, s) = fold (downgrade_step E c r aligned fetch_size pages_to_load local_new remote_sharers)
                         (load_pages c fetch_size) (\<lambda>_. False, s);
              temp_data = fetch_data E c load_node load_offset fetch_size s
          in Inr (fold (fill_entry c r aligned start_index pages_to_load temp_data)
                    (load_pages c fetch_size) s))"

definition load_cache_entry ::
  "ext \<Rightarrow> swdsm_config \<Rightarrow> nat \<Rightarrow> nat \<Rightarrow> cluster \<Rightarrow> argo_error + cluster" where
  "load_cache_entry E c r aligned s =
     (if aligned \<ge> size_of_all c then Inr s
      else bindE (assertE ''(aligned_access_offset % block_size) == 0'' (aligned mod block_size c = 0)) (\<lambda>_.
        let start_index = align_backwards (getCacheIndex c aligned) (CACHELINE c) in
        bindE (get_homenode c aligned) (\<lambda>load_node.
        bindE (get_offset c aligned) (\<lambda>load_offset.
          if tag (cacheControl (s r) start_index) = aligned
             \<and> state (cacheControl (s r) start_index) \<noteq> INVALID
          then Inr (cache_unlock r start_index s)
          else bindE (extend_end c aligned start_index load_node load_offset
                        (c_range (CACHELINE c) (load_size c) (CACHELINE c))
                        (start_index + CACHELINE c))
                 (\<lambda>end_index. load_chunk E c r aligned start_index (end_index - start_index)
                                load_node load_offset s)))))"

end
