(* ===== verification/Swdsm_Handler.thy ===== *)
theory Swdsm_Handler
  imports Swdsm_Load
begin

text \<open>
  The page fault handler of \<^verbatim>\<open>swdsm.cpp\<close>. \<open>handler_local\<close> is the branch for a page this node
  is home of, \<open>register_writer\<close> the registration and notification of a remote writer, and
  \<open>handler_remote\<close> the branch for remote pages. The last action of a write miss, adding the
  cache index to the write buffer, runs after the cache lock has been released, so the handler
  is given in two parts, \<open>handler_locked\<close> and the \<^verbatim>\<open>add\<close>.
\<close>

text \<open>\<^verbatim>\<open>sig::access_type\<close>; the enumerators carry a suffix because \<^verbatim>\<open>undefined\<close> is a HOL constant.\<close>

datatype access_type = read_access | write_access | undefined_access

text \<open>The outcome of the locked part: whether the cache index is to be added to the write buffer.\<close>

type_synonym handled = "bool \<times> cluster"

text \<open>
  Telling other nodes of a new writer \<open>r\<close>: the single other writer if there is one, all other
  sharers if \<open>r\<close> is the only writer, nobody if there were several already.
\<close>

definition notify_writer ::
  "ext \<Rightarrow> swdsm_config \<Rightarrow> nat \<Rightarrow> nat \<Rightarrow> nat \<Rightarrow> u64 \<Rightarrow> u64 \<Rightarrow> cluster \<Rightarrow> cluster" where
  "notify_writer E c r op_index classidx writers sharers s =
     (let ident = node_bit r;
          invid = NOT ident;
          tell = (\<lambda>n. sharer_op c op_index
                    (\<lambda>_. accumulate_sharers E c n [ident] (get_sharer_win_offset c classidx + 1)))
      in if writers \<noteq> ident \<and> writers \<noteq> 0 \<and> isZeroOrPowerOf2 (writers AND invid)
         then tell (find_owner c 0 (writers AND invid)) s
         else if writers = ident \<or> writers = 0
         then fold (\<lambda>n s. if n \<noteq> r \<and> node_bit n AND sharers \<noteq> 0 then tell n s else s)
                [0..<numtasks c] s
         else s)"

definition or_sharers :: "nat \<Rightarrow> u64 \<Rightarrow> node \<Rightarrow> node" where
  "or_sharers i b nd = set_sharers ((globalSharers nd)(i := globalSharers nd i OR b)) nd"

definition handler_local ::
  "ext \<Rightarrow> swdsm_config \<Rightarrow> nat \<Rightarrow> nat \<Rightarrow> nat \<Rightarrow> access_type \<Rightarrow> cluster \<Rightarrow> argo_error + cluster" where
  "handler_local E c r aligned offset miss_type s =
     (let classidx = get_classification_index c aligned;
          startIndex = getCacheIndex c aligned;
          ident = node_bit r;
          invid = NOT ident;
          prevsharer = globalSharers (s r) classidx AND ident
      in if prevsharer \<noteq> ident
         then let sharers = globalSharers (s r) classidx;
                  s = sharer_op c classidx (\<lambda>_. upd r (or_sharers classidx ident)) s
              in bindE
                   (if sharers \<noteq> 0 \<and> sharers \<noteq> ident \<and> isZeroOrPowerOf2 sharers
                    then let owner = find_owner c r (sharers AND invid)
                         in if owner = r then Inl Bad_owner
                            else Inr (sharer_op c classidx
                                   (\<lambda>_. accumulate_sharers E c owner [ident]
                                          (get_sharer_win_offset c classidx)) s)
                    else Inr s)
                   (\<lambda>s. Inr (cache_unlock r startIndex
                      (upd r (map_memory c aligned (block_size c) (cacheoffset c + offset) PROT_READ) s)))
         else if miss_type = read_access then Inr (cache_unlock r startIndex s)
         else let sharers = globalSharers (s r) classidx;
                  writers = globalSharers (s r) (classidx + 1);
                  s = sharer_op c classidx (\<lambda>_. upd r (or_sharers (classidx + 1) ident)) s;
                  s = notify_writer E c r classidx classidx writers sharers s
              in Inr (cache_unlock r startIndex
                   (upd r (map_memory c aligned (block_size c) (cacheoffset c + offset) PROT_READ_WRITE) s)))"

definition register_writer ::
  "ext \<Rightarrow> swdsm_config \<Rightarrow> nat \<Rightarrow> nat \<Rightarrow> nat \<Rightarrow> cluster \<Rightarrow> cluster" where
  "register_writer E c r classidx homenode s =
     (let ident = node_bit r;
          writers = globalSharers (s r) (classidx + 1)
      in if writers \<noteq> ident \<and> isZeroOrPowerOf2 writers
         then let s = sharer_op c classidx (\<lambda>_. upd r (or_sharers (classidx + 1) ident)) s;
                  (ws, g) = MPI_Get_accumulate_bor E [ident] (get_sharer_win_offset c classidx + 1)
                              (globalSharers (s homenode));
                  s = sharer_op c (classidx + 1) (\<lambda>_. upd homenode (set_sharers g)) s;
                  sharers = hd (MPI_Get_long E (get_sharer_win_offset c classidx) 1
                                  (globalSharers (s homenode)));
                  writers = hd ws OR ident;
                  s = sharer_op c classidx (\<lambda>_. upd r (or_sharers classidx sharers)) s
              in notify_writer E c r (classidx + 1) classidx writers sharers s
         else s)"

definition handler_remote ::
  "ext \<Rightarrow> swdsm_config \<Rightarrow> nat \<Rightarrow> nat \<Rightarrow> nat \<Rightarrow> access_type \<Rightarrow> cluster \<Rightarrow> argo_error + handled" where
  "handler_remote E c r aligned homenode miss_type s =
     (let classidx = get_classification_index c aligned;
          startIndex = getCacheIndex c aligned;
          cc = cacheControl (s r) startIndex;
          performed_load = (state cc = INVALID \<or> (tag cc \<noteq> aligned \<and> tag cc \<noteq> GLOBAL_NULL c))
      in bindE (if performed_load then load_cache_entry E c r aligned s else Inr s) (\<lambda>s.
         if miss_type = read_access \<or> (miss_type = undefined_access \<and> performed_load)
         then bindE (assertE ''cacheControl[startIndex].state == VALID''
                       (state (cacheControl (s r) startIndex) = VALID)) (\<lambda>_.
              bindE (assertE ''cacheControl[startIndex].tag == aligned_access_offset''
                       (tag (cacheControl (s r) startIndex) = aligned)) (\<lambda>_.
                Inr (False, cache_unlock r startIndex s)))
         else let line = startIndex div CACHELINE c * CACHELINE c
              in if dirty (cacheControl (s r) line) = DIRTY
                 then Inr (False, cache_unlock r startIndex s)
                 else let s = upd r (\<lambda>nd. set_dirty line DIRTY
                                (nd\<lparr>touchedcache := (touchedcache nd)(line := True)\<rparr>)) s;
                          s = register_writer E c r classidx homenode s;
                          s = upd r (\<lambda>nd. nd\<lparr>pagecopy :=
                                splice (map (\<lambda>j. vm_read c nd (aligned + j)) [0..<block_size c])
                                  (line * PAGE_SIZE c) (pagecopy nd)\<rparr>) s;
                          s = upd r (mprotect c aligned (block_size c) PROT_READ_WRITE) s
                      in Inr (True, cache_unlock r startIndex s)))"

definition handler_locked ::
  "ext \<Rightarrow> swdsm_config \<Rightarrow> nat \<Rightarrow> nat \<Rightarrow> access_type \<Rightarrow> cluster \<Rightarrow> argo_error + handled" where
  "handler_locked E c r access_offset miss_type s =
     (let aligned = align_backwards access_offset (CACHELINE c * PAGE_SIZE c);
          startIndex = getCacheIndex c aligned
      in bindE (get_homenode c aligned) (\<lambda>homenode.
         bindE (get_offset c aligned) (\<lambda>offset.
         bindE (cache_lock r startIndex s) (\<lambda>s.
           if homenode = r
           then bindE (handler_local E c r aligned offset miss_type s) (\<lambda>s. Inr (False, s))
           else handler_remote E c r aligned homenode miss_type s))))"

definition handler ::
  "ext \<Rightarrow> swdsm_config \<Rightarrow> nat \<Rightarrow> nat \<Rightarrow> access_type \<Rightarrow> cluster \<Rightarrow> argo_error + cluster" where
  "handler E c r access_offset miss_type s =
     bindE (handler_locked E c r access_offset miss_type s) (\<lambda>(add, s).
       if add
       then wb_add E c r (getCacheIndex c (align_backwards access_offset (CACHELINE c * PAGE_SIZE c))) s
       else Inr s)"

end
