(* ===== verification/Swdsm_Sync.thy ===== *)
theory Swdsm_Sync
  imports Swdsm_Handler
begin

text \<open>
  The synchronisation operations of \<^verbatim>\<open>swdsm.cpp\<close> (self invalidation, classification upgrade,
  acquire, release, the barrier, the reset of the coherence state) and the selective ones of
  \<^verbatim>\<open>coherence.cpp\<close>. A barrier is the collective that the nodes run together: the nodes' phases
  are executed in the order of the list \<open>ns\<close>, with the phases separated by \<^verbatim>\<open>MPI_Barrier\<close>.
\<close>

section \<open>Self invalidation\<close>

definition keep_page :: "nat \<Rightarrow> nat \<Rightarrow> node \<Rightarrow> bool" where
  "keep_page r classidx nd \<longleftrightarrow>
     globalSharers nd (classidx + 1) = node_bit r
   \<or> (globalSharers nd (classidx + 1) = 0 \<and> globalSharers nd classidx AND node_bit r = node_bit r)"

definition invalidate_entry :: "swdsm_config \<Rightarrow> nat \<Rightarrow> nat \<Rightarrow> node \<Rightarrow> node" where
  "invalidate_entry c i lineAddr nd =
     mprotect c lineAddr (block_size c) PROT_NONE
       (nd\<lparr>cacheControl := (cacheControl nd)(i := (cacheControl nd i)\<lparr>dirty := CLEAN, state := INVALID\<rparr>),
           touchedcache := (touchedcache nd)(i := False)\<rparr>)"

definition self_invalidation_step ::
  "ext \<Rightarrow> swdsm_config \<Rightarrow> nat \<Rightarrow> nat \<Rightarrow> bool \<times> cluster \<Rightarrow> argo_error + bool \<times> cluster" where
  "self_invalidation_step E c r i st =
     (let (flushed, s) = st
      in if touchedcache (s r) i
         then let distrAddr = tag (cacheControl (s r) i);
                  lineAddr = distrAddr div (PAGE_SIZE c * CACHELINE c) * (PAGE_SIZE c * CACHELINE c);
                  classidx = get_classification_index c lineAddr
              in bindE (if \<not> flushed \<and> dirty (cacheControl (s r) i) = DIRTY
                        then bindE (wb_flush E c r s) (\<lambda>s. Inr (True, s)) else Inr (flushed, s))
                   (\<lambda>(flushed, s).
                      if keep_page r classidx (s r)
                      then Inr (flushed, upd r (\<lambda>nd. nd\<lparr>touchedcache := (touchedcache nd)(i := True)\<rparr>) s)
                      else Inr (flushed, upd r (invalidate_entry c i lineAddr) s))
         else Inr (flushed, s))"

definition self_invalidation :: "ext \<Rightarrow> swdsm_config \<Rightarrow> nat \<Rightarrow> cluster \<Rightarrow> argo_error + cluster" where
  "self_invalidation E c r s =
     bindE (foldE (self_invalidation_step E c r) (c_range 0 (cachesize c) (CACHELINE c)) (False, s))
       (\<lambda>(_, s). Inr s)"

section \<open>Acquire and release\<close>

definition argo_acquire :: "ext \<Rightarrow> swdsm_config \<Rightarrow> nat \<Rightarrow> cluster \<Rightarrow> argo_error + cluster" where
  "argo_acquire E c r s = self_invalidation E c r s"

definition argo_release :: "ext \<Rightarrow> swdsm_config \<Rightarrow> nat \<Rightarrow> cluster \<Rightarrow> argo_error + cluster" where
  "argo_release E c r s = wb_flush E c r s"

definition argo_acq_rel :: "ext \<Rightarrow> swdsm_config \<Rightarrow> nat \<Rightarrow> cluster \<Rightarrow> argo_error + cluster" where
  "argo_acq_rel E c r s = bindE (argo_acquire E c r s) (argo_release E c r)"

section \<open>Classification upgrade\<close>

datatype upgrade_type = upgrade_none | upgrade_writers | upgrade_all

definition self_upgrade_step ::
  "swdsm_config \<Rightarrow> nat \<Rightarrow> upgrade_type \<Rightarrow> nat \<Rightarrow> node \<Rightarrow> argo_error + node" where
  "self_upgrade_step c r upgrade i nd =
     (let page_index = i div 2;
          page_addr = page_index * PAGE_SIZE c * CACHELINE c
      in bindE (is_cached c r (startAddr c + page_addr) nd) (\<lambda>cached.
           let is_sharer = globalSharers nd i AND node_bit r \<noteq> 0;
               is_writer = globalSharers nd (i + 1) AND node_bit r \<noteq> 0;
               g = globalSharers nd;
               g = (if upgrade = upgrade_all then g(i := 0) else g);
               nd = set_sharers (g(i + 1 := 0)) nd
           in Inr (if cached
                   then if upgrade = upgrade_all \<and> is_sharer
                        then invalidate_entry c (getCacheIndex c page_addr) page_addr nd
                        else if is_writer then mprotect c page_addr (block_size c) PROT_READ nd
                        else nd
                   else nd)))"

definition self_upgrade ::
  "swdsm_config \<Rightarrow> upgrade_type \<Rightarrow> nat \<Rightarrow> cluster \<Rightarrow> argo_error + cluster" where
  "self_upgrade c upgrade r s =
     bindE (assertE ''upgrade == upgrade_type::upgrade_writers || upgrade == upgrade_type::upgrade_all''
              (upgrade = upgrade_writers \<or> upgrade = upgrade_all)) (\<lambda>_.
     bindE (foldE (self_upgrade_step c r upgrade) (c_range 0 (classificationSize c) 2) (s r))
       (\<lambda>nd. Inr (s(r := nd))))"

section \<open>The barrier\<close>

definition swdsm_argo_barrier ::
  "ext \<Rightarrow> swdsm_config \<Rightarrow> nat list \<Rightarrow> upgrade_type \<Rightarrow> cluster \<Rightarrow> argo_error + cluster" where
  "swdsm_argo_barrier E c ns upgrade s =
     (let count = (\<lambda>s. fold (\<lambda>n. upd n (\<lambda>nd. nd\<lparr>barriers := add64 (barriers nd) 1\<rparr>)) ns s)
      in if numtasks c = 1 then Inr (count s)
         else bindE (foldE (wb_flush E c) ns s) (\<lambda>s.
              bindE (foldE (self_invalidation E c) ns s) (\<lambda>s.
              bindE (if upgrade \<noteq> upgrade_none then foldE (self_upgrade c upgrade) ns s else Inr s)
                (\<lambda>s. Inr (count s)))))"

section \<open>Resetting the coherence state\<close>

text \<open>
  The sharer loop runs in strides of \<^verbatim>\<open>load_size*2\<close> words, so its last stride may go past
  \<open>classificationSize\<close>; the directory is exported page-wise and is at least that large only
  when the stride divides its length.
\<close>

definition reset_node :: "swdsm_config \<Rightarrow> node \<Rightarrow> node" where
  "reset_node c nd =
     nd\<lparr>write_misses := 0,
        touchedcache := (\<lambda>i. if i < cachesize c then False else touchedcache nd i),
        cacheControl := (\<lambda>i. if i < cachesize c
                              then \<lparr>state = INVALID, dirty = CLEAN, tag = GLOBAL_NULL c\<rparr>
                              else cacheControl nd i),
        globalSharers := fold (\<lambda>i g. fold (\<lambda>j g. g(j := 0)) [i..<i + load_size c * 2] g)
                           (c_range 0 (classificationSize c) (load_size c * 2)) (globalSharers nd)\<rparr>"

definition argo_reset_stats :: "node \<Rightarrow> node" where
  "argo_reset_stats nd = (wb_reset_stats nd)\<lparr>write_misses := 0, read_misses := 0, barriers := 0\<rparr>"

definition argo_reset_coherence ::
  "ext \<Rightarrow> swdsm_config \<Rightarrow> nat list \<Rightarrow> cluster \<Rightarrow> argo_error + cluster" where
  "argo_reset_coherence E c ns s =
     bindE (swdsm_argo_barrier E c ns upgrade_none (fold (\<lambda>n. upd n (reset_node c)) ns s)) (\<lambda>s.
     bindE (swdsm_argo_barrier E c ns upgrade_none
              (fold (\<lambda>n. upd n (mprotect c 0 (size_of_all c) PROT_NONE)) ns s)) (\<lambda>s.
       Inr (fold (\<lambda>n. upd n argo_reset_stats) ns s)))"

section \<open>Selective coherence\<close>

definition selective_pages :: "swdsm_config \<Rightarrow> nat \<Rightarrow> nat \<Rightarrow> nat list" where
  "selective_pages c addr sz =
     (let page_misalignment = addr mod block_size c;
          argo_address = sub64 addr (startAddr c) div block_size c * block_size c
      in c_range argo_address (argo_address + page_misalignment + sz) (block_size c))"

definition selective_acquire_page ::
  "swdsm_config \<Rightarrow> nat \<Rightarrow> nat \<Rightarrow> cluster \<Rightarrow> argo_error + cluster" where
  "selective_acquire_page c r page_address s =
     bindE (peek_homenode c page_address) (\<lambda>homenode_id.
       if homenode_id = r \<or> homenode_id = invalid_node_id then Inr s
       else let cache_index = getCacheIndex c page_address;
                classification_index = get_classification_index c page_address
            in bindE (cache_lock r cache_index s) (\<lambda>s.
                 Inr (cache_unlock r cache_index
                   (if keep_page r classification_index (s r)
                    then upd r (\<lambda>nd. nd\<lparr>touchedcache := (touchedcache nd)(cache_index := True)\<rparr>) s
                    else upd r (invalidate_entry c cache_index page_address) s))))"

definition selective_acquire ::
  "swdsm_config \<Rightarrow> nat \<Rightarrow> nat \<Rightarrow> nat \<Rightarrow> cluster \<Rightarrow> argo_error + cluster" where
  "selective_acquire c r addr sz s =
     (if sz = 0 then Inr s
      else foldE (selective_acquire_page c r) (selective_pages c addr sz) s)"

definition selective_release_page ::
  "ext \<Rightarrow> swdsm_config \<Rightarrow> nat \<Rightarrow> nat \<Rightarrow> cluster \<Rightarrow> argo_error + cluster" where
  "selective_release_page E c r page_address s =
     bindE (peek_homenode c page_address) (\<lambda>homenode_id.
       if homenode_id = r \<or> homenode_id = invalid_node_id then Inr s
       else let cache_index = getCacheIndex c page_address
            in bindE (cache_lock r cache_index s) (\<lambda>s.
                 if dirty (cacheControl (s r) cache_index) = DIRTY
                 then bindE (store_lines E c r cache_index page_address
                               (upd r (mprotect c page_address (block_size c) PROT_READ) s)) (\<lambda>s.
                      bindE (wb_erase E r cache_index s) (\<lambda>s.
                        Inr (cache_unlock r cache_index (upd r (set_dirty cache_index CLEAN) s))))
                 else Inr (cache_unlock r cache_index s)))"

definition selective_release ::
  "ext \<Rightarrow> swdsm_config \<Rightarrow> nat \<Rightarrow> nat \<Rightarrow> nat \<Rightarrow> cluster \<Rightarrow> argo_error + cluster" where
  "selective_release E c r addr sz s =
     (if sz = 0 then Inr s
      else foldE (selective_release_page E c r) (selective_pages c addr sz) s)"

end
