(* ===== verification/Directory_Bits.thy ===== *)
theory Directory_Bits
  imports Swdsm_Load
begin

text \<open>
  The Pyxis directory keeps one bit per node in a 64-bit word. This theory reads such a word as
  the set of ranks it contains and shows what the bit tricks of the backend compute on it: the
  node bit, masking out a node, \<^verbatim>\<open>isZeroOrPowerOf2\<close> and the search for the rank of a single bit.
\<close>

section \<open>Directory words as sets of ranks\<close>

definition ranks :: "u64 \<Rightarrow> nat set" where
  "ranks w = {n. bit w n}"

lemma ranks_0 [simp]: "ranks 0 = {}"
  by (simp add: ranks_def)

lemma ranks_or [simp]: "ranks (v OR w) = ranks v \<union> ranks w"
  by (auto simp: ranks_def bit_or_iff)

lemma bit_node_bit: "r < 64 \<Longrightarrow> bit (node_bit r) n \<longleftrightarrow> n = r"
  by (auto simp: node_bit_def bit_exp_iff)

lemma ranks_node_bit [simp]: "r < 64 \<Longrightarrow> ranks (node_bit r) = {r}"
  by (auto simp: ranks_def bit_node_bit)

lemma ranks_and_not [simp]: "r < 64 \<Longrightarrow> ranks (w AND NOT (node_bit r)) = ranks w - {r}"
  by (auto simp: ranks_def bit_and_iff bit_not_iff bit_node_bit dest: bit_imp_le_length)

lemma ranks_inject: "ranks v = ranks w \<longleftrightarrow> v = w"
  by (metis (full_types) bit_eq_iff mem_Collect_eq ranks_def)

lemma ranks_empty_iff [simp]: "ranks w = {} \<longleftrightarrow> w = 0"
  by (metis ranks_0 ranks_inject)

lemma node_bit_neq_0 [simp]: "r < 64 \<Longrightarrow> node_bit r \<noteq> 0"
  by (metis insert_not_empty ranks_0 ranks_node_bit)

lemma eq_node_bit_iff: "r < 64 \<Longrightarrow> w = node_bit r \<longleftrightarrow> ranks w = {r}"
  by (metis ranks_inject ranks_node_bit)

lemma and_node_bit_iff:
  assumes "r < 64"
  shows "w AND node_bit r = 0 \<longleftrightarrow> r \<notin> ranks w"
    and "w AND node_bit r = node_bit r \<longleftrightarrow> r \<in> ranks w"
    and "node_bit r AND w = 0 \<longleftrightarrow> r \<notin> ranks w"
proof -
  have "ranks (w AND node_bit r) = ranks w \<inter> {r}" and "ranks (node_bit r AND w) = ranks w \<inter> {r}"
    using assms by (auto simp: ranks_def bit_and_iff bit_node_bit)
  then show "w AND node_bit r = 0 \<longleftrightarrow> r \<notin> ranks w"
    and "w AND node_bit r = node_bit r \<longleftrightarrow> r \<in> ranks w"
    and "node_bit r AND w = 0 \<longleftrightarrow> r \<notin> ranks w"
    using assms by (auto simp: eq_node_bit_iff simp flip: ranks_empty_iff)
qed

text \<open>The bit trick \<^verbatim>\<open>(x & (x - 1)) == 0\<close> says that at most one rank is in the set.\<close>

lemma nat_bit_minus_1_above:
  assumes "bit (a::nat) m" and "m < n"
  shows "bit (a - 1) n \<longleftrightarrow> bit a n"
proof -
  have "bit (take_bit n a) m" using assms by (simp add: bit_take_bit_iff)
  then have "take_bit n a \<noteq> 0" by (metis bit_0_eq bot_apply bot_bool_def)
  then have "a mod 2 ^ n \<noteq> 0" by (simp add: take_bit_eq_mod)
  moreover from this obtain b where "a = Suc b" by (cases a) auto
  ultimately show ?thesis by (simp add: bit_iff_odd div_Suc)
qed

lemma bit_minus_1_above:
  assumes "bit (w::u64) m" and "m < n"
  shows "bit (w - 1) n \<longleftrightarrow> bit w n"
proof -
  have "w \<noteq> 0" using assms(1) by auto
  then have "unat (w - 1) = unat w - 1" by (rule unat_minus_one)
  moreover have "bit (unat w) m" using assms(1) by (simp add: bit_unsigned_iff)
  ultimately have "bit (unat (w - 1)) n \<longleftrightarrow> bit (unat w) n"
    using assms(2) nat_bit_minus_1_above by metis
  then show ?thesis by (simp add: bit_unsigned_iff)
qed

lemma isZeroOrPowerOf2_iff: "isZeroOrPowerOf2 w \<longleftrightarrow> (\<forall>m\<in>ranks w. \<forall>n\<in>ranks w. m = n)"
proof
  assume z: "isZeroOrPowerOf2 w"
  show "\<forall>m\<in>ranks w. \<forall>n\<in>ranks w. m = n"
  proof (intro ballI, rule ccontr)
    fix m n assume "m \<in> ranks w" and "n \<in> ranks w" and "m \<noteq> n"
    then obtain k l where "bit w k" and "bit w l" and "k < l"
      by (metis linorder_neqE_nat mem_Collect_eq ranks_def)
    then have "bit (w AND (w - 1)) l" by (simp add: bit_and_iff bit_minus_1_above)
    with z show False by (simp add: isZeroOrPowerOf2_def)
  qed
next
  assume one: "\<forall>m\<in>ranks w. \<forall>n\<in>ranks w. m = n"
  show "isZeroOrPowerOf2 w"
  proof (cases "w = 0")
    case False
    then obtain r where r: "r \<in> ranks w" by (metis ranks_empty_iff ex_in_conv)
    then have "r < 64" by (auto simp: ranks_def dest: bit_imp_le_length)
    moreover from one r have "ranks w = {r}" by blast
    ultimately have "w = 2 ^ r" by (simp add: eq_node_bit_iff [symmetric] node_bit_def)
    moreover have "(2 ^ r :: u64) AND (2 ^ r - 1) = 0"
      by (rule bit_eqI) (auto simp: bit_and_iff bit_exp_iff bit_mask_iff simp flip: mask_eq_exp_minus_1)
    ultimately show ?thesis by (simp add: isZeroOrPowerOf2_def)
  qed (simp add: isZeroOrPowerOf2_def)
qed

lemma find_owner_single:
  assumes "ranks w = {m}" and "m < numtasks c" and "numtasks c \<le> 64"
  shows "find_owner c d w = m"
proof -
  have "List.find (\<lambda>n. node_bit n = w) [0..<numtasks c] = Some m"
    unfolding find_Some_iff using assms
    by (intro exI [of _ m]) (auto simp: eq_node_bit_iff eq_commute [of _ w])
  then show ?thesis by (simp add: find_owner_def)
qed

lemma ranks_less_64: "n \<in> ranks w \<Longrightarrow> n < 64"
  by (auto simp: ranks_def dest: bit_imp_le_length)
end
