(* ===== verification/Cache_Invariant.thy ===== *)
theory Cache_Invariant
  imports Swdsm_Sync Directory_Bits
begin

text \<open>
  The invariant of one node's page cache and what writing back does to the cluster.
  \<open>node_ok\<close> says that the cache control array, the virtual memory mapping, the page
  protections and the write buffer agree; it is indexed by the set \<open>L\<close> of cache locks held and
  the set \<open>D\<close> of dirty entries not yet in the write buffer, both empty between operations.
  \<open>wrote_back c r X s t\<close> is the effect of writing back the entries \<open>X\<close> of node \<open>r\<close>; the
  loops of the write buffer are shown to have exactly that effect.
\<close>

section \<open>Observations\<close>

text \<open>
  The state of the cluster page by page: whether node \<open>n\<close> caches page \<open>p\<close> and holds unwritten
  changes to it, byte \<open>j\<close> of its copy, of its twin and of the home memory, and the sharers and
  writers that node \<open>n\<close>'s directory records for \<open>p\<close>.
\<close>

abbreviation slot :: "swdsm_config \<Rightarrow> cluster \<Rightarrow> nat \<Rightarrow> nat \<Rightarrow> control_data" where
  "slot c s n p \<equiv> cacheControl (s n) (getCacheIndex c p)"

definition cached :: "swdsm_config \<Rightarrow> cluster \<Rightarrow> nat \<Rightarrow> nat \<Rightarrow> bool" where
  "cached c s n p \<longleftrightarrow> tag (slot c s n p) = p \<and> state (slot c s n p) = VALID"

definition dirty_at :: "swdsm_config \<Rightarrow> cluster \<Rightarrow> nat \<Rightarrow> nat \<Rightarrow> bool" where
  "dirty_at c s n p \<longleftrightarrow> tag (slot c s n p) = p \<and> dirty (slot c s n p) = DIRTY"

definition cache_byte :: "swdsm_config \<Rightarrow> cluster \<Rightarrow> nat \<Rightarrow> nat \<Rightarrow> nat \<Rightarrow> byte" where
  "cache_byte c s n p j = backing (s n) (PAGE_SIZE c * getCacheIndex c p + j)"

definition twin_byte :: "swdsm_config \<Rightarrow> cluster \<Rightarrow> nat \<Rightarrow> nat \<Rightarrow> nat \<Rightarrow> byte" where
  "twin_byte c s n p j = pagecopy (s n) (getCacheIndex c p * PAGE_SIZE c + j)"

definition home_byte :: "swdsm_config \<Rightarrow> cluster \<Rightarrow> nat \<Rightarrow> nat \<Rightarrow> byte" where
  "home_byte c s p j = data_window c (s (home_of c p)) (off_of c p + j)"

definition sharers :: "swdsm_config \<Rightarrow> cluster \<Rightarrow> nat \<Rightarrow> nat \<Rightarrow> nat set" where
  "sharers c s n p = ranks (globalSharers (s n) (get_classification_index c p))"

definition writers :: "swdsm_config \<Rightarrow> cluster \<Rightarrow> nat \<Rightarrow> nat \<Rightarrow> nat set" where
  "writers c s n p = ranks (globalSharers (s n) (get_classification_index c p + 1))"

section \<open>The invariant of one node\<close>

text \<open>
  The protection of a cached page follows its state. A remote page that is not the tag of its
  cache entry is inaccessible, so every access to it faults; an accessible home page is mapped
  to this node's share of the global memory.
\<close>

definition slot_prot :: "control_data \<Rightarrow> prot" where
  "slot_prot cc = (if state cc = INVALID then PROT_NONE
                   else if dirty cc = DIRTY then PROT_READ_WRITE else PROT_READ)"

definition slot_ok :: "swdsm_config \<Rightarrow> nat \<Rightarrow> node \<Rightarrow> nat \<Rightarrow> bool" where
  "slot_ok c r nd i \<longleftrightarrow> (let cc = cacheControl nd i in
      (state cc = INVALID \<longrightarrow> dirty cc = CLEAN)
    \<and> (state cc = VALID \<longrightarrow> touchedcache nd i)
    \<and> (if tag cc = GLOBAL_NULL c then state cc = INVALID \<and> \<not> touchedcache nd i
       else is_page c (tag cc) \<and> getCacheIndex c (tag cc) = i \<and> home_of c (tag cc) \<noteq> r
          \<and> vmap nd (tag cc) = Some (PAGE_SIZE c * i) \<and> vprot nd (tag cc) = slot_prot cc))"

definition pages_ok :: "swdsm_config \<Rightarrow> nat \<Rightarrow> node \<Rightarrow> bool" where
  "pages_ok c r nd \<longleftrightarrow> (\<forall>p. is_page c p \<longrightarrow>
      (if home_of c p = r
       then vprot nd p \<noteq> PROT_NONE \<longrightarrow> vmap nd p = Some (cacheoffset c + off_of c p)
       else tag (cacheControl nd (getCacheIndex c p)) \<noteq> p \<longrightarrow> vprot nd p = PROT_NONE))"

definition buffer_ok :: "swdsm_config \<Rightarrow> nat set \<Rightarrow> node \<Rightarrow> bool" where
  "buffer_ok c D nd \<longleftrightarrow> distinct (wb_buffer nd) \<and> D \<inter> set (wb_buffer nd) = {}
     \<and> (\<forall>i. i < cachesize c \<and> dirty (cacheControl nd i) = DIRTY \<longleftrightarrow> i \<in> set (wb_buffer nd) \<or> i \<in> D)"

definition node_ok :: "swdsm_config \<Rightarrow> nat set \<Rightarrow> nat set \<Rightarrow> nat \<Rightarrow> node \<Rightarrow> bool" where
  "node_ok c L D r nd \<longleftrightarrow> (\<forall>i < cachesize c. slot_ok c r nd i) \<and> pages_ok c r nd
     \<and> buffer_ok c D nd \<and> cache_locks nd = (\<lambda>i. i \<in> L)"

lemma slot_ok_cong:
  "cacheControl nd' i = cacheControl nd i \<Longrightarrow> touchedcache nd' i = touchedcache nd i \<Longrightarrow>
   vmap nd' = vmap nd \<Longrightarrow> vprot nd' = vprot nd \<Longrightarrow> slot_ok c r nd' i = slot_ok c r nd i"
  by (simp add: slot_ok_def)

lemma pages_ok_cong:
  "(\<And>i. tag (cacheControl nd' i) = tag (cacheControl nd i)) \<Longrightarrow> vmap nd' = vmap nd \<Longrightarrow>
   vprot nd' = vprot nd \<Longrightarrow> pages_ok c r nd' = pages_ok c r nd"
  by (simp add: pages_ok_def)

lemma node_ok_cong:
  "cacheControl nd' = cacheControl nd \<Longrightarrow> touchedcache nd' = touchedcache nd \<Longrightarrow>
   vmap nd' = vmap nd \<Longrightarrow> vprot nd' = vprot nd \<Longrightarrow> wb_buffer nd' = wb_buffer nd \<Longrightarrow>
   cache_locks nd' = cache_locks nd \<Longrightarrow> node_ok c L D r nd' = node_ok c L D r nd"
  by (simp add: node_ok_def slot_ok_def pages_ok_def buffer_ok_def)

section \<open>Writing back a set of entries\<close>

definition same_local :: "swdsm_config \<Rightarrow> node \<Rightarrow> node \<Rightarrow> bool" where
  "same_local c nd nd' \<longleftrightarrow> touchedcache nd' = touchedcache nd \<and> cache_locks nd' = cache_locks nd
     \<and> vmap nd' = vmap nd \<and> pagecopy nd' = pagecopy nd \<and> globalSharers nd' = globalSharers nd
     \<and> (\<forall>k < cacheoffset c. backing nd' k = backing nd k)"

definition wrote_back :: "swdsm_config \<Rightarrow> nat \<Rightarrow> nat set \<Rightarrow> cluster \<Rightarrow> cluster \<Rightarrow> bool" where
  "wrote_back c r X s t \<longleftrightarrow>
     (\<forall>n. same_local c (s n) (t n))
   \<and> (\<forall>n. n \<noteq> r \<longrightarrow> cacheControl (t n) = cacheControl (s n) \<and> vprot (t n) = vprot (s n)
               \<and> wb_buffer (t n) = wb_buffer (s n))
   \<and> cacheControl (t r) = (\<lambda>i. if i \<in> X then (cacheControl (s r) i)\<lparr>dirty := CLEAN\<rparr>
                                else cacheControl (s r) i)
   \<and> (\<forall>p. is_page c p \<longrightarrow> vprot (t r) p = (if getCacheIndex c p \<in> X \<and> tag (slot c s r p) = p
                              then PROT_READ else vprot (s r) p))
   \<and> (\<forall>p j. is_page c p \<and> j < PAGE_SIZE c \<longrightarrow> home_byte c t p j =
        (if getCacheIndex c p \<in> X \<and> tag (slot c s r p) = p \<and> cache_byte c s r p j \<noteq> twin_byte c s r p j
         then cache_byte c s r p j else home_byte c s p j))"

lemma same_local_refl [simp]: "same_local c nd nd"
  by (simp add: same_local_def)

lemma same_local_trans: "same_local c a b \<Longrightarrow> same_local c b d \<Longrightarrow> same_local c a d"
  by (simp add: same_local_def)

lemma same_local_set_window [simp]: "same_local c nd (set_data_window c w nd)"
  by (simp add: same_local_def set_data_window_backing)

lemma wrote_back_empty: "wrote_back c r {} s s"
  by (simp add: wrote_back_def)


locale dsm = externals E + dsm_config c for E c
begin

lemma block_size_eq [simp]: "block_size c = PAGE_SIZE c"
  by (simp add: block_size_def cacheline)

lemma page_range [simp]: "pages_of c a (PAGE_SIZE c) = [a]"
proof -
  have "(PAGE_SIZE c + PAGE_SIZE c - 1) div PAGE_SIZE c = 1"
    using page_pos by (intro div_nat_eqI) simp_all
  then show ?thesis by (simp add: pages_of_def c_range_def)
qed

lemma mprotect_page: "mprotect c a (PAGE_SIZE c) p nd = nd\<lparr>vprot := (vprot nd)(a := p)\<rparr>"
  by (simp add: mprotect_def fun_upd_def)

lemma map_memory_page:
  "map_memory c a (PAGE_SIZE c) off p nd = nd\<lparr>vmap := (vmap nd)(a := Some off), vprot := (vprot nd)(a := p)\<rparr>"
  by (cases nd) (simp add: map_memory_def mprotect_def fun_eq_iff)

lemma cache_index_less: "getCacheIndex c p < cachesize c"
  using cachesize_pos by (simp add: getCacheIndex_def)

lemma cache_area: "i < cachesize c \<Longrightarrow> j < PAGE_SIZE c \<Longrightarrow> PAGE_SIZE c * i + j < cacheoffset c"
  using block_offset_less [of i "cachesize c" j "PAGE_SIZE c"] cache_below
  by (simp add: mult.commute)

lemma same_local_bytes:
  assumes "same_local c (s n) (t n)" and "j < PAGE_SIZE c"
  shows "cache_byte c t n p j = cache_byte c s n p j" and "twin_byte c t n p j = twin_byte c s n p j"
  using assms cache_area [OF cache_index_less assms(2)]
  by (simp_all add: cache_byte_def twin_byte_def same_local_def)

lemma wrote_back_union:
  assumes X: "wrote_back c r X s t" and Y: "wrote_back c r Y t u" and "X \<inter> Y = {}"
  shows "wrote_back c r (X \<union> Y) s u"
proof -
  have l: "same_local c (s n) (t n)" for n using X by (simp add: wrote_back_def)
  have cc: "cacheControl (t r) i = (if i \<in> X then (cacheControl (s r) i)\<lparr>dirty := CLEAN\<rparr>
      else cacheControl (s r) i)" for i using X by (simp add: wrote_back_def)
  then have tags: "tag (slot c t r p) = tag (slot c s r p)" for p by simp
  have "home_byte c u p j =
        (if getCacheIndex c p \<in> X \<union> Y \<and> tag (slot c s r p) = p \<and> cache_byte c s r p j \<noteq> twin_byte c s r p j
         then cache_byte c s r p j else home_byte c s p j)" if p: "is_page c p" "j < PAGE_SIZE c" for p j
  proof -
    note b = same_local_bytes [where s = s and t = t and n = r, OF l p(2)]
    show ?thesis using X Y p assms(3) by (auto simp: wrote_back_def tags b)
  qed
  moreover have "vprot (u r) p = (if getCacheIndex c p \<in> X \<union> Y \<and> tag (slot c s r p) = p
                              then PROT_READ else vprot (s r) p)" if "is_page c p" for p
    using X Y that by (auto simp: wrote_back_def tags)
  moreover have "cacheControl (u r) = (\<lambda>i. if i \<in> X \<union> Y then (cacheControl (s r) i)\<lparr>dirty := CLEAN\<rparr>
                                else cacheControl (s r) i)"
    using X Y by (auto simp: wrote_back_def fun_eq_iff)
  moreover have "same_local c (s n) (u n)" for n
    using X Y same_local_trans [of c "s n" "t n" "u n"] by (simp add: wrote_back_def)
  ultimately show ?thesis using X Y by (simp add: wrote_back_def)
qed

lemma store_lines_eq: "store_lines E c r i a s = storepageDIFF E c r i a s"
  by (simp add: store_lines_def cacheline) (cases "storepageDIFF E c r i a s"; simp)

lemma in_cacheI: "i < cachesize c \<Longrightarrow> vmap nd p = Some (PAGE_SIZE c * i) \<Longrightarrow> in_cache c nd p"
  using cache_below mult_le_mono1 [of "Suc i" "cachesize c" "PAGE_SIZE c"]
  by (auto simp: in_cache_def mult.commute)

text \<open>Merging one cached page into its home changes the home bytes of that page only.\<close>

lemma page_merge_home_byte:
  assumes "is_page c p" and "vmap (s r) p = Some (PAGE_SIZE c * getCacheIndex c p)"
    and "is_page c q" and "j < PAGE_SIZE c"
  defines "t \<equiv> page_merge c r (getCacheIndex c p) p (home_of c p) (off_of c p) (PAGE_SIZE c) s"
  shows "home_byte c t q j = (if q = p \<and> cache_byte c s r p j \<noteq> twin_byte c s r p j
                              then cache_byte c s r p j else home_byte c s q j)"
proof -
  have rd: "vm_read c (s r) (p + j) = cache_byte c s r p j" if "j < PAGE_SIZE c" for j
    using assms(1,2) that by (simp add: vm_read_page is_page_def cache_byte_def)
  show ?thesis
  proof (cases "home_of c q = home_of c p")
    case False
    then show ?thesis by (auto simp: t_def page_merge_def home_byte_def)
  next
    case same: True
    show ?thesis
    proof (cases "q = p")
      case True
      then show ?thesis
        using assms(4) rd by (simp add: t_def page_merge_def home_byte_def merge_def twin_byte_def)
    next
      case False
      then have "\<not> (off_of c p \<le> off_of c q + j \<and> off_of c q + j < off_of c p + PAGE_SIZE c)"
        using page_ranges_disjoint [OF assms(1,3) same [symmetric], of "off_of c q + j - off_of c p" j]
          assms(4) by (metis add_diff_inverse_nat linorder_not_less nat_add_left_cancel_less)
      then have "merge (off_of c p) (PAGE_SIZE c) new twin old (off_of c q + j) = old (off_of c q + j)"
        for new twin old :: "nat \<Rightarrow> byte" by (auto simp: merge_def)
      with False same show ?thesis by (simp add: t_def page_merge_def home_byte_def)
    qed
  qed
qed

lemma page_merge_local: "same_local c (s n) (page_merge c r i p h d m s n)"
  by (cases "n = h") (simp_all add: page_merge_def)

lemma page_merge_frame [simp]:
  "cacheControl (page_merge c r i p h d m s n) = cacheControl (s n)"
  "vprot (page_merge c r i p h d m s n) = vprot (s n)"
  "wb_buffer (page_merge c r i p h d m s n) = wb_buffer (s n)"
  by (cases "n = h", simp_all add: page_merge_def)+

lemma home_byte_cong:
  "(\<And>n. backing (t n) = backing (s n)) \<Longrightarrow> home_byte c t = home_byte c s"
  by (intro ext) (simp add: home_byte_def data_window_def)

lemma write_back_index_effect:
  assumes "i < cachesize c" and "slot_ok c r (s r) i" and "dirty (cacheControl (s r) i) = DIRTY"
    and "\<not> cache_locks (s r) i"
  shows "\<exists>t. write_back_index E c r i s = Inr t \<and> wrote_back c r {i} s t
             \<and> wb_buffer (t r) = wb_buffer (s r)"
proof -
  define p where "p = tag (cacheControl (s r) i)"
  from assms(2,3) have p: "is_page c p" "getCacheIndex c p = i" "vmap (s r) p = Some (PAGE_SIZE c * i)"
    by (auto simp: slot_ok_def Let_def p_def split: if_splits)
  define s1 where "s1 = upd r (\<lambda>nd. set_dirty i CLEAN (mprotect c p (PAGE_SIZE c) PROT_READ
      (nd\<lparr>cache_locks := (cache_locks nd)(i := True)\<rparr>))) s"
  define t where "t = cache_unlock r i (upd r (\<lambda>nd. nd\<lparr>write_misses := add64 (write_misses nd) 1\<rparr>)
             (page_merge c r i p (home_of c p) (off_of c p) (PAGE_SIZE c) s1))"
  have st: "storepageDIFF E c r i p s1 = Inr (upd r (\<lambda>nd. nd\<lparr>write_misses := add64 (write_misses nd) 1\<rparr>)
             (page_merge c r i p (home_of c p) (off_of c p) (PAGE_SIZE c) s1))"
    using p assms(1) by (intro storepageDIFF_merge get_homenode_eq get_offset_eq)
      (auto simp: is_page_def s1_def set_dirty_def intro!: in_cacheI)
  have "write_back_index E c r i s = Inr t"
    using assms st by (simp add: write_back_index_def cache_lock_def Let_def p_def [symmetric]
        store_lines_eq s1_def t_def)
  moreover have "wrote_back c r {i} s t"
    unfolding wrote_back_def
  proof (intro conjI allI impI)
    fix n
    show "same_local c (s n) (t n)"
      using assms(4) page_merge_local [of s1 n r i p "home_of c p" "off_of c p" "PAGE_SIZE c"]
      by (cases "n = r") (auto simp: t_def s1_def cache_unlock_def set_dirty_def same_local_def
          fun_upd_idem_iff)
  next
    fix q j assume q: "is_page c q \<and> j < PAGE_SIZE c"
    have "home_byte c t = home_byte c (page_merge c r i p (home_of c p) (off_of c p) (PAGE_SIZE c) s1)"
      by (rule home_byte_cong) (simp add: t_def cache_unlock_def upd_def)
    moreover have "vmap (s1 r) p = Some (PAGE_SIZE c * getCacheIndex c p)"
      using p by (simp add: s1_def set_dirty_def)
    moreover have "home_byte c s1 = home_byte c s"
      by (rule home_byte_cong) (simp add: s1_def set_dirty_def upd_def)
    moreover have "cache_byte c s1 = cache_byte c s" "twin_byte c s1 = twin_byte c s"
      by (intro ext; simp add: cache_byte_def twin_byte_def s1_def set_dirty_def upd_def)+
    ultimately show "home_byte c t q j =
        (if getCacheIndex c q \<in> {i} \<and> tag (slot c s r q) = q \<and> cache_byte c s r q j \<noteq> twin_byte c s r q j
         then cache_byte c s r q j else home_byte c s q j)"
      using page_merge_home_byte [of p s1 r q j] p q by (auto simp: p_def)
  qed (use p(2) p_def in \<open>auto simp: t_def s1_def cache_unlock_def set_dirty_def mprotect_page\<close>)
  moreover have "wb_buffer (t r) = wb_buffer (s r)"
    by (simp add: t_def s1_def set_dirty_def cache_unlock_def)
  ultimately show ?thesis by blast
qed

lemma wrote_back_node_ok:
  assumes "wrote_back c r X s t" and "node_ok c L D r (s r)" and "X \<subseteq> set (wb_buffer (s r))"
    and "wb_buffer (t r) = filter (\<lambda>i. i \<notin> X) (wb_buffer (s r))"
  shows "node_ok c L D r (t r)"
proof -
  have cc: "cacheControl (t r) i = (if i \<in> X then (cacheControl (s r) i)\<lparr>dirty := CLEAN\<rparr>
      else cacheControl (s r) i)" for i using assms(1) by (simp add: wrote_back_def)
  have vp: "vprot (t r) p = (if getCacheIndex c p \<in> X \<and> tag (slot c s r p) = p
      then PROT_READ else vprot (s r) p)" if "is_page c p" for p using assms(1) that by (simp add: wrote_back_def)
  have loc: "same_local c (s r) (t r)" using assms(1) by (simp add: wrote_back_def)
  have dirtyX: "dirty (cacheControl (s r) i) = DIRTY" if "i \<in> X" for i
    using assms(2,3) that by (auto simp: node_ok_def buffer_ok_def)
  have X: "X \<subseteq> {i. i < cachesize c}" using assms(2,3) by (auto simp: node_ok_def buffer_ok_def)
  have "slot_ok c r (t r) i" if "i < cachesize c" for i
  proof -
    have "slot_ok c r (s r) i" using assms(2) that by (simp add: node_ok_def)
    then show ?thesis using dirtyX [of i] loc
      by (auto simp: slot_ok_def cc vp Let_def same_local_def slot_prot_def split: if_splits)
  qed
  moreover have "pages_ok c r (t r)"
    unfolding pages_ok_def
  proof (intro allI impI)
    fix p assume p: "is_page c p"
    have s: "slot_ok c r (s r) (getCacheIndex c p)" and ps: "pages_ok c r (s r)"
      using assms(2) cache_index_less by (auto simp: node_ok_def)
    from p null have "p \<noteq> GLOBAL_NULL c" by (auto simp: is_page_def)
    with s have "tag (slot c s r p) = p \<Longrightarrow> home_of c p \<noteq> r"
      by (auto simp: slot_ok_def Let_def)
    with ps p loc show "if home_of c p = r
       then vprot (t r) p \<noteq> PROT_NONE \<longrightarrow> vmap (t r) p = Some (cacheoffset c + off_of c p)
       else tag (slot c t r p) \<noteq> p \<longrightarrow> vprot (t r) p = PROT_NONE"
      by (auto simp: pages_ok_def vp cc same_local_def)
  qed
  moreover have "buffer_ok c D (t r)"
    using assms(2,3) by (auto simp: node_ok_def buffer_ok_def assms(4) cc)
  ultimately show ?thesis using assms(2) loc by (simp add: node_ok_def same_local_def)
qed

lemma wrote_back_buffer:
  "wrote_back c r X (upd r (\<lambda>nd. nd\<lparr>wb_buffer := b\<rparr>) s) t \<longleftrightarrow> wrote_back c r X s t"
proof -
  let ?u = "upd r (\<lambda>nd. nd\<lparr>wb_buffer := b\<rparr>) s"
  have "same_local c (?u n) nd \<longleftrightarrow> same_local c (s n) nd" for n nd
    by (cases "n = r") (simp_all add: same_local_def)
  moreover have "home_byte c ?u = home_byte c s" by (rule home_byte_cong) (simp add: upd_def)
  moreover have "cache_byte c ?u = cache_byte c s" "twin_byte c ?u = twin_byte c s"
    by (intro ext; simp add: cache_byte_def twin_byte_def upd_def)+
  ultimately show ?thesis by (auto simp: wrote_back_def)
qed

lemma pop_dirty_effect:
  assumes "wb_buffer (s r) = x # xs" and "x < cachesize c" "slot_ok c r (s r) x" "dirty (cacheControl (s r) x) = DIRTY" "\<not> cache_locks (s r) x"
  shows "\<exists>t. pop_write_back E c r s = Inr t \<and> wrote_back c r {x} s t \<and> wb_buffer (t r) = xs"
proof -
  let ?u = "upd r (\<lambda>nd. nd\<lparr>wb_buffer := xs\<rparr>) s"
  have "slot_ok c r (?u r) x" using assms(3) slot_ok_cong [of "?u r" x "s r" c r] by simp
  then obtain t where "write_back_index E c r x ?u = Inr t" "wrote_back c r {x} ?u t" "wb_buffer (t r) = wb_buffer (?u r)"
    using write_back_index_effect [of x r ?u] assms by auto
  then show ?thesis using assms(1) by (auto simp: pop_write_back_def wb_pop_def wrote_back_buffer)
qed

lemma pop_write_back_effect:
  assumes "node_ok c L D r (s r)" and "wb_buffer (s r) = x # xs" and "x \<notin> L"
  shows "\<exists>t. pop_write_back E c r s = Inr t \<and> wrote_back c r {x} s t \<and> wb_buffer (t r) = xs"
  using assms by (intro pop_dirty_effect) (auto simp: node_ok_def buffer_ok_def)

lemma wrote_back_slot_ok:
  assumes "wrote_back c r X s t" and "k \<notin> X" and "slot_ok c r (s r) k"
  shows "slot_ok c r (t r) k"
proof -
  have "cacheControl (t r) k = cacheControl (s r) k" "touchedcache (t r) = touchedcache (s r)" "vmap (t r) = vmap (s r)"
    "\<And>p. is_page c p \<Longrightarrow> getCacheIndex c p = k \<Longrightarrow> vprot (t r) p = vprot (s r) p"
    using assms(1,2) by (auto simp: wrote_back_def same_local_def)
  then show ?thesis using assms(3) by (auto simp: slot_ok_def Let_def)
qed

lemma pop_keeps_node_ok:
  assumes "node_ok c L D r (s r)" and "wb_buffer (s r) = x # xs" and "wrote_back c r {x} s t"
    and "wb_buffer (t r) = xs"
  shows "node_ok c L D r (t r)"
proof -
  have "filter (\<lambda>i. i \<notin> {x}) (x # xs) = xs"
    using assms(1,2) by (auto simp: node_ok_def buffer_ok_def filter_id_conv)
  then show ?thesis using assms by (intro wrote_back_node_ok [of r "{x}" s t]) simp_all
qed

lemma flush_loop_effect:
  assumes "node_ok c L D r (s r)" and "wb_buffer (s r) = xs" and "set xs \<inter> L = {}"
  shows "\<exists>t. wb_flush_loop E c r s = Some (Inr t) \<and> wrote_back c r (set xs) s t \<and> wb_buffer (t r) = []"
  using assms
proof (induction xs arbitrary: s)
  case Nil
  then show ?case by (subst wb_flush_loop.simps) (simp add: wb_empty_def wrote_back_empty)
next
  case (Cons x xs)
  from Cons.prems obtain u where u: "pop_write_back E c r s = Inr u" "wrote_back c r {x} s u"
      "wb_buffer (u r) = xs"
    using pop_write_back_effect [of L D r s x xs] by auto
  have "node_ok c L D r (u r)" using Cons.prems u(2,3) by (intro pop_keeps_node_ok [of L D r s x xs u]) auto
  with Cons u obtain t where t: "wb_flush_loop E c r u = Some (Inr t)" "wrote_back c r (set xs) u t"
      "wb_buffer (t r) = []" by fastforce
  have "x \<notin> set xs" using Cons.prems by (auto simp: node_ok_def buffer_ok_def)
  then have "wrote_back c r (set (x # xs)) s t"
    using wrote_back_union [OF u(2) t(2)] by simp
  with t u Cons.prems(2) show ?case
    by (subst wb_flush_loop.simps) (simp add: wb_empty_def)
qed

lemma partial_flush_effect:
  assumes "node_ok c L D r (s r)" and "k \<le> length (wb_buffer (s r))"
    and "set (wb_buffer (s r)) \<inter> L = {}"
  shows "\<exists>t. foldE (\<lambda>_. pop_write_back E c r) [0..<k] s = Inr t
      \<and> wrote_back c r (set (take k (wb_buffer (s r)))) s t \<and> wb_buffer (t r) = drop k (wb_buffer (s r))"
  using assms
proof (induction k)
  case 0
  then show ?case by (simp add: wrote_back_empty)
next
  case (Suc k)
  define xs where "xs = wb_buffer (s r)"
  from Suc obtain u where u: "foldE (\<lambda>_. pop_write_back E c r) [0..<k] s = Inr u"
      "wrote_back c r (set (take k xs)) s u" "wb_buffer (u r) = drop k xs"
    by (auto simp: xs_def)
  have k: "k < length xs" and d: "distinct xs"
    using Suc.prems by (auto simp: xs_def node_ok_def buffer_ok_def)
  have "filter (\<lambda>i. i \<notin> set (take k xs)) xs = drop k xs"
  proof -
    have "filter (\<lambda>i. i \<notin> set (take k xs)) (take k xs @ drop k xs) = drop k xs"
      using d set_take_disj_set_drop_if_distinct [OF d order.refl, of k]
      by (auto simp: filter_id_conv filter_empty_conv simp del: append_take_drop_id)
    then show ?thesis by simp
  qed
  then have ok: "node_ok c L D r (u r)"
    using Suc.prems(1) u(2,3) set_take_subset [of k xs]
    by (intro wrote_back_node_ok [of r "set (take k xs)" s u]) (simp_all add: xs_def)
  have dr: "drop k xs = xs ! k # drop (Suc k) xs" using k by (simp add: Cons_nth_drop_Suc)
  have "xs ! k \<notin> L" using Suc.prems(3) nth_mem [OF k] by (auto simp: xs_def)
  with ok u(3) dr obtain t where t: "pop_write_back E c r u = Inr t" "wrote_back c r {xs ! k} u t"
      "wb_buffer (t r) = drop (Suc k) xs"
    using pop_write_back_effect [of L D r u "xs ! k" "drop (Suc k) xs"] by auto
  have "wrote_back c r (set (take (Suc k) xs)) s t"
    using wrote_back_union [OF u(2) t(2)] k d
    by (auto simp: take_Suc_conv_app_nth nth_eq_iff_index_eq in_set_conv_nth)
  with t u show ?case by (auto simp: foldE_append xs_def)
qed

end
end
