(* ===== verification/Coherence_Invariant.thy ===== *)
theory Coherence_Invariant
  imports Cache_Invariant
begin

text \<open>
  The invariant of the whole cluster. \<open>dir_ok\<close> relates the directory copies: a node that
  shares a page is known to the home node and knows of some other writer as soon as there is
  one, and no node knows of a writer that the home does not know. \<open>link_ok\<close> relates directory and cache,
  \<open>data_ok\<close> says that the copy (or, once modified, the twin) of a page nobody else writes
  agrees with the home memory. The theory shows that flushing, adding to the write buffer and
  self invalidation keep the invariant, and what they leave behind.
\<close>

section \<open>The invariant\<close>

lemma filter_drop_take:
  assumes "distinct xs"
  shows "filter (\<lambda>i. i \<notin> set (take k xs)) xs = drop k xs"
proof -
  have "filter (\<lambda>i. i \<notin> set (take k xs)) (take k xs @ drop k xs) = drop k xs"
    using set_take_disj_set_drop_if_distinct [OF assms order.refl, of k]
    by (auto simp: filter_id_conv filter_empty_conv simp del: append_take_drop_id)
  then show ?thesis by simp
qed

definition dir_ok :: "swdsm_config \<Rightarrow> cluster \<Rightarrow> bool" where
  "dir_ok c s \<longleftrightarrow>
     (\<forall>n < numtasks c. \<forall>k. ranks (globalSharers (s n) k) \<subseteq> {..<numtasks c})
   \<and> (\<forall>n < numtasks c. \<forall>p. is_page c p \<longrightarrow> writers c s n p \<subseteq> writers c s (home_of c p) p)
   \<and> (\<forall>n < numtasks c. \<forall>p. is_page c p \<and> home_of c p \<noteq> n \<and> n \<in> sharers c s n p \<longrightarrow>
        n \<in> sharers c s (home_of c p) p
      \<and> (writers c s (home_of c p) p \<subseteq> {n} \<or> \<not> writers c s n p \<subseteq> {n}))"

definition link_ok :: "swdsm_config \<Rightarrow> cluster \<Rightarrow> bool" where
  "link_ok c s \<longleftrightarrow> (\<forall>n < numtasks c. \<forall>p. is_page c p \<longrightarrow>
     (if home_of c p = n
      then (vprot (s n) p = PROT_READ_WRITE \<longrightarrow> n \<in> writers c s n p)
         \<and> (n \<in> sharers c s n p \<or> n \<in> writers c s n p \<longrightarrow> vprot (s n) p \<noteq> PROT_NONE)
      else (cached c s n p \<longrightarrow> n \<in> sharers c s n p)
         \<and> (dirty_at c s n p \<longrightarrow> (\<forall>m. m \<noteq> n \<longrightarrow> \<not> writers c s (home_of c p) p \<subseteq> {m}))))"

definition data_ok :: "swdsm_config \<Rightarrow> cluster \<Rightarrow> bool" where
  "data_ok c s \<longleftrightarrow> (\<forall>n < numtasks c. \<forall>p j. is_page c p \<and> j < PAGE_SIZE c \<and> home_of c p \<noteq> n
      \<and> cached c s n p \<and> writers c s (home_of c p) p \<subseteq> {n} \<longrightarrow>
        home_byte c s p j = (if dirty_at c s n p then twin_byte c s n p j else cache_byte c s n p j))"

definition coherent_at :: "swdsm_config \<Rightarrow> nat \<Rightarrow> nat set \<Rightarrow> nat set \<Rightarrow> cluster \<Rightarrow> bool" where
  "coherent_at c r L D s \<longleftrightarrow>
     (\<forall>n < numtasks c. node_ok c (if n = r then L else {}) (if n = r then D else {}) n (s n))
   \<and> dir_ok c s \<and> link_ok c s \<and> data_ok c s"

definition coherent :: "swdsm_config \<Rightarrow> cluster \<Rightarrow> bool" where
  "coherent c s \<longleftrightarrow> (\<forall>n < numtasks c. node_ok c {} {} n (s n)) \<and> dir_ok c s \<and> link_ok c s \<and> data_ok c s"

lemma coherent_at_empty: "coherent_at c r {} {} s \<longleftrightarrow> coherent c s"
  by (simp add: coherent_at_def coherent_def)

lemma coherent_at_node: "coherent_at c r L D s \<Longrightarrow> r < numtasks c \<Longrightarrow> node_ok c L D r (s r)"
  by (auto simp: coherent_at_def)

lemma coherent_at_other: "coherent_at c r L D s \<Longrightarrow> n < numtasks c \<Longrightarrow> n \<noteq> r \<Longrightarrow> node_ok c {} {} n (s n)"
  by (auto simp: coherent_at_def)

lemma coherent_atI:
  assumes "node_ok c L D r (s r)" and "\<And>n. n < numtasks c \<Longrightarrow> n \<noteq> r \<Longrightarrow> node_ok c {} {} n (s n)"
    and "dir_ok c s" and "link_ok c s" and "data_ok c s"
  shows "coherent_at c r L D s"
  using assms by (simp add: coherent_at_def)

text \<open>
  The state in the middle of a self invalidation that started in \<open>s\<^sub>0\<close>: the first \<open>k\<close> entries
  are clean and those still valid may be kept; home memory has changed at most by \<open>r\<close>'s own
  write backs.
\<close>

definition invalidating :: "swdsm_config \<Rightarrow> nat \<Rightarrow> cluster \<Rightarrow> nat \<Rightarrow> bool \<times> cluster \<Rightarrow> bool" where
  "invalidating c r s0 k st \<longleftrightarrow> (let (flushed, s) = st in
     coherent c s
   \<and> (flushed \<longrightarrow> (\<forall>i < cachesize c. dirty (cacheControl (s r) i) = CLEAN))
   \<and> (\<forall>i < k. dirty (cacheControl (s r) i) = CLEAN \<and> (state (cacheControl (s r) i) = VALID \<longrightarrow>
        keep_page r (get_classification_index c (tag (cacheControl (s r) i))) (s r)))
   \<and> (\<forall>p j. is_page c p \<and> j < PAGE_SIZE c \<longrightarrow> home_byte c s p j = home_byte c s0 p j
        \<or> flushed \<and> dirty_at c s0 r p \<and> cache_byte c s0 r p j \<noteq> twin_byte c s0 r p j
            \<and> home_byte c s p j = cache_byte c s0 r p j)
   \<and> (\<not> flushed \<longrightarrow> (\<forall>p. dirty_at c s r p \<longrightarrow> dirty_at c s0 r p)
        \<and> backing (s r) = backing (s0 r) \<and> pagecopy (s r) = pagecopy (s0 r)))"

context dsm
begin

lemma home_less: "is_page c p \<Longrightarrow> home_of c p < numtasks c"
  by (metis get_homenode_eq home_total is_page_def sum.inject(2))

lemma page_not_null: "is_page c p \<Longrightarrow> p \<noteq> GLOBAL_NULL c"
  using null by (auto simp: is_page_def)

lemma rank_64: "n < numtasks c \<Longrightarrow> n < 64"
  using few_nodes by simp

lemma dirty_cached:
  assumes "coherent_at c r L D s" and "r < numtasks c" and "dirty_at c s r p"
  shows "cached c s r p"
proof -
  have "slot_ok c r (s r) (getCacheIndex c p)"
    using coherent_at_node [OF assms(1,2)] cache_index_less by (simp add: node_ok_def)
  with assms(3) show ?thesis
    by (cases "state (slot c s r p)") (simp_all add: slot_ok_def Let_def dirty_at_def cached_def)
qed

lemma wrote_back_views:
  assumes "wrote_back c r X s t"
  shows "cached c t n p \<longleftrightarrow> cached c s n p"
    and "dirty_at c t n p \<longleftrightarrow> dirty_at c s n p \<and> \<not> (n = r \<and> getCacheIndex c p \<in> X)"
    and "sharers c t n p = sharers c s n p" and "writers c t n p = writers c s n p"
  using assms
  by (cases "n = r"; simp add: wrote_back_def cached_def dirty_at_def sharers_def writers_def same_local_def)+

lemma wrote_back_data:
  assumes w: "wrote_back c r X s t" and l: "link_ok c s" and d: "data_ok c s" and r: "r < numtasks c"
    and X: "\<And>i. i \<in> X \<Longrightarrow> dirty (cacheControl (s r) i) = DIRTY"
    and home: "\<And>p. is_page c p \<Longrightarrow> tag (slot c s r p) = p \<Longrightarrow> home_of c p \<noteq> r"
  shows "data_ok c t"
  unfolding data_ok_def
proof (intro allI impI, elim conjE)
  fix n p j
  assume n: "n < numtasks c" and p: "is_page c p" and j: "j < PAGE_SIZE c" and h: "home_of c p \<noteq> n"
    and ca: "cached c t n p" and wr: "writers c t (home_of c p) p \<subseteq> {n}"
  have loc: "same_local c (s n) (t n)" using w by (simp add: wrote_back_def)
  note same = same_local_bytes [of s n t j p, OF loc j] wrote_back_views [OF w]
  have old: "home_byte c s p j = (if dirty_at c s n p then twin_byte c s n p j else cache_byte c s n p j)"
    using d n p j h ca wr unfolding data_ok_def same by blast
  have hb: "home_byte c t p j =
      (if getCacheIndex c p \<in> X \<and> tag (slot c s r p) = p \<and> cache_byte c s r p j \<noteq> twin_byte c s r p j
       then cache_byte c s r p j else home_byte c s p j)" using w p j by (simp add: wrote_back_def)
  show "home_byte c t p j = (if dirty_at c t n p then twin_byte c t n p j else cache_byte c t n p j)"
  proof (cases "getCacheIndex c p \<in> X \<and> tag (slot c s r p) = p")
    case True
    then have "dirty_at c s r p" and "home_of c p \<noteq> r" using X home p by (auto simp: dirty_at_def)
    then have "n = r" using l r p wr unfolding link_ok_def same by metis
    with True old hb \<open>dirty_at c s r p\<close> show ?thesis unfolding same by auto
  next
    case False
    have "dirty_at c t n p \<longleftrightarrow> dirty_at c s n p" unfolding same
      using False by (auto simp: dirty_at_def)
    with False old hb show ?thesis unfolding same by auto
  qed
qed

lemma node_home:
  assumes "node_ok c L D r nd" and "is_page c p" and "tag (cacheControl nd (getCacheIndex c p)) = p"
  shows "home_of c p \<noteq> r" and "vmap nd p = Some (PAGE_SIZE c * getCacheIndex c p)"
    and "vprot nd p = slot_prot (cacheControl nd (getCacheIndex c p))"
  using assms cache_index_less [of p] page_not_null [OF assms(2)]
  by (auto simp: node_ok_def slot_ok_def Let_def)

lemma wrote_back_coherent:
  assumes "coherent_at c r L D s" and r: "r < numtasks c" and w: "wrote_back c r X s t"
    and "X \<subseteq> set (wb_buffer (s r))" and "wb_buffer (t r) = filter (\<lambda>i. i \<notin> X) (wb_buffer (s r))"
  shows "coherent_at c r L D t"
proof -
  have ok: "node_ok c L D r (s r)" and oth: "\<And>n. n < numtasks c \<Longrightarrow> n \<noteq> r \<Longrightarrow> node_ok c {} {} n (s n)"
    and dir: "dir_ok c s" and link: "link_ok c s" and data: "data_ok c s"
    using assms(1) r by (auto simp: coherent_at_def)
  note views = wrote_back_views [OF w]
  have "node_ok c {} {} n (t n)" if "n < numtasks c" "n \<noteq> r" for n
  proof -
    have "node_ok c {} {} n (t n) = node_ok c {} {} n (s n)"
      using w that(2) by (intro node_ok_cong) (simp_all add: wrote_back_def same_local_def)
    with oth that show ?thesis by simp
  qed
  moreover have "node_ok c L D r (t r)" using w ok assms(4,5) by (rule wrote_back_node_ok)
  moreover have "dir_ok c t"
  proof -
    have "globalSharers (t n) = globalSharers (s n)" for n using w by (simp add: wrote_back_def same_local_def)
    with dir show ?thesis by (simp add: dir_ok_def views)
  qed
  moreover have "link_ok c t"
  proof -
    have "vprot (t n) p = vprot (s n) p" if "is_page c p" "home_of c p = n" for n p
      using w that node_home(1) [OF ok that(1)] by (cases "n = r") (auto simp: wrote_back_def)
    with link show ?thesis by (simp add: link_ok_def views)
  qed
  moreover have "data_ok c t"
    using w link data r assms(4) ok node_home(1) [OF ok]
    by (intro wrote_back_data [of r X s t]) (auto simp: node_ok_def buffer_ok_def)
  ultimately show ?thesis by (simp add: coherent_at_def)
qed

lemma wb_flush_coherent:
  assumes "coherent_at c r L D s" and "r < numtasks c" and "set (wb_buffer (s r)) \<inter> L = {}"
  shows "\<exists>t. wb_flush E c r s = Inr t \<and> coherent_at c r L D t
           \<and> wrote_back c r (set (wb_buffer (s r))) s t \<and> wb_buffer (t r) = []"
proof -
  obtain t where t: "wb_flush_loop E c r s = Some (Inr t)" "wrote_back c r (set (wb_buffer (s r))) s t"
      "wb_buffer (t r) = []"
    using flush_loop_effect [of L D r s, OF coherent_at_node [OF assms(1,2)] refl assms(3)] by auto
  have "coherent_at c r L D t"
    using assms(1,2) t(2) by (rule wrote_back_coherent) (simp_all add: t(3))
  with t show ?thesis by (simp add: wb_flush_def delegate wb_flush_locked_def)
qed

lemma coherent_at_cong:
  assumes "\<And>n. cacheControl (t n) = cacheControl (s n) \<and> touchedcache (t n) = touchedcache (s n)
      \<and> cache_locks (t n) = cache_locks (s n) \<and> backing (t n) = backing (s n) \<and> vmap (t n) = vmap (s n)
      \<and> vprot (t n) = vprot (s n) \<and> pagecopy (t n) = pagecopy (s n)
      \<and> globalSharers (t n) = globalSharers (s n) \<and> wb_buffer (t n) = wb_buffer (s n)"
  shows "coherent_at c r L D t \<longleftrightarrow> coherent_at c r L D s"
proof -
  have "node_ok c L' D' n (t n) = node_ok c L' D' n (s n)" for L' D' n
    using assms by (intro node_ok_cong) simp_all
  moreover have "home_byte c t = home_byte c s" using assms by (intro home_byte_cong) simp
  moreover have "cached c t = cached c s" "dirty_at c t = dirty_at c s" "sharers c t = sharers c s"
      "writers c t = writers c s" "cache_byte c t = cache_byte c s" "twin_byte c t = twin_byte c s"
    by (intro ext; simp add: assms cached_def dirty_at_def sharers_def writers_def cache_byte_def
        twin_byte_def)+
  ultimately show ?thesis by (simp add: coherent_at_def dir_ok_def link_ok_def data_ok_def assms)
qed

text \<open>A change local to node \<open>r\<close> that neither adds a cached page nor a dirty one nor alters bytes.\<close>

lemma local_step_coherent:
  assumes co: "coherent_at c r L D s" and r: "r < numtasks c"
    and oth: "\<And>n. n \<noteq> r \<Longrightarrow> t n = s n" and ok: "node_ok c L' D' r (t r)"
    and dir: "globalSharers (t r) = globalSharers (s r)" and bk: "backing (t r) = backing (s r)"
    and tw: "pagecopy (t r) = pagecopy (s r)"
    and ca: "\<And>p. is_page c p \<Longrightarrow> cached c t r p \<Longrightarrow>
               cached c s r p \<and> (dirty_at c t r p \<longleftrightarrow> dirty_at c s r p)"
    and di: "\<And>p. is_page c p \<Longrightarrow> dirty_at c t r p \<Longrightarrow> dirty_at c s r p"
    and rw: "\<And>p. is_page c p \<Longrightarrow> home_of c p = r \<Longrightarrow> vprot (t r) p = PROT_READ_WRITE \<Longrightarrow>
               vprot (s r) p = PROT_READ_WRITE \<or> r \<in> writers c s r p"
    and np: "\<And>p. is_page c p \<Longrightarrow> home_of c p = r \<Longrightarrow> vprot (t r) p = PROT_NONE \<Longrightarrow> vprot (s r) p = PROT_NONE"
  shows "coherent_at c r L' D' t"
proof -
  have g: "globalSharers (t n) = globalSharers (s n)" and b: "backing (t n) = backing (s n)"
    and w: "pagecopy (t n) = pagecopy (s n)" for n
    using oth dir bk tw by (cases "n = r"; simp)+
  have v: "sharers c t = sharers c s" "writers c t = writers c s" "cache_byte c t = cache_byte c s"
      "twin_byte c t = twin_byte c s"
    by (intro ext; simp add: sharers_def writers_def cache_byte_def twin_byte_def g b w)+
  have h: "home_byte c t = home_byte c s" using b by (rule home_byte_cong)
  have ca': "cached c t n p \<Longrightarrow> is_page c p \<Longrightarrow>
      cached c s n p \<and> (dirty_at c t n p \<longleftrightarrow> dirty_at c s n p)" for n p
    using ca oth by (cases "n = r") (auto simp: cached_def dirty_at_def)
  have di': "dirty_at c t n p \<Longrightarrow> is_page c p \<Longrightarrow> dirty_at c s n p" for n p
    using di oth by (cases "n = r") (auto simp: dirty_at_def)
  have rw': "vprot (t n) p = PROT_READ_WRITE \<Longrightarrow> is_page c p \<Longrightarrow> home_of c p = n \<Longrightarrow>
      vprot (s n) p = PROT_READ_WRITE \<or> n \<in> writers c s n p" for n p
    using rw oth by (cases "n = r") auto
  have np': "vprot (t n) p = PROT_NONE \<Longrightarrow> is_page c p \<Longrightarrow> home_of c p = n \<Longrightarrow> vprot (s n) p = PROT_NONE" for n p
    using np oth by (cases "n = r") auto
  have "dir_ok c t" using co by (simp add: coherent_at_def dir_ok_def v g)
  moreover have "link_ok c t"
    using co ca' di' rw' np' unfolding coherent_at_def link_ok_def v by metis
  moreover have "data_ok c t"
    using co ca' unfolding coherent_at_def data_ok_def v h by metis
  ultimately show ?thesis
    using ok oth coherent_at_other [OF co] by (intro coherent_atI) simp_all
qed

lemma buffer_add_coherent:
  assumes "coherent_at c r L {i} s" and "r < numtasks c"
  shows "coherent_at c r L {} (upd r (wb_emplace_back i) s)"
proof (rule local_step_coherent [OF assms])
  let ?t = "upd r (wb_emplace_back i) s"
  show "node_ok c L {} r (?t r)"
    using coherent_at_node [OF assms] slot_ok_cong [of "?t r" _ "s r" c r]
      pages_ok_cong [of "?t r" "s r" c r]
    by (auto simp: node_ok_def buffer_ok_def wb_emplace_back_def)
qed (simp_all add: wb_emplace_back_def cached_def dirty_at_def)

lemma invalidate_coherent:
  assumes co: "coherent_at c r L D s" and r: "r < numtasks c" and i: "i < cachesize c"
    and tg: "tag (cacheControl (s r) i) \<noteq> GLOBAL_NULL c"
    and cl: "dirty (cacheControl (s r) i) = CLEAN"
  shows "coherent_at c r L D (upd r (invalidate_entry c i (tag (cacheControl (s r) i))) s)"
proof -
  define p where "p = tag (cacheControl (s r) i)"
  let ?t = "upd r (invalidate_entry c i p) s"
  have ok: "node_ok c L D r (s r)" using co r by (rule coherent_at_node)
  then have "slot_ok c r (s r) i" using i by (simp add: node_ok_def)
  then have p: "is_page c p" "getCacheIndex c p = i" "home_of c p \<noteq> r"
    using tg by (auto simp: slot_ok_def Let_def p_def)
  note inv = invalidate_entry_def mprotect_page block_size_eq
  have slots: "slot_ok c r (?t r) k" if "k < cachesize c" for k
  proof -
    have sk: "slot_ok c r (s r) k" using ok that by (simp add: node_ok_def)
    show ?thesis
    proof (cases "k = i")
      case True
      with sk tg show ?thesis by (auto simp: inv slot_ok_def Let_def slot_prot_def p_def)
    next
      case False
      then have "tag (cacheControl (s r) k) \<noteq> GLOBAL_NULL c \<Longrightarrow> tag (cacheControl (s r) k) \<noteq> p"
        using sk p(2) by (auto simp: slot_ok_def Let_def)
      with sk False show ?thesis by (auto simp: inv slot_ok_def Let_def)
    qed
  qed
  have "i \<notin> set (wb_buffer (s r)) \<and> i \<notin> D"
    using ok cl unfolding node_ok_def buffer_ok_def by (metis cache_dirty.distinct(1))
  then have "buffer_ok c D (?t r)"
    using ok cl by (auto simp: node_ok_def buffer_ok_def inv)
  moreover have "pages_ok c r (?t r)"
    using ok p by (auto simp: node_ok_def pages_ok_def inv p_def)
  ultimately have "node_ok c L D r (?t r)" using ok slots by (simp add: node_ok_def inv)
  then have "coherent_at c r L D ?t"
    by (rule local_step_coherent [OF co r, rotated])
      (use p in \<open>auto simp: inv cached_def dirty_at_def split: if_splits\<close>)
  then show ?thesis by (simp add: p_def)
qed

lemma flush_partial_coherent:
  assumes co: "coherent_at c r {} {i} s" and r: "r < numtasks c"
    and full: "wb_max_size c \<le> length (wb_buffer (s r))"
  shows "\<exists>u. flush_partial E c r s = Inr u \<and> coherent_at c r {} {i} u
     \<and> (\<forall>k. tag (cacheControl (u r) k) = tag (cacheControl (s r) k))
     \<and> length (wb_buffer (u r)) = length (wb_buffer (s r)) - wb_write_back_size c"
proof -
  let ?k = "wb_write_back_size c" and ?b = "wb_buffer (s r)"
  have ok: "node_ok c {} {i} r (s r)" using co r by (rule coherent_at_node)
  from full write_back_le have "?k \<le> length ?b" by simp
  then obtain u where u: "foldE (\<lambda>_. pop_write_back E c r) [0..<?k] s = Inr u"
      "wrote_back c r (set (take ?k ?b)) s u" "wb_buffer (u r) = drop ?k ?b"
    using partial_flush_effect [of "{}" "{i}" r s ?k] ok by auto
  let ?u = "upd r (\<lambda>nd. nd\<lparr>wb_partial_flush_count := add64 (wb_partial_flush_count nd) 1\<rparr>) u"
  have "distinct ?b" using ok by (simp add: node_ok_def buffer_ok_def)
  then have "coherent_at c r {} {i} u"
    using co r u(2) by (rule_tac wrote_back_coherent)
      (auto simp: u(3) filter_drop_take dest: in_set_takeD)
  then have "coherent_at c r {} {i} ?u"
    by (subst coherent_at_cong [where s = u]) (simp_all add: upd_def)
  moreover have "tag (cacheControl (?u r) k) = tag (cacheControl (s r) k)" for k
    using u(2) by (simp add: wrote_back_def)
  ultimately show ?thesis using u(1,3) by (simp add: flush_partial_def)
qed

lemma wb_add_coherent:
  assumes co: "coherent_at c r {} {i} s" and r: "r < numtasks c"
  shows "\<exists>t. wb_add E c r i s = Inr t \<and> coherent c t \<and> i \<in> set (wb_buffer (t r))
     \<and> (\<forall>k. tag (cacheControl (t r) k) = tag (cacheControl (s r) k))
     \<and> (0 < wb_write_back_size c \<and> length (wb_buffer (s r)) \<le> wb_max_size c \<longrightarrow>
          length (wb_buffer (t r)) \<le> wb_max_size c)"
proof -
  have ok: "node_ok c {} {i} r (s r)" using co r by (rule coherent_at_node)
  then have "i \<notin> set (wb_buffer (s r))" by (simp add: node_ok_def buffer_ok_def)
  obtain u where u: "(if length (wb_buffer (s r)) \<ge> wb_max_size c then flush_partial E c r s else Inr s) = Inr u"
      "coherent_at c r {} {i} u" "\<And>k. tag (cacheControl (u r) k) = tag (cacheControl (s r) k)"
      "0 < wb_write_back_size c \<Longrightarrow> length (wb_buffer (s r)) \<le> wb_max_size c \<Longrightarrow>
         length (wb_buffer (u r)) < wb_max_size c"
    using flush_partial_coherent [OF co r] write_back_le co
    by (cases "wb_max_size c \<le> length (wb_buffer (s r))") fastforce+
  let ?t = "upd r (\<lambda>nd. (wb_emplace_back i nd)\<lparr>wb_page_count := add64 (wb_page_count nd) 1\<rparr>) u"
  have "coherent_at c r {} {} ?t"
    using buffer_add_coherent [OF u(2) r]
    by (subst coherent_at_cong [where s = "upd r (wb_emplace_back i) u"])
      (simp_all add: upd_def wb_emplace_back_def)
  then have "coherent c ?t" by (simp add: coherent_at_empty)
  moreover have "wb_buffer (?t r) = wb_buffer (u r) @ [i]" "cacheControl (?t r) = cacheControl (u r)"
    by (simp_all add: wb_emplace_back_def)
  ultimately show ?thesis
    using u(1,3,4) \<open>i \<notin> _\<close> by (intro exI [of _ ?t])
      (auto simp: wb_add_def delegate wb_add_locked_def wb_has_def Suc_le_eq)
qed

lemma touch_again:
  assumes "touchedcache (s r) i"
  shows "upd r (\<lambda>nd. nd\<lparr>touchedcache := (touchedcache nd)(i := True)\<rparr>) s = s"
proof -
  have "(touchedcache (s r))(i := True) = touchedcache (s r)" using assms by (simp add: fun_upd_idem)
  then show ?thesis by (simp add: upd_def)
qed

lemma flush_invalidating:
  assumes inv: "invalidating c r s0 k (False, s)" and r: "r < numtasks c"
  shows "\<exists>t. wb_flush E c r s = Inr t \<and> invalidating c r s0 k (True, t)
           \<and> (\<forall>i. tag (cacheControl (t r) i) = tag (cacheControl (s r) i))
           \<and> touchedcache (t r) = touchedcache (s r) \<and> globalSharers (t r) = globalSharers (s r)"
proof -
  have co: "coherent_at c r {} {} s" using inv by (simp add: invalidating_def coherent_at_empty)
  then have ok: "node_ok c {} {} r (s r)" using r by (rule coherent_at_node)
  from wb_flush_coherent [OF co r] obtain t where t: "wb_flush E c r s = Inr t"
      "coherent_at c r {} {} t" "wrote_back c r (set (wb_buffer (s r))) s t" "wb_buffer (t r) = []"
    by auto
  have cc: "cacheControl (t r) i = (if i \<in> set (wb_buffer (s r)) then (cacheControl (s r) i)\<lparr>dirty := CLEAN\<rparr>
      else cacheControl (s r) i)" for i using t(3) by (simp add: wrote_back_def)
  have g: "globalSharers (t r) = globalSharers (s r)" "touchedcache (t r) = touchedcache (s r)"
    using t(3) by (simp_all add: wrote_back_def same_local_def)
  have clean: "dirty (cacheControl (t r) i) = CLEAN" if "i < cachesize c" for i
    using ok that by (cases "dirty (cacheControl (s r) i)") (auto simp: node_ok_def buffer_ok_def cc)
  have hb: "home_byte c t p j = home_byte c s0 p j
        \<or> dirty_at c s0 r p \<and> cache_byte c s0 r p j \<noteq> twin_byte c s0 r p j
            \<and> home_byte c t p j = cache_byte c s0 r p j" if "is_page c p" "j < PAGE_SIZE c" for p j
  proof -
    have "cache_byte c s r p j = cache_byte c s0 r p j" "twin_byte c s r p j = twin_byte c s0 r p j"
      using inv by (simp_all add: invalidating_def cache_byte_def twin_byte_def)
    moreover have "getCacheIndex c p \<in> set (wb_buffer (s r)) \<Longrightarrow> tag (slot c s r p) = p \<Longrightarrow> dirty_at c s0 r p"
      using inv ok by (auto simp: invalidating_def dirty_at_def node_ok_def buffer_ok_def)
    ultimately show ?thesis using t(3) inv that by (auto simp: wrote_back_def invalidating_def)
  qed
  have "invalidating c r s0 k (True, t)"
    using inv t(2) clean hb unfolding invalidating_def prod.case coherent_at_empty
    by (auto simp: cc g keep_page_def)
  with t(1) g show ?thesis by (auto simp: cc)
qed

lemma invalidate_invalidating:
  assumes inv: "invalidating c r s0 k (f, s)" and r: "r < numtasks c" and k: "k < cachesize c"
    and tg: "tag (cacheControl (s r) k) \<noteq> GLOBAL_NULL c" and cl: "dirty (cacheControl (s r) k) = CLEAN"
  shows "invalidating c r s0 (Suc k) (f, upd r (invalidate_entry c k (tag (cacheControl (s r) k))) s)"
proof -
  let ?t = "upd r (invalidate_entry c k (tag (cacheControl (s r) k))) s"
  note ie = invalidate_entry_def mprotect_page block_size_eq
  have "coherent c ?t"
    using invalidate_coherent [of r "{}" "{}" s k] inv r k tg cl
    by (simp add: invalidating_def coherent_at_empty)
  moreover have "home_byte c ?t = home_byte c s" by (rule home_byte_cong) (simp add: ie upd_def)
  moreover have "dirty_at c ?t r p \<Longrightarrow> dirty_at c s r p" for p
    by (auto simp: dirty_at_def ie split: if_splits)
  ultimately show ?thesis
    using inv unfolding invalidating_def prod.case
    by (auto simp: ie less_Suc_eq keep_page_def)
qed

lemma self_invalidation_step_inv:
  assumes inv: "invalidating c r s0 k st" and r: "r < numtasks c" and k: "k < cachesize c"
  shows "\<exists>st'. self_invalidation_step E c r k st = Inr st' \<and> invalidating c r s0 (Suc k) st'"
proof -
  obtain f s where st: "st = (f, s)" by (cases st)
  have inv: "invalidating c r s0 k (f, s)" using inv st by simp
  then have "node_ok c {} {} r (s r)" using r by (auto simp: invalidating_def coherent_def)
  then have sk: "slot_ok c r (s r) k" using k by (simp add: node_ok_def)
  show ?thesis
  proof (cases "touchedcache (s r) k")
    case False
    then have "state (cacheControl (s r) k) = INVALID" "dirty (cacheControl (s r) k) = CLEAN"
      using sk cache_state.exhaust by (auto simp: slot_ok_def Let_def)
    with inv have "invalidating c r s0 (Suc k) (f, s)"
      by (auto simp: invalidating_def less_Suc_eq)
    with False st show ?thesis by (auto simp: self_invalidation_step_def)
  next
    case True
    define p where "p = tag (cacheControl (s r) k)"
    have tg: "p \<noteq> GLOBAL_NULL c" and line: "p div PAGE_SIZE c * PAGE_SIZE c = p"
      using sk True by (auto simp: slot_ok_def Let_def p_def is_page_def split: if_splits)
    obtain g u where u: "(if \<not> f \<and> dirty (cacheControl (s r) k) = DIRTY
          then bindE (wb_flush E c r s) (\<lambda>s. Inr (True, s)) else Inr (f, s)) = Inr (g, u)"
        "invalidating c r s0 k (g, u)" "dirty (cacheControl (u r) k) = CLEAN"
        "tag (cacheControl (u r) k) = p" "touchedcache (u r) k"
    proof (cases "\<not> f \<and> dirty (cacheControl (s r) k) = DIRTY")
      case True
      with flush_invalidating [of r s0 k s] inv r k \<open>touchedcache (s r) k\<close> that show ?thesis
        by (fastforce simp: p_def invalidating_def)
    next
      case False
      then have "dirty (cacheControl (s r) k) = CLEAN"
        using inv k cache_dirty.exhaust by (auto simp: invalidating_def)
      with False inv \<open>touchedcache (s r) k\<close> that show ?thesis by (simp add: p_def)
    qed
    show ?thesis
    proof (cases "keep_page r (get_classification_index c p) (u r)")
      case True
      then have "invalidating c r s0 (Suc k) (g, u)"
        using u(2-4) by (auto simp: invalidating_def less_Suc_eq)
      with True u st \<open>touchedcache (s r) k\<close> show ?thesis
        by (simp add: self_invalidation_step_def cacheline Let_def p_def [symmetric] line touch_again)
    next
      case False
      have "invalidating c r s0 (Suc k) (g, upd r (invalidate_entry c k p) u)"
        using invalidate_invalidating [OF u(2) r k] u(3,4) tg by simp
      with False u st \<open>touchedcache (s r) k\<close> show ?thesis
        by (simp add: self_invalidation_step_def cacheline Let_def p_def [symmetric] line)
    qed
  qed
qed

lemma self_invalidation_effect:
  assumes co: "coherent c s" and r: "r < numtasks c"
  shows "\<exists>f t. self_invalidation E c r s = Inr t \<and> invalidating c r s (cachesize c) (f, t)"
proof -
  have "k \<le> cachesize c \<Longrightarrow> \<exists>st. foldE (self_invalidation_step E c r) [0..<k] (False, s) = Inr st
          \<and> invalidating c r s k st" for k
  proof (induction k)
    case 0
    with co show ?case by (simp add: invalidating_def)
  next
    case (Suc k)
    then obtain st where "foldE (self_invalidation_step E c r) [0..<k] (False, s) = Inr st"
      and "invalidating c r s k st" by auto
    with self_invalidation_step_inv [of r s k st] r Suc.prems show ?case
      by (auto simp: foldE_append)
  qed
  from this [of "cachesize c"] show ?thesis
    by (auto simp: self_invalidation_def cacheline)
qed

end
end
