(* ===== verification/Coherence_Load.thy ===== *)
theory Coherence_Load
  imports Coherence_Invariant
begin

text \<open>
  Loading pages keeps the invariant of the cluster. The phases of \<^verbatim>\<open>load_cache_entry\<close> are taken
  one by one: eviction, choosing and claiming the entries, the directory updates, and filling
  the entries with the fetched data.
\<close>
text \<open>What \<^verbatim>\<open>load_cache_entry\<close> does to an entry it evicts, once its page has been written back.\<close>

definition retag :: "swdsm_config \<Rightarrow> nat \<Rightarrow> nat \<Rightarrow> nat \<Rightarrow> node \<Rightarrow> node" where
  "retag c old i a nd = mprotect c old (PAGE_SIZE c) PROT_NONE
     (map_memory c a (PAGE_SIZE c) (PAGE_SIZE c * i) PROT_NONE
       (set_entry i \<lparr>state = INVALID, dirty = CLEAN, tag = a\<rparr> nd))"

text \<open>
  Page \<open>i\<close> of a load at \<open>a\<close>. \<open>good_chunk\<close> is what \<open>extend_end\<close> guarantees of the pages it
  admits, \<open>claimed\<close> the state of the eviction loop after \<open>k\<close> pages.
\<close>

abbreviation chunk_page :: "swdsm_config \<Rightarrow> nat \<Rightarrow> nat \<Rightarrow> nat" where
  "chunk_page c a i \<equiv> a + i * PAGE_SIZE c"

definition good_chunk :: "swdsm_config \<Rightarrow> nat \<Rightarrow> nat \<Rightarrow> bool" where
  "good_chunk c a m \<longleftrightarrow> (\<forall>i < m. is_page c (chunk_page c a i)
      \<and> getCacheIndex c (chunk_page c a i) = getCacheIndex c a + i
      \<and> home_of c (chunk_page c a i) = home_of c a
      \<and> off_of c (chunk_page c a i) = off_of c a + i * PAGE_SIZE c)"

text \<open>A step of node \<open>r\<close> that changes home memory at most at pages \<open>r\<close> had modified.\<close>

definition home_kept :: "swdsm_config \<Rightarrow> nat \<Rightarrow> cluster \<Rightarrow> cluster \<Rightarrow> bool" where
  "home_kept c r s t \<longleftrightarrow> (\<forall>p. is_page c p \<and> \<not> dirty_at c s r p \<longrightarrow>
     \<not> dirty_at c t r p \<and> (\<forall>j < PAGE_SIZE c. home_byte c t p j = home_byte c s p j))"

lemma home_kept_refl [simp]: "home_kept c r s s"
  by (simp add: home_kept_def)

lemma home_kept_trans: "home_kept c r s t \<Longrightarrow> home_kept c r t u \<Longrightarrow> home_kept c r s u"
  by (simp add: home_kept_def)

lemma home_keptI:
  assumes "\<And>n. backing (t n) = backing (s n)" and "\<And>p. dirty_at c t r p \<Longrightarrow> dirty_at c s r p"
  shows "home_kept c r s t"
  using assms by (auto simp: home_kept_def home_byte_def data_window_def)

lemma wrote_back_home_kept:
  assumes "wrote_back c r X s t" and "\<And>i. i \<in> X \<Longrightarrow> dirty (cacheControl (s r) i) = DIRTY"
  shows "home_kept c r s t"
  using assms by (auto simp: home_kept_def wrote_back_def dirty_at_def split: if_splits)

definition claimed ::
  "swdsm_config \<Rightarrow> nat \<Rightarrow> nat \<Rightarrow> cluster \<Rightarrow> nat \<Rightarrow> (nat \<Rightarrow> bool) \<times> cluster \<Rightarrow> bool" where
  "claimed c r a s0 k st \<longleftrightarrow> (let (pl, s) = st in
     coherent_at c r (insert (getCacheIndex c a) ((\<lambda>i. getCacheIndex c a + i) ` {i. pl i})) {} s
   \<and> (\<forall>i. pl i \<longrightarrow> i < k \<and> state (cacheControl (s r) (getCacheIndex c a + i)) = INVALID
        \<and> tag (cacheControl (s r) (getCacheIndex c a + i)) \<in> {chunk_page c a i, GLOBAL_NULL c})
   \<and> (if k = 0 then \<not> cached c s r a else pl 0) \<and> home_kept c r s0 s)"

context dsm
begin

section \<open>Evicting an entry\<close>

lemma wrote_back_erase:
  assumes "wrote_back c r X s t"
  shows "wrote_back c r X s (upd r (\<lambda>nd. nd\<lparr>wb_buffer := b nd\<rparr>) t)"
proof -
  let ?u = "upd r (\<lambda>nd. nd\<lparr>wb_buffer := b nd\<rparr>) t"
  have "same_local c nd (?u n) \<longleftrightarrow> same_local c nd (t n)" for n nd
    by (cases "n = r") (simp_all add: same_local_def)
  moreover have "home_byte c ?u = home_byte c t" by (rule home_byte_cong) (simp add: upd_def)
  ultimately show ?thesis using assms by (simp add: wrote_back_def)
qed

lemma store_slot_effect:
  assumes "i < cachesize c" and "slot_ok c r (s r) i" and "dirty (cacheControl (s r) i) = DIRTY"
  defines "p \<equiv> tag (cacheControl (s r) i)"
  shows "\<exists>u. storepageDIFF E c r i p (upd r (mprotect c p (PAGE_SIZE c) PROT_READ) s) = Inr u
           \<and> wrote_back c r {i} s (upd r (set_dirty i CLEAN) u)
           \<and> wb_buffer (u r) = wb_buffer (s r) \<and> (\<forall>n. cacheControl (u n) = cacheControl (s n))"
proof -
  from assms(2,3) have p: "is_page c p" "getCacheIndex c p = i" "vmap (s r) p = Some (PAGE_SIZE c * i)"
    by (auto simp: slot_ok_def Let_def p_def split: if_splits)
  let ?s1 = "upd r (mprotect c p (PAGE_SIZE c) PROT_READ) s"
  let ?m = "page_merge c r i p (home_of c p) (off_of c p) (PAGE_SIZE c) ?s1"
  let ?u = "upd r (\<lambda>nd. nd\<lparr>write_misses := add64 (write_misses nd) 1\<rparr>) ?m"
  have "storepageDIFF E c r i p ?s1 = Inr ?u"
    using p assms(1) by (intro storepageDIFF_merge get_homenode_eq get_offset_eq)
      (auto simp: is_page_def intro!: in_cacheI)
  moreover have "wrote_back c r {i} s (upd r (set_dirty i CLEAN) ?u)"
    unfolding wrote_back_def
  proof (intro conjI allI impI)
    fix n
    show "same_local c (s n) (upd r (set_dirty i CLEAN) ?u n)"
      using page_merge_local [of ?s1 n r i p "home_of c p" "off_of c p" "PAGE_SIZE c"]
      by (cases "n = r") (auto simp: set_dirty_def same_local_def)
  next
    fix q j assume q: "is_page c q \<and> j < PAGE_SIZE c"
    have "home_byte c (upd r (set_dirty i CLEAN) ?u) = home_byte c ?m"
      by (rule home_byte_cong) (simp add: set_dirty_def upd_def)
    moreover have "home_byte c ?s1 = home_byte c s" by (rule home_byte_cong) (simp add: upd_def)
    moreover have "cache_byte c ?s1 = cache_byte c s" "twin_byte c ?s1 = twin_byte c s"
      by (intro ext; simp add: cache_byte_def twin_byte_def upd_def)+
    ultimately show "home_byte c (upd r (set_dirty i CLEAN) ?u) q j =
        (if getCacheIndex c q \<in> {i} \<and> tag (slot c s r q) = q \<and> cache_byte c s r q j \<noteq> twin_byte c s r q j
         then cache_byte c s r q j else home_byte c s q j)"
      using page_merge_home_byte [of p ?s1 r q j] p q by (auto simp: p_def)
  qed (use p(2) p_def in \<open>auto simp: set_dirty_def mprotect_page\<close>)
  moreover have "cacheControl (?u n) = cacheControl (s n)" for n
    by (cases "n = r") simp_all
  ultimately show ?thesis by (intro exI [of _ ?u]) simp
qed

lemma retag_coherent:
  assumes co: "coherent_at c r L D s" and r: "r < numtasks c" and i: "i < cachesize c"
    and old: "tag (cacheControl (s r) i) = old" "old \<noteq> GLOBAL_NULL c" "old \<noteq> a"
    and cl: "dirty (cacheControl (s r) i) = CLEAN"
    and a: "is_page c a" "getCacheIndex c a = i" "home_of c a \<noteq> r"
  shows "coherent_at c r L D (upd r (retag c old i a) s)"
proof -
  let ?t = "upd r (retag c old i a) s"
  have ok: "node_ok c L D r (s r)" using co r by (rule coherent_at_node)
  then have "slot_ok c r (s r) i" using i by (simp add: node_ok_def)
  then have p: "is_page c old" "getCacheIndex c old = i" "home_of c old \<noteq> r"
    using old by (auto simp: slot_ok_def Let_def)
  note rt = retag_def mprotect_page map_memory_page set_entry_def
  have slots: "slot_ok c r (?t r) k" if "k < cachesize c" for k
  proof -
    have sk: "slot_ok c r (s r) k" using ok that by (simp add: node_ok_def)
    show ?thesis
    proof (cases "k = i")
      case True
      with a old(3) page_not_null [OF a(1)] show ?thesis
        by (auto simp: rt slot_ok_def Let_def slot_prot_def)
    next
      case False
      then have "tag (cacheControl (s r) k) \<noteq> GLOBAL_NULL c \<Longrightarrow>
          tag (cacheControl (s r) k) \<noteq> old \<and> tag (cacheControl (s r) k) \<noteq> a"
        using sk p(2) a(2) by (auto simp: slot_ok_def Let_def)
      with sk False show ?thesis by (auto simp: rt slot_ok_def Let_def)
    qed
  qed
  have "i \<notin> set (wb_buffer (s r)) \<and> i \<notin> D"
    using ok cl unfolding node_ok_def buffer_ok_def by (metis cache_dirty.distinct(1))
  then have "buffer_ok c D (?t r)" using ok cl by (auto simp: node_ok_def buffer_ok_def rt)
  moreover have "pages_ok c r (?t r)"
    using ok p a old by (auto simp: node_ok_def pages_ok_def rt)
  ultimately have "node_ok c L D r (?t r)" using ok slots by (simp add: node_ok_def rt)
  then show ?thesis
    by (rule local_step_coherent [OF co r, rotated])
      (use p a in \<open>auto simp: rt cached_def dirty_at_def split: if_splits\<close>)
qed

lemma evict_entry_effect:
  assumes co: "coherent_at c r L {} s" and r: "r < numtasks c" and i: "i < cachesize c"
    and a: "is_page c a" "getCacheIndex c a = i" "home_of c a \<noteq> r"
    and nv: "\<not> cached c s r a"
  shows "\<exists>t. evict_entry E c r i a s = Inr t \<and> coherent_at c r L {} t
       \<and> state (cacheControl (t r) i) = INVALID \<and> tag (cacheControl (t r) i) \<in> {a, GLOBAL_NULL c}
       \<and> (\<forall>k. k \<noteq> i \<longrightarrow> cacheControl (t r) k = cacheControl (s r) k)
       \<and> (\<forall>n. globalSharers (t n) = globalSharers (s n)) \<and> home_kept c r s t"
proof -
  define old where "old = tag (cacheControl (s r) i)"
  have ok: "node_ok c L {} r (s r)" using co r by (rule coherent_at_node)
  then have sl: "slot_ok c r (s r) i" using i by (simp add: node_ok_def)
  show ?thesis
  proof (cases "old \<noteq> a \<and> old \<noteq> GLOBAL_NULL c")
    case False
    with sl nv have "state (cacheControl (s r) i) = INVALID"
      using a(2) cache_state.exhaust by (auto simp: slot_ok_def Let_def cached_def old_def split: if_splits)
    with False co show ?thesis by (auto simp: evict_entry_def Let_def old_def)
  next
    case True
    obtain u v where e: "(if dirty (cacheControl (s r) i) = DIRTY
          then bindE (store_lines E c r i old (upd r (mprotect c old (block_size c) PROT_READ) s)) (wb_erase E r i)
          else Inr s) = Inr v"
        and u: "coherent_at c r L {} u" "tag (cacheControl (u r) i) = old" "dirty (cacheControl (u r) i) = CLEAN"
          "\<And>k. k \<noteq> i \<Longrightarrow> cacheControl (u r) k = cacheControl (s r) k" "\<And>n. globalSharers (u n) = globalSharers (s n)"
          "home_kept c r s u"
        and v: "upd r (retag c old i a) v = upd r (retag c old i a) u"
    proof (cases "dirty (cacheControl (s r) i) = DIRTY")
      case False
      then have "dirty (cacheControl (s r) i) = CLEAN" using cache_dirty.exhaust by auto
      with False co that show ?thesis by (simp add: old_def)
    next
      case d: True
      obtain w where w: "storepageDIFF E c r i old (upd r (mprotect c old (PAGE_SIZE c) PROT_READ) s) = Inr w"
          "wrote_back c r {i} s (upd r (set_dirty i CLEAN) w)" "wb_buffer (w r) = wb_buffer (s r)"
          "\<And>n. cacheControl (w n) = cacheControl (s n)"
        using store_slot_effect [of i r s, OF i sl d] by (auto simp: old_def)
      let ?v = "upd r (\<lambda>nd. nd\<lparr>wb_buffer := remove1 i (wb_buffer nd)\<rparr>) w"
      let ?u = "upd r (\<lambda>nd. nd\<lparr>wb_buffer := remove1 i (wb_buffer nd)\<rparr>) (upd r (set_dirty i CLEAN) w)"
      have wb: "wrote_back c r {i} s ?u" using w(2) by (rule wrote_back_erase)
      have "i \<in> set (wb_buffer (s r))" "distinct (wb_buffer (s r))"
        using ok d i by (auto simp: node_ok_def buffer_ok_def)
      then have cu: "coherent_at c r L {} ?u"
        by (intro wrote_back_coherent [OF co r wb])
          (simp_all add: set_dirty_def w(3) distinct_remove1_removeAll removeAll_filter_not_eq eq_commute)
      have "upd r (retag c old i a) ?v = upd r (retag c old i a) ?u"
        by (simp add: retag_def set_entry_def set_dirty_def mprotect_page map_memory_page)
      moreover have "globalSharers (?u n) = globalSharers (s n)" for n
        using wb by (simp add: wrote_back_def same_local_def)
      moreover have "home_kept c r s ?u" using wb by (rule wrote_back_home_kept) (use d in simp)
      ultimately show ?thesis
        using d w cu by (intro that [of ?v ?u])
          (simp_all add: store_lines_eq wb_erase_def delegate wb_erase_locked_def set_dirty_def old_def)
    qed
    have "coherent_at c r L {} (upd r (retag c old i a) u)"
      using True a u by (intro retag_coherent [OF u(1) r i]) auto
    moreover have "evict_entry E c r i a s = Inr (upd r (retag c old i a) u)"
      using True e v by (simp add: evict_entry_def Let_def old_def [symmetric] retag_def [abs_def])
    moreover have "home_kept c r u (upd r (retag c old i a) u)"
      by (rule home_keptI) (auto simp: retag_def set_entry_def upd_def dirty_at_def split: if_splits)
    then have "home_kept c r s (upd r (retag c old i a) u)" by (rule home_kept_trans [OF u(6)])
    ultimately show ?thesis
      using u by (auto simp: retag_def set_entry_def upd_def)
  qed
qed

section \<open>Locks\<close>

lemma locks_coherent:
  assumes co: "coherent_at c r L D s" and r: "r < numtasks c"
  shows "coherent_at c r (insert i L) D (upd r (\<lambda>nd. nd\<lparr>cache_locks := (cache_locks nd)(i := True)\<rparr>) s)"
    and "coherent_at c r (L - {i}) D (cache_unlock r i s)"
proof -
  have n: "node_ok c L D r (s r)" using co r by (rule coherent_at_node)
  have "node_ok c L' D r (upd r (\<lambda>nd. nd\<lparr>cache_locks := (cache_locks nd)(i := b)\<rparr>) s r)"
    if "(\<lambda>k. k \<in> L') = (\<lambda>k. k \<in> L)(i := b)" for L' b
    using n that slot_ok_cong [of "upd r (\<lambda>nd. nd\<lparr>cache_locks := (cache_locks nd)(i := b)\<rparr>) s r" _ "s r" c r]
      pages_ok_cong [of "upd r (\<lambda>nd. nd\<lparr>cache_locks := (cache_locks nd)(i := b)\<rparr>) s r" "s r" c r]
    by (simp add: node_ok_def buffer_ok_def)
  then show "coherent_at c r (insert i L) D (upd r (\<lambda>nd. nd\<lparr>cache_locks := (cache_locks nd)(i := True)\<rparr>) s)"
    and "coherent_at c r (L - {i}) D (cache_unlock r i s)"
    unfolding cache_unlock_def
    by - (rule local_step_coherent [OF co r]; auto simp: cached_def dirty_at_def fun_eq_iff)+
qed

section \<open>Choosing and claiming the entries\<close>

lemma chunk_index:
  assumes "PAGE_SIZE c dvd a" and "getCacheIndex c a + i < cachesize c"
  shows "getCacheIndex c (chunk_page c a i) = getCacheIndex c a + i"
proof -
  have "(a + i * PAGE_SIZE c) div PAGE_SIZE c = a div PAGE_SIZE c + i" using page_pos by simp
  then have "getCacheIndex c (chunk_page c a i) = (a div PAGE_SIZE c + i) mod cachesize c"
    by (simp add: getCacheIndex_def)
  also have "\<dots> = (getCacheIndex c a + i) mod cachesize c"
    by (simp add: getCacheIndex_def mod_add_left_eq)
  finally show ?thesis using assms(2) by simp
qed

lemma extend_end_effect:
  assumes a: "is_page c a" and good: "good_chunk c a k" "0 < k"
  shows "\<exists>m \<ge> k. extend_end c a (getCacheIndex c a) (home_of c a) (off_of c a) [k..<l]
             (getCacheIndex c a + k) = Inr (getCacheIndex c a + m) \<and> good_chunk c a m"
  using good
proof (induction "l - k" arbitrary: k)
  case 0
  then show ?case by auto
next
  case (Suc d)
  let ?a = "chunk_page c a k"
  from Suc.hyps(2) have up: "[k..<l] = k # [Suc k..<l]" by (simp add: upt_conv_Cons)
  show ?case
  proof (cases "?a < size_of_all c \<and> getCacheIndex c a + k < cachesize c")
    case False
    with Suc.prems show ?thesis by (auto simp: up)
  next
    case True
    have pg: "is_page c ?a" using True a by (simp add: is_page_def)
    show ?thesis
    proof (cases "home_of c ?a = home_of c a \<and> off_of c ?a = off_of c a + k * PAGE_SIZE c
        \<and> get_sharer_win_index c (get_classification_index c ?a)
             = get_sharer_win_index c (get_classification_index c a)
        \<and> get_data_win_index c (off_of c ?a) = get_data_win_index c (off_of c a)")
      case False
      with Suc.prems True show ?thesis
        by (intro exI [of _ k]) (auto simp: up peek_home peek_off get_homenode_eq get_offset_eq Let_def)
    next
      case same: True
      then have "good_chunk c a (Suc k)"
        using Suc.prems(1) pg True a chunk_index [of a k]
        by (auto simp: good_chunk_def less_Suc_eq is_page_def)
      then obtain m where "m \<ge> Suc k" and "good_chunk c a m" and
        "extend_end c a (getCacheIndex c a) (home_of c a) (off_of c a) [Suc k..<l]
             (getCacheIndex c a + Suc k) = Inr (getCacheIndex c a + m)"
        using Suc.hyps(1) [of "Suc k"] Suc.hyps(2) by (metis Suc_diff_Suc diff_Suc_1 zero_less_Suc zero_less_diff)
      with same True show ?thesis
        by (intro exI [of _ m]) (auto simp: up peek_home peek_off get_homenode_eq get_offset_eq
            Let_def cacheline)
    qed
  qed
qed

lemma claim_entry_effect:
  assumes cl: "claimed c r a s0 k st" and r: "r < numtasks c" and ch: "good_chunk c a m" "k < m"
    and h: "home_of c a \<noteq> r"
  shows "\<exists>st'. claim_entry E c r a (getCacheIndex c a) k st = Inr st' \<and> claimed c r a s0 (Suc k) st'"
proof -
  obtain pl s where st: "st = (pl, s)" by (cases st)
  define i where "i = getCacheIndex c a + k"
  define L where "L = insert (getCacheIndex c a) ((\<lambda>i. getCacheIndex c a + i) ` {i. pl i})"
  let ?p = "chunk_page c a k"
  have p: "is_page c ?p" "getCacheIndex c ?p = i" "home_of c ?p \<noteq> r" "i < cachesize c"
    using ch h cache_index_less [of ?p] by (auto simp: good_chunk_def i_def)
  have co: "coherent_at c r L {} s" and pl: "\<And>j. pl j \<Longrightarrow> j < k"
    and old: "\<And>j. pl j \<Longrightarrow> state (cacheControl (s r) (getCacheIndex c a + j)) = INVALID
        \<and> tag (cacheControl (s r) (getCacheIndex c a + j)) \<in> {chunk_page c a j, GLOBAL_NULL c}"
    using cl by (auto simp: claimed_def st L_def)
  have "cache_locks (s r) = (\<lambda>j. j \<in> L)" using coherent_at_node [OF co r] by (simp add: node_ok_def)
  then have held: "cache_locks (s r) i \<longleftrightarrow> k = 0" using pl [of k] by (auto simp: L_def i_def)
  obtain s1 where s1: "cache_try_lock r i s = (k \<noteq> 0, s1)" "coherent_at c r (insert i L) {} s1"
      "cacheControl (s1 r) = cacheControl (s r)" "home_kept c r s s1"
  proof (cases "k = 0")
    case True
    then have "insert i L = L" by (simp add: L_def i_def insert_absorb)
    with True held co that show ?thesis by (simp add: cache_try_lock_def)
  next
    case False
    have "home_kept c r s (upd r (\<lambda>nd. nd\<lparr>cache_locks := (cache_locks nd)(i := True)\<rparr>) s)"
      by (rule home_keptI) (simp_all add: upd_def dirty_at_def)
    with False held locks_coherent(1) [OF co r, of i] that show ?thesis by (simp add: cache_try_lock_def)
  qed
  have hk: "home_kept c r s0 s1"
    using cl home_kept_trans [OF _ s1(4)] by (simp add: claimed_def st)
  have insL: "insert i L = insert (getCacheIndex c a) ((\<lambda>i. getCacheIndex c a + i) ` {j. (pl(k := True)) j})"
    by (auto simp: L_def i_def)
  show ?thesis
  proof (cases "cached c s r ?p")
    case True
    then have k0: "k \<noteq> 0" using cl by (auto simp: claimed_def st split: if_splits)
    then have "L - {i} = L" using held \<open>cache_locks (s r) = _\<close> by auto
    then have "coherent_at c r L {} (cache_unlock r i s1)"
      using locks_coherent(2) [OF s1(2) r, of i] by simp
    moreover have "(pl(k := False)) = pl" using pl by (auto simp: fun_eq_iff)
    moreover have "home_kept c r s1 (cache_unlock r i s1)"
      by (rule home_keptI) (simp_all add: cache_unlock_def upd_def dirty_at_def)
    then have "home_kept c r s0 (cache_unlock r i s1)" by (rule home_kept_trans [OF hk])
    ultimately have "claimed c r a s0 (Suc k) (pl, cache_unlock r i s1)"
      using cl k0 pl old s1(3) by (auto simp: claimed_def st L_def cache_unlock_def less_SucI)
    with True s1 k0 st \<open>(pl(k := False)) = pl\<close> p(2) show ?thesis
      by (auto simp: claim_entry_def Let_def cached_def i_def [symmetric])
  next
    case False
    then have "\<not> cached c s1 r ?p" using s1(3) by (simp add: cached_def)
    from evict_entry_effect [OF s1(2) r p(4) p(1,2,3) this] obtain t where
      t: "evict_entry E c r i ?p s1 = Inr t" "coherent_at c r (insert i L) {} t"
        "state (cacheControl (t r) i) = INVALID" "tag (cacheControl (t r) i) \<in> {?p, GLOBAL_NULL c}"
        "\<And>j. j \<noteq> i \<Longrightarrow> cacheControl (t r) j = cacheControl (s r) j" "home_kept c r s1 t"
      by (auto simp: s1(3))
    have "home_kept c r s0 t" by (rule home_kept_trans [OF hk t(6)])
    then have "claimed c r a s0 (Suc k) (pl(k := True), t)"
      using cl t(2-5) pl old unfolding insL claimed_def st
      by (auto simp: i_def less_SucI split: if_splits)
    moreover have "claim_entry E c r a (getCacheIndex c a) k st = Inr (pl(k := True), t)"
      using False s1 t(1) st p(2)
      by (auto simp: claim_entry_def Let_def cached_def i_def [symmetric] intro: cache_state.exhaust)
    ultimately show ?thesis by blast
  qed
qed

lemma claim_loop:
  assumes "claimed c r a s0 0 (\<lambda>_. False, s)" and "r < numtasks c" and "good_chunk c a m"
    and "home_of c a \<noteq> r" and "k \<le> m"
  shows "\<exists>st. foldE (claim_entry E c r a (getCacheIndex c a)) [0..<k] (\<lambda>_. False, s) = Inr st
           \<and> claimed c r a s0 k st"
  using assms(5)
proof (induction k)
  case 0
  then show ?case using assms(1) by simp
next
  case (Suc k)
  then obtain st where "foldE (claim_entry E c r a (getCacheIndex c a)) [0..<k] (\<lambda>_. False, s) = Inr st"
    and "claimed c r a s0 k st" by auto
  with claim_entry_effect [of r a s0 k st m] assms Suc.prems show ?case by (auto simp: foldE_append)
qed

end

section \<open>Changes of the directory\<close>

definition only_dir :: "cluster \<Rightarrow> cluster \<Rightarrow> bool" where
  "only_dir s t \<longleftrightarrow> (\<exists>g. \<forall>n. t n = set_sharers (g n) (s n))"

lemma only_dir_refl [simp]: "only_dir s s"
  unfolding only_dir_def by (rule exI [of _ "\<lambda>n. globalSharers (s n)"]) (simp add: set_sharers_def)

lemma only_dir_trans: "only_dir s t \<Longrightarrow> only_dir t u \<Longrightarrow> only_dir s u"
  by (auto simp: only_dir_def set_sharers_def)

lemma only_dir_upd [simp]: "only_dir s (upd n (\<lambda>nd. set_sharers (f nd) nd) s)"
  unfolding only_dir_def
  by (rule exI [of _ "\<lambda>k. if k = n then f (s n) else globalSharers (s k)"])
    (simp add: upd_def set_sharers_def)

lemma only_dir_frame:
  assumes "only_dir s t"
  shows "cacheControl (t n) = cacheControl (s n)" and "touchedcache (t n) = touchedcache (s n)"
    and "cache_locks (t n) = cache_locks (s n)" and "backing (t n) = backing (s n)"
    and "vmap (t n) = vmap (s n)" and "vprot (t n) = vprot (s n)" and "pagecopy (t n) = pagecopy (s n)"
    and "wb_buffer (t n) = wb_buffer (s n)"
  using assms by (auto simp: only_dir_def set_sharers_def)

lemma length_sharer_mask [simp]: "length (sharer_mask r m new) = 2 * m"
  by (simp add: sharer_mask_def)

lemma sharer_mask_nth:
  "k < 2 * m \<Longrightarrow> sharer_mask r m new ! k = (if even k \<and> new (k div 2) then node_bit r else 0)"
  by (simp add: sharer_mask_def)

abbreviation dir_at :: "cluster \<Rightarrow> nat \<Rightarrow> nat \<Rightarrow> nat set" where
  "dir_at s n k \<equiv> ranks (globalSharers (s n) k)"

text \<open>Whether word \<open>k\<close> of the directory belongs to one of \<open>m\<close> pages from page number \<open>A\<close>.\<close>

definition in_chunk :: "nat \<Rightarrow> nat \<Rightarrow> nat \<Rightarrow> bool" where
  "in_chunk A m k \<longleftrightarrow> A \<le> k div 2 \<and> k div 2 < A + m"

lemma ranks_masked:
  assumes "r < 64"
  shows "ranks (bor_splice (sharer_mask r m new) (2 * A) g k)
           = ranks (g k) \<union> (if even k \<and> in_chunk A m k \<and> new (k div 2 - A) then {r} else {})"
proof (cases "2 * A \<le> k \<and> k < 2 * A + 2 * m")
  case True
  then have "in_chunk A m k" "k - 2 * A < 2 * m" "even (k - 2 * A) \<longleftrightarrow> even k" "(k - 2 * A) div 2 = k div 2 - A"
    by (auto simp: in_chunk_def)
  with True assms show ?thesis by (simp add: bor_splice_def sharer_mask_nth)
next
  case False
  then have "\<not> in_chunk A m k" by (auto simp: in_chunk_def)
  with False show ?thesis by (auto simp: bor_splice_def)
qed

text \<open>The notifications add at most \<open>r\<close> to sharer words of other nodes.\<close>

definition told :: "nat \<Rightarrow> cluster \<Rightarrow> cluster \<Rightarrow> bool" where
  "told r s t \<longleftrightarrow> only_dir s t \<and> globalSharers (t r) = globalSharers (s r)
     \<and> (\<forall>n k. dir_at s n k \<subseteq> dir_at t n k \<and> dir_at t n k \<subseteq> dir_at s n k \<union> {r}
           \<and> (odd k \<longrightarrow> dir_at t n k = dir_at s n k))"

definition registered ::
  "nat \<Rightarrow> nat \<Rightarrow> nat \<Rightarrow> nat \<Rightarrow> (nat \<Rightarrow> bool) \<Rightarrow> (nat \<Rightarrow> bool) \<Rightarrow> cluster \<Rightarrow> cluster \<Rightarrow> bool" where
  "registered r h A m pl new s t \<longleftrightarrow> only_dir s t
   \<and> (\<forall>n k. n \<noteq> r \<longrightarrow> dir_at s n k \<subseteq> dir_at t n k \<and> dir_at t n k \<subseteq> dir_at s n k \<union> {r}
        \<and> (odd k \<longrightarrow> dir_at t n k = dir_at s n k))
   \<and> (\<forall>k. even k \<and> in_chunk A m k \<and> new (k div 2 - A) \<longrightarrow> r \<in> dir_at t h k)
   \<and> (\<forall>k. dir_at t r k = dir_at s r k \<union> (if in_chunk A m k \<and> pl (k div 2 - A)
         then (if \<exists>i. new i then dir_at s h k else {}) \<union> (if even k then {r} else {}) else {}))"

context dsm
begin

lemma class_index: "is_page c p \<Longrightarrow> get_classification_index c p = 2 * (p div PAGE_SIZE c)"
proof -
  assume p: "is_page c p"
  have "p div PAGE_SIZE c < size_of_all c div PAGE_SIZE c"
    using p size_pages page_pos by (auto simp: is_page_def div_less_iff_less_mult elim!: dvdE)
  then show ?thesis by (simp add: get_classification_index_def class_size)
qed

lemma class_index_inj: "is_page c p \<Longrightarrow> is_page c q \<Longrightarrow>
    get_classification_index c p = get_classification_index c q \<longleftrightarrow> p = q"
  by (auto simp: class_index is_page_def elim!: dvdE)

lemma class_parity:
  "is_page c p \<Longrightarrow> is_page c q \<Longrightarrow> get_classification_index c p \<noteq> get_classification_index c q + 1"
  by (metis class_index dvd_triv_left even_plus_one_iff)

lemma load_class_eq:
  assumes "PAGE_SIZE c dvd a" and "good_chunk c a m" and "i < m"
  shows "load_class c a i = 2 * (a div PAGE_SIZE c) + 2 * i"
proof -
  have "load_class c a i = 2 * (chunk_page c a i div PAGE_SIZE c)"
    using assms(2,3) by (simp add: load_class_def class_index good_chunk_def)
  also have "chunk_page c a i div PAGE_SIZE c = a div PAGE_SIZE c + i" using page_pos by simp
  finally show ?thesis by simp
qed

lemma load_pages_eq [simp]: "load_pages c m = [0..<m]"
  by (simp add: load_pages_def cacheline)

lemma register_sharer_effect:
  assumes "PAGE_SIZE c dvd a" and "good_chunk c a m" and "0 < m" and "r < 64"
    and "\<forall>i. new i \<longrightarrow> i < m" and reg: "register_sharer E c r a m h new s = (rem, t)"
  defines "A \<equiv> a div PAGE_SIZE c"
  shows "only_dir s t" and "\<And>n. n \<noteq> h \<Longrightarrow> t n = s n"
    and "dir_at t h k = dir_at s h k \<union> (if even k \<and> in_chunk A m k \<and> new (k div 2 - A) then {r} else {})"
    and "k < 2 * m \<Longrightarrow> ranks (rem ! k) = (if \<exists>i. new i then dir_at s h (2 * A + k) else {})"
proof -
  have l0: "get_sharer_win_offset c (load_class c a 0) = 2 * A"
    unfolding A_def load_class_def sharer_win_offset_class
    using load_class_eq [OF assms(1-3)] by (simp add: load_class_def)
  have any: "(\<exists>i \<in> set [0..<m]. new i) \<longleftrightarrow> (\<exists>i. new i)" using assms(5) by auto
  have t: "t = (if \<exists>i. new i then upd h (set_sharers (bor_splice (sharer_mask r m new) (2 * A) (globalSharers (s h)))) s else s)"
    and rm: "rem = (if \<exists>i. new i then slice (2 * A) (2 * m) (globalSharers (s h)) else replicate (2 * m) 0)"
    using reg any by (auto simp: register_sharer_def get_accumulate_bor l0 sharer_op_def Let_def
        simp del: set_upt split: if_splits)
  show "only_dir s t" unfolding t by simp
  show "\<And>n. n \<noteq> h \<Longrightarrow> t n = s n" unfolding t by simp
  show "dir_at t h k = dir_at s h k \<union> (if even k \<and> in_chunk A m k \<and> new (k div 2 - A) then {r} else {})"
    using ranks_masked [OF assms(4)] unfolding t by (auto simp: set_sharers_def)
  show "ranks (rem ! k) = (if \<exists>i. new i then dir_at s h (2 * A + k) else {})" if "k < 2 * m"
    using that unfolding rm by auto
qed

lemma add_remote_sharers_effect:
  fixes s :: cluster and rem :: "u64 list" and pl :: "nat \<Rightarrow> bool"
  assumes "PAGE_SIZE c dvd a" and "good_chunk c a m" and "r < 64"
  defines "A \<equiv> a div PAGE_SIZE c"
  defines "t \<equiv> add_remote_sharers c r a m pl rem s"
  shows "only_dir s t" and "\<And>n. n \<noteq> r \<Longrightarrow> t n = s n"
    and "dir_at t r k = dir_at s r k \<union>
      (if in_chunk A m k \<and> pl (k div 2 - A) then ranks (rem ! (k - 2 * A)) \<union> (if even k then {r} else {}) else {})"
proof -
  let ?f = "\<lambda>i s. if pl i then let ci = load_class c a i in
               upd r (\<lambda>nd. set_sharers
                 ((globalSharers nd)
                   (ci := globalSharers nd ci OR rem ! (2 * i) OR node_bit r,
                    ci + 1 := globalSharers nd (ci + 1) OR rem ! (2 * i + 1))) nd) s
          else s"
  have "j \<le> m \<Longrightarrow> only_dir s (fold ?f [0..<j] s) \<and> (\<forall>n. n \<noteq> r \<longrightarrow> fold ?f [0..<j] s n = s n)
      \<and> (\<forall>k. dir_at (fold ?f [0..<j] s) r k = dir_at s r k \<union>
          (if in_chunk A j k \<and> pl (k div 2 - A) then ranks (rem ! (k - 2 * A)) \<union> (if even k then {r} else {}) else {}))" for j
  proof (induction j)
    case 0
    then show ?case by (auto simp: in_chunk_def)
  next
    case (Suc j)
    define u where "u = fold ?f [0..<j] s"
    define v where "v = ?f j u"
    have ci: "load_class c a j = 2 * A + 2 * j"
      using load_class_eq [OF assms(1,2)] Suc.prems by (simp add: A_def)
    have od: "only_dir u v" and oth: "\<And>n. n \<noteq> r \<Longrightarrow> v n = u n" by (simp_all add: v_def Let_def)
    have new: "dir_at v r k = dir_at u r k \<union>
        (if k div 2 = A + j \<and> pl j then ranks (rem ! (k - 2 * A)) \<union> (if even k then {r} else {}) else {})" for k
    proof -
      have "k = 2 * A + 2 * j \<or> k = 2 * A + 2 * j + 1 \<or> k div 2 \<noteq> A + j" by presburger
      then show ?thesis using assms(3) by (auto simp: v_def ci Let_def set_sharers_def)
    qed
    have ext: "in_chunk A (Suc j) k \<longleftrightarrow> in_chunk A j k \<or> k div 2 = A + j" for k
      by (auto simp: in_chunk_def)
    from Suc have u: "only_dir s u" "\<And>n. n \<noteq> r \<Longrightarrow> u n = s n" "\<And>k. dir_at u r k = dir_at s r k \<union>
          (if in_chunk A j k \<and> pl (k div 2 - A) then ranks (rem ! (k - 2 * A)) \<union> (if even k then {r} else {}) else {})"
      by (simp_all add: u_def)
    have "only_dir s v" using u(1) od by (rule only_dir_trans)
    moreover have "dir_at v r k = dir_at s r k \<union>
          (if in_chunk A (Suc j) k \<and> pl (k div 2 - A) then ranks (rem ! (k - 2 * A)) \<union> (if even k then {r} else {}) else {})" for k
      unfolding new u(3) ext by auto
    moreover have "fold ?f [0..<Suc j] s = v" by (simp add: u_def v_def)
    ultimately show ?case using oth u(2) by simp
  qed
  from this [of m] show "only_dir s t" and "\<And>n. n \<noteq> r \<Longrightarrow> t n = s n"
    and "dir_at t r k = dir_at s r k \<union>
      (if in_chunk A m k \<and> pl (k div 2 - A) then ranks (rem ! (k - 2 * A)) \<union> (if even k then {r} else {}) else {})"
    by (simp_all add: t_def add_remote_sharers_def sharer_op_def)
qed

lemma dir_step_coherent:
  assumes co: "coherent_at c r L D s" and od: "only_dir s t" and dir: "dir_ok c t"
    and W: "\<And>q. is_page c q \<Longrightarrow> writers c s (home_of c q) q \<subseteq> writers c t (home_of c q) q"
    and S: "\<And>n q. is_page c q \<Longrightarrow> n \<in> sharers c s n q \<Longrightarrow> n \<in> sharers c t n q"
    and H: "\<And>n q. is_page c q \<Longrightarrow> home_of c q = n \<Longrightarrow> n \<in> sharers c t n q \<Longrightarrow>
              n \<in> sharers c s n q \<or> vprot (s n) q \<noteq> PROT_NONE"
    and O: "\<And>n q. is_page c q \<Longrightarrow> home_of c q = n \<Longrightarrow> n \<in> writers c t n q \<Longrightarrow>
              n \<in> writers c s n q \<or> vprot (s n) q \<noteq> PROT_NONE"
  shows "coherent_at c r L D t"
proof -
  note fr = only_dir_frame [OF od]
  have nd: "node_ok c L' D' n (t n) = node_ok c L' D' n (s n)" for L' D' n
    by (intro node_ok_cong) (simp_all add: fr)
  have v: "cached c t = cached c s" "dirty_at c t = dirty_at c s" "cache_byte c t = cache_byte c s"
      "twin_byte c t = twin_byte c s"
    by (intro ext; simp add: cached_def dirty_at_def cache_byte_def twin_byte_def fr)+
  have h: "home_byte c t = home_byte c s" by (rule home_byte_cong) (simp add: fr)
  have "link_ok c t"
    unfolding link_ok_def v fr
  proof (intro allI impI)
    fix n p assume n: "n < numtasks c" and p: "is_page c p"
    have "link_ok c s" using co by (simp add: coherent_at_def)
    then have "if home_of c p = n
        then (vprot (s n) p = PROT_READ_WRITE \<longrightarrow> n \<in> writers c s n p)
           \<and> (n \<in> sharers c s n p \<or> n \<in> writers c s n p \<longrightarrow> vprot (s n) p \<noteq> PROT_NONE)
        else (cached c s n p \<longrightarrow> n \<in> sharers c s n p)
           \<and> (dirty_at c s n p \<longrightarrow> (\<forall>m. m \<noteq> n \<longrightarrow> \<not> writers c s (home_of c p) p \<subseteq> {m}))"
      using n p by (simp add: link_ok_def)
    then show "if home_of c p = n
        then (vprot (s n) p = PROT_READ_WRITE \<longrightarrow> n \<in> writers c t n p)
           \<and> (n \<in> sharers c t n p \<or> n \<in> writers c t n p \<longrightarrow> vprot (s n) p \<noteq> PROT_NONE)
        else (cached c s n p \<longrightarrow> n \<in> sharers c t n p)
           \<and> (dirty_at c s n p \<longrightarrow> (\<forall>m. m \<noteq> n \<longrightarrow> \<not> writers c t (home_of c p) p \<subseteq> {m}))"
      using W [OF p] S [OF p, of n] H [OF p, of n] O [OF p, of n] by (cases "home_of c p = n") auto
  qed
  moreover have "data_ok c t"
    using co W unfolding coherent_at_def data_ok_def v h by (metis subset_trans)
  ultimately show ?thesis using co dir by (simp add: coherent_at_def nd)
qed

lemma downgrade_step_told:
  assumes "PAGE_SIZE c dvd a" and "good_chunk c a m" and "0 < m" and r: "r < 64"
    and rem: "\<And>k. k < 2 * m \<Longrightarrow> ranks (rem ! k) \<subseteq> {..<numtasks c}" and "i < m"
  shows "told r (snd st) (snd (downgrade_step E c r a m pl new rem i st))"
proof -
  obtain hd s where st: "st = (hd, s)" by (cases st)
  define own where "own = rem ! (2 * i) AND NOT (node_bit r)"
  show ?thesis
  proof (cases "pl i \<and> \<not> hd i \<and> isZeroOrPowerOf2 own \<and> own \<noteq> 0 \<and> new i")
    case False
    then have "snd (downgrade_step E c r a m pl new rem i st) = s"
      by (auto simp: downgrade_step_def st Let_def own_def)
    then show ?thesis by (auto simp: told_def st)
  next
    case True
    then obtain w where w: "ranks own = {w}"
      unfolding isZeroOrPowerOf2_iff by (metis ex_in_conv is_singletonI' is_singletonE ranks_empty_iff)
    then have "w \<in> ranks (rem ! (2 * i)) - {r}" using r by (auto simp: own_def)
    then have "w \<noteq> r" "w < numtasks c" using rem [of "2 * i"] \<open>i < m\<close> by auto
    then have ow: "find_owner c invalid_node own = w"
      using w few_nodes by (intro find_owner_single)
    have l0: "get_sharer_win_offset c (load_class c a 0) = 2 * (a div PAGE_SIZE c)"
      unfolding load_class_def sharer_win_offset_class
      using load_class_eq [OF assms(1-3)] by (simp add: load_class_def)
    obtain q where "snd (downgrade_step E c r a m pl new rem i st)
        = accumulate_sharers E c w (sharer_mask r m q) (2 * (a div PAGE_SIZE c)) s"
      using True ow by (auto simp: downgrade_step_def st Let_def own_def sharer_op_def l0)
    moreover have "told r s (accumulate_sharers E c w (sharer_mask r m q) (2 * (a div PAGE_SIZE c)) s)"
      unfolding told_def accumulate_sharers_def
    proof (intro conjI allI)
      fix n k
      let ?u = "upd w (\<lambda>nd. set_sharers (MPI_Accumulate_bor E (sharer_mask r m q) (2 * (a div PAGE_SIZE c))
          (globalSharers nd)) nd) s"
      have "dir_at ?u n k = dir_at s n k \<union> (if n = w \<and> even k \<and> in_chunk (a div PAGE_SIZE c) m k
          \<and> q (k div 2 - a div PAGE_SIZE c) then {r} else {})"
        using ranks_masked [OF r] by (cases "n = w") (simp_all add: accumulate_bor set_sharers_def)
      then show "dir_at s n k \<subseteq> dir_at ?u n k" "dir_at ?u n k \<subseteq> dir_at s n k \<union> {r}"
          "odd k \<longrightarrow> dir_at ?u n k = dir_at s n k" by auto
    qed (use \<open>w \<noteq> r\<close> in simp_all)
    ultimately show ?thesis by (simp add: st)
  qed
qed

lemma told_trans: "told r s t \<Longrightarrow> told r t u \<Longrightarrow> told r s u"
  unfolding told_def by (auto intro: only_dir_trans) blast+

lemma downgrade_loop_told:
  assumes "PAGE_SIZE c dvd a" and "good_chunk c a m" and "0 < m" and "r < 64"
    and "\<And>k. k < 2 * m \<Longrightarrow> ranks (rem ! k) \<subseteq> {..<numtasks c}"
  shows "told r s (snd (fold (downgrade_step E c r a m pl new rem) [0..<m] (hp, s)))"
proof -
  show ?thesis
  proof (rule fold_invariant_set [where P = "\<lambda>st. told r s (snd st)"])
    show "told r s (snd (hp, s))" by (auto simp: told_def)
    fix i and st :: "(nat \<Rightarrow> bool) \<times> cluster"
    assume "i \<in> set [0..<m]" and "told r s (snd st)"
    then show "told r s (snd (downgrade_step E c r a m pl new rem i st))"
      using told_trans downgrade_step_told [OF assms] by auto
  qed
qed

lemma chunk_page_iff:
  assumes "is_page c a" and "is_page c q"
  shows "in_chunk (a div PAGE_SIZE c) m (get_classification_index c q) \<longleftrightarrow>
           (\<exists>i < m. q = chunk_page c a i \<and> q div PAGE_SIZE c - a div PAGE_SIZE c = i)"
proof -
  obtain x y where a: "a = PAGE_SIZE c * x" and q: "q = PAGE_SIZE c * y"
    using assms unfolding is_page_def by (elim conjE dvdE)
  have xy: "a div PAGE_SIZE c = x" "q div PAGE_SIZE c = y" using page_pos by (simp_all add: a q)
  have iff: "q = chunk_page c a i \<longleftrightarrow> y = x + i" for i
  proof -
    have "chunk_page c a i = PAGE_SIZE c * (x + i)" by (simp add: a add_mult_distrib2 mult.commute)
    then show ?thesis using page_pos by (simp add: q)
  qed
  show ?thesis
    unfolding in_chunk_def class_index [OF assms(2)] iff xy by (auto simp: le_iff_add)
qed

lemma directory_words:
  assumes co: "coherent_at c r L {} s" and r: "r < numtasks c" and a: "is_page c a"
    and ch: "good_chunk c a m" "0 < m" and "home_of c a \<noteq> r" and newm: "\<forall>i. new i \<longrightarrow> i < m"
    and reg: "register_sharer E c r a m (home_of c a) new s = (rem, s1)"
  shows "registered r (home_of c a) (a div PAGE_SIZE c) m pl new s
           (snd (fold (downgrade_step E c r a m pl new rem) [0..<m]
                  (\<lambda>_. False, add_remote_sharers c r a m pl rem s1)))"
proof -
  define t where "t = snd (fold (downgrade_step E c r a m pl new rem) [0..<m]
                  (\<lambda>_. False, add_remote_sharers c r a m pl rem s1))"
  define h where "h = home_of c a"
  define A where "A = a div PAGE_SIZE c"
  define s2 where "s2 = add_remote_sharers c r a m pl rem s1"
  define any where "any \<longleftrightarrow> (\<exists>i. new i)"
  have al: "PAGE_SIZE c dvd a" using a by (simp add: is_page_def)
  have hN: "h < numtasks c" "h \<noteq> r" using home_less [OF a] \<open>home_of c a \<noteq> r\<close> by (simp_all add: h_def)
  have dir: "dir_ok c s" using co by (simp add: coherent_at_def)
  note e1 = register_sharer_effect [OF al ch rank_64 [OF r] newm reg, folded h_def A_def any_def]
  note e2 = add_remote_sharers_effect [OF al ch(1) rank_64 [OF r], where pl = pl and rem = rem and s = s1, folded s2_def A_def]
  have rm: "ranks (rem ! (k - 2 * A)) = (if any then dir_at s h k else {})" if "in_chunk A m k" for k
  proof -
    have "2 * A \<le> k" "k - 2 * A < 2 * m" using that by (auto simp: in_chunk_def)
    with e1(4) [of "k - 2 * A"] show ?thesis by (simp only: le_add_diff_inverse)
  qed
  have rem: "ranks (rem ! k) \<subseteq> {..<numtasks c}" if "k < 2 * m" for k
    using e1(4) [OF that] dir hN by (auto simp: dir_ok_def)
  have told: "told r s2 t"
    unfolding t_def s2_def by (rule downgrade_loop_told [OF al ch rank_64 [OF r]]) (rule rem)
  have N: "dir_at s n k \<subseteq> dir_at t n k \<and> dir_at t n k \<subseteq> dir_at s n k \<union> {r}
      \<and> (odd k \<longrightarrow> dir_at t n k = dir_at s n k)" if "n \<noteq> r" for n k
  proof -
    have 1: "dir_at s2 n k \<subseteq> dir_at t n k" "dir_at t n k \<subseteq> dir_at s2 n k \<union> {r}"
        "odd k \<Longrightarrow> dir_at t n k = dir_at s2 n k" using told by (simp_all add: told_def)
    have "dir_at s n k \<subseteq> dir_at s1 n k \<and> dir_at s1 n k \<subseteq> dir_at s n k \<union> {r}
        \<and> (odd k \<longrightarrow> dir_at s1 n k = dir_at s n k)"
      using e1(2) [of n] e1(3) [of k] by (cases "n = h") auto
    then show ?thesis using 1 unfolding e2(2) [OF that] by blast
  qed
  have H: "r \<in> dir_at t h k" if "even k" "in_chunk A m k" "new (k div 2 - A)" for k
  proof -
    have "dir_at s2 h k \<subseteq> dir_at t h k" using told by (simp add: told_def)
    then show ?thesis using e1(3) [of k] that unfolding e2(2) [OF hN(2)] by auto
  qed
  have R: "dir_at t r k = dir_at s r k \<union> (if in_chunk A m k \<and> pl (k div 2 - A)
      then (if any then dir_at s h k else {}) \<union> (if even k then {r} else {}) else {})" for k
  proof -
    have "globalSharers (t r) = globalSharers (s2 r)" using told by (simp add: told_def)
    then show ?thesis
      using e2(3) [of k] e1(2) [OF hN(2) [symmetric]] rm [of k] by (cases "in_chunk A m k") simp_all
  qed
  have "only_dir s t"
    using only_dir_trans [OF e1(1) only_dir_trans [OF e2(1)]] told by (simp add: told_def)
  then show ?thesis
    unfolding registered_def h_def [symmetric] A_def [symmetric] t_def [symmetric] any_def [symmetric]
    using N H R by blast
qed

lemma registered_coherent:
  assumes co: "coherent_at c r L {} s" and r: "r < numtasks c" and a: "is_page c a"
    and ch: "good_chunk c a m" and hr: "home_of c a \<noteq> r" and pl: "\<forall>i. pl i \<longrightarrow> i < m"
  defines "new \<equiv> \<lambda>i. i < m \<and> pl i \<and> globalSharers (s r) (load_class c a i) AND node_bit r = 0"
  assumes reg: "registered r (home_of c a) (a div PAGE_SIZE c) m pl new s t"
  shows "coherent_at c r L {} t" and "only_dir s t" and "pl i \<Longrightarrow> r \<in> sharers c t r (chunk_page c a i)"
proof -
  define h where "h = home_of c a"
  define A where "A = a div PAGE_SIZE c"
  define any where "any \<longleftrightarrow> (\<exists>i. new i)"
  have hN: "h < numtasks c" "h \<noteq> r" using home_less [OF a] hr by (simp_all add: h_def)
  have dir: "dir_ok c s" using co by (simp add: coherent_at_def)
  have N: "dir_at s n k \<subseteq> dir_at t n k \<and> dir_at t n k \<subseteq> dir_at s n k \<union> {r}
      \<and> (odd k \<longrightarrow> dir_at t n k = dir_at s n k)" if "n \<noteq> r" for n k
    using reg that by (simp add: registered_def)
  have H: "r \<in> dir_at t h k" if "even k" "in_chunk A m k" "new (k div 2 - A)" for k
    using reg that by (simp add: registered_def h_def A_def)
  have R: "dir_at t r k = dir_at s r k \<union> (if in_chunk A m k \<and> pl (k div 2 - A)
      then (if any then dir_at s h k else {}) \<union> (if even k then {r} else {}) else {})" for k
    using reg unfolding registered_def h_def A_def any_def by blast
  have chunk: "home_of c q = h" "q = chunk_page c a (get_classification_index c q div 2 - A)"
      "get_classification_index c q div 2 - A < m"
    if "is_page c q" "in_chunk A m (get_classification_index c q)" for q
    using that(2) ch class_index [OF that(1)] unfolding A_def chunk_page_iff [OF a that(1)]
    by (auto simp: good_chunk_def h_def)
  have nw: "new (get_classification_index c q div 2 - A) \<longleftrightarrow> pl (get_classification_index c q div 2 - A)
      \<and> r \<notin> sharers c s r q" if "is_page c q" "in_chunk A m (get_classification_index c q)" for q
    using chunk(2,3) [OF that] rank_64 [OF r]
    by (simp add: new_def load_class_def and_node_bit_iff sharers_def)
  have ev: "even (get_classification_index c q)" "odd (get_classification_index c q + 1)"
      "in_chunk A m (get_classification_index c q + 1) = in_chunk A m (get_classification_index c q)"
      "(get_classification_index c q + 1) div 2 = get_classification_index c q div 2" if "is_page c q" for q
    using class_index [OF that] by (simp_all add: in_chunk_def)
  show od: "only_dir s t" using reg by (simp add: registered_def)
  have Wh: "writers c t (home_of c q) q = writers c s (home_of c q) q" if q: "is_page c q" for q
    using N [of "home_of c q" "get_classification_index c q + 1"] R [of "get_classification_index c q + 1"]
      ev [OF q] chunk(1) [OF q] hN(2)
    by (cases "home_of c q = r") (auto simp: writers_def)
  have S: "n \<in> sharers c s n q \<Longrightarrow> n \<in> sharers c t n q" for n q
    using N [of n "get_classification_index c q"] R [of "get_classification_index c q"]
    by (cases "n = r") (auto simp: sharers_def)
  have Wn: "writers c t n q = writers c s n q \<union> (if n = r \<and> in_chunk A m (get_classification_index c q)
      \<and> pl (get_classification_index c q div 2 - A) \<and> any then writers c s h q else {})" if q: "is_page c q" for n q
    using N [of n "get_classification_index c q + 1"] R [of "get_classification_index c q + 1"] ev [OF q]
    by (cases "n = r") (auto simp: writers_def)
  have "dir_ok c t"
    unfolding dir_ok_def
  proof (intro conjI allI impI; (elim conjE)?)
    fix n k assume n: "n < numtasks c"
    show "dir_at t n k \<subseteq> {..<numtasks c}"
    proof -
      have "dir_at s n k \<subseteq> {..<numtasks c}" "dir_at s h k \<subseteq> {..<numtasks c}"
        using dir n hN(1) by (simp_all add: dir_ok_def)
      then show ?thesis using r N [of n k] R [of k] by (cases "n = r") auto
    qed
  next
    fix n q assume n: "n < numtasks c" and q: "is_page c q"
    have "writers c s n q \<subseteq> writers c s (home_of c q) q" using dir n q by (simp add: dir_ok_def)
    then show "writers c t n q \<subseteq> writers c t (home_of c q) q"
      using chunk(1) [OF q] unfolding Wh [OF q] Wn [OF q] by auto
  next
    fix n q assume n: "n < numtasks c" and q: "is_page c q" and hq: "home_of c q \<noteq> n"
      and sh: "n \<in> sharers c t n q"
    let ?k = "get_classification_index c q"
    have was: "n \<in> sharers c s (home_of c q) q \<and> (writers c s (home_of c q) q \<subseteq> {n} \<or> \<not> writers c s n q \<subseteq> {n})"
      if "n \<in> sharers c s n q" using dir n q hq that by (auto simp: dir_ok_def)
    have mono: "sharers c s (home_of c q) q \<subseteq> sharers c t (home_of c q) q"
      using N [of "home_of c q" ?k] R [of ?k] by (cases "home_of c q = r") (auto simp: sharers_def)
    consider (old) "n \<in> sharers c s n q" | (new) "n = r" "in_chunk A m ?k" "new (?k div 2 - A)"
      using sh N [of n ?k] R [of ?k] nw [OF q] by (cases "n = r") (auto simp: sharers_def split: if_splits)
    then have "n \<in> sharers c t (home_of c q) q
        \<and> (writers c t (home_of c q) q \<subseteq> {n} \<or> \<not> writers c t n q \<subseteq> {n})"
    proof cases
      case old
      with was [OF old] mono Wn [OF q, of n] show ?thesis by (auto simp: Wh [OF q])
    next
      case new
      then have "home_of c q = h" "any" "pl (?k div 2 - A)"
        using chunk(1) [OF q] nw [OF q] by (auto simp: any_def)
      with new H [OF ev(1) [OF q] new(2,3)] Wn [OF q, of n] show ?thesis
        by (auto simp: sharers_def Wh [OF q])
    qed
    then show "n \<in> sharers c t (home_of c q) q" and "writers c t (home_of c q) q \<subseteq> {n} \<or> \<not> writers c t n q \<subseteq> {n}"
      by simp_all
  qed
  moreover have "n \<in> sharers c s n q" if "n \<in> sharers c t n q" "is_page c q" "home_of c q = n" for n q
    using that N [of n "get_classification_index c q"] R [of "get_classification_index c q"]
      chunk(1) [OF that(2)] hN(2) by (cases "n = r") (auto simp: sharers_def split: if_splits)
  ultimately show "coherent_at c r L {} t" using Wh S by (intro dir_step_coherent [OF co od]) auto
  show "r \<in> sharers c t r (chunk_page c a i)" if i: "pl i"
  proof -
    have im: "i < m" using pl i by simp
    then have p: "is_page c (chunk_page c a i)" using ch by (simp add: good_chunk_def)
    have "get_classification_index c (chunk_page c a i) = 2 * (A + i)"
      using class_index [OF p] page_pos by (simp add: A_def)
    then show ?thesis using R [of "2 * (A + i)"] i im by (auto simp: sharers_def in_chunk_def)
  qed
qed

end
end
