(* ===== verification/Coherence_Fill.thy ===== *)
theory Coherence_Fill
  imports Coherence_Load
begin

text \<open>
  The last phase of a load, filling the claimed entries with the fetched data, and the result
  for \<^verbatim>\<open>load_cache_entry\<close> as a whole: it returns, keeps the invariant of the cluster, leaves the
  locks as it found them, and the requested page is cached with the bytes of its home.
\<close>

section \<open>Filling the entries\<close>

definition fill_node :: "swdsm_config \<Rightarrow> nat \<Rightarrow> nat \<Rightarrow> byte list \<Rightarrow> node \<Rightarrow> node" where
  "fill_node c i q block nd = nd\<lparr>
     backing := splice block (i * PAGE_SIZE c) (backing nd),
     vmap := (if tag (cacheControl nd i) = GLOBAL_NULL c then (vmap nd)(q := Some (PAGE_SIZE c * i)) else vmap nd),
     vprot := (vprot nd)(q := PROT_READ),
     touchedcache := (touchedcache nd)(i := True),
     cacheControl := (cacheControl nd)(i := \<lparr>state = VALID, dirty = CLEAN,
        tag = (if tag (cacheControl nd i) = GLOBAL_NULL c then q else tag (cacheControl nd i))\<rparr>)\<rparr>"

context dsm
begin

lemma fill_entry_eq:
  "fill_entry c r a i pl data p s =
     (if pl p
      then (if p \<noteq> 0 then cache_unlock r (i + p) else id)
             (upd r (fill_node c (i + p) (chunk_page c a p) (take (PAGE_SIZE c) (drop (p * PAGE_SIZE c) data))) s)
      else s)"
proof -
  have *: "(upd r (\<lambda>nd. set_entry (i + p) ((cacheControl nd (i + p))\<lparr>state := VALID, dirty := CLEAN\<rparr>)
                                (nd\<lparr>touchedcache := (touchedcache nd)(i + p := True)\<rparr>))
         (upd r (\<lambda>nd.
                     if tag (cacheControl nd (i + p)) = GLOBAL_NULL c
                     then set_entry (i + p) ((cacheControl nd (i + p))\<lparr>tag := chunk_page c a p\<rparr>)
                            (map_memory c (chunk_page c a p) (PAGE_SIZE c) (PAGE_SIZE c * (i + p)) PROT_READ nd)
                     else mprotect c (chunk_page c a p) (PAGE_SIZE c) PROT_READ nd)
           (upd r (\<lambda>nd. nd\<lparr>backing := splice block ((i + p) * PAGE_SIZE c) (backing nd)\<rparr>) s)))
       = upd r (fill_node c (i + p) (chunk_page c a p) block) s" for block
    by (rule trans [OF upd_upd trans [OF upd_upd upd_cong_at]])
      (auto simp: fill_node_def set_entry_def map_memory_page mprotect_page
        intro!: node.equality control_data.equality)
  show ?thesis unfolding fill_entry_def Let_def block_size_eq * by simp
qed

lemma fill_node_ok:
  assumes ok: "node_ok c L {} r nd" and q: "is_page c q" "getCacheIndex c q = i" "home_of c q \<noteq> r"
    and iv: "state (cacheControl nd i) = INVALID" and tg: "tag (cacheControl nd i) \<in> {q, GLOBAL_NULL c}"
  shows "node_ok c L {} r (fill_node c i q block nd)"
proof -
  have i: "i < cachesize c" using cache_index_less q(2) by auto
  have si: "slot_ok c r nd i" using ok i by (simp add: node_ok_def)
  have cl: "dirty (cacheControl nd i) = CLEAN" using si iv by (simp add: slot_ok_def Let_def)
  have "slot_ok c r (fill_node c i q block nd) k" if k: "k < cachesize c" for k
  proof (cases "k = i")
    case True
    with si tg q page_not_null [OF q(1)] show ?thesis
      by (auto simp: slot_ok_def Let_def fill_node_def slot_prot_def)
  next
    case False
    have sk: "slot_ok c r nd k" using ok k by (simp add: node_ok_def)
    with False q(2) have "tag (cacheControl nd k) \<noteq> GLOBAL_NULL c \<Longrightarrow> tag (cacheControl nd k) \<noteq> q"
      by (auto simp: slot_ok_def Let_def)
    with sk False show ?thesis by (auto simp: slot_ok_def Let_def fill_node_def)
  qed
  moreover have "pages_ok c r (fill_node c i q block nd)"
    unfolding pages_ok_def
  proof (intro allI impI)
    fix p assume p: "is_page c p"
    have "getCacheIndex c p = i \<Longrightarrow> p \<noteq> q \<Longrightarrow> tag (cacheControl nd (getCacheIndex c p)) \<noteq> p"
      using tg page_not_null [OF p] by auto
    then show "if home_of c p = r
       then vprot (fill_node c i q block nd) p \<noteq> PROT_NONE \<longrightarrow>
         vmap (fill_node c i q block nd) p = Some (cacheoffset c + off_of c p)
       else tag (cacheControl (fill_node c i q block nd) (getCacheIndex c p)) \<noteq> p \<longrightarrow>
         vprot (fill_node c i q block nd) p = PROT_NONE"
      using ok p q tg by (auto simp: node_ok_def pages_ok_def fill_node_def)
  qed
  moreover have "buffer_ok c {} (fill_node c i q block nd)"
  proof -
    have "i \<notin> set (wb_buffer nd)"
      using ok cl unfolding node_ok_def buffer_ok_def by (metis cache_dirty.distinct(1))
    then show ?thesis using ok by (auto simp: node_ok_def buffer_ok_def fill_node_def)
  qed
  ultimately show ?thesis using ok by (simp add: node_ok_def fill_node_def)
qed

lemma fill_bytes:
  assumes "length block = PAGE_SIZE c" and "j < PAGE_SIZE c" and "i < cachesize c"
  shows "cache_byte c (upd r (fill_node c i q block) s) r p j
           = (if getCacheIndex c p = i then block ! j else cache_byte c s r p j)"
    and "home_byte c (upd r (fill_node c i q block) s) = home_byte c s"
proof -
  have "getCacheIndex c p * PAGE_SIZE c + j \<noteq> i * PAGE_SIZE c + j'" if "getCacheIndex c p \<noteq> i" "j' < PAGE_SIZE c" for j'
    using that assms(2) block_offset_inj by metis
  then have "\<not> (i * PAGE_SIZE c \<le> PAGE_SIZE c * getCacheIndex c p + j
      \<and> PAGE_SIZE c * getCacheIndex c p + j < i * PAGE_SIZE c + PAGE_SIZE c)" if "getCacheIndex c p \<noteq> i"
    using that by (metis add_diff_inverse_nat linorder_not_less mult.commute nat_add_left_cancel_less)
  then show "cache_byte c (upd r (fill_node c i q block) s) r p j
           = (if getCacheIndex c p = i then block ! j else cache_byte c s r p j)"
    using assms(1,2) by (auto simp: cache_byte_def fill_node_def splice_def mult.commute)
  have "data_window c (fill_node c i q block nd) = data_window c nd" for nd
  proof -
    have "i * PAGE_SIZE c + PAGE_SIZE c \<le> cacheoffset c"
      using assms(3) cache_below mult_le_mono1 [of "Suc i" "cachesize c" "PAGE_SIZE c"] by simp
    then show ?thesis using assms(1) by (auto simp: data_window_def fill_node_def splice_def)
  qed
  then show "home_byte c (upd r (fill_node c i q block) s) = home_byte c s"
    by (intro ext) (auto simp: home_byte_def upd_def)
qed

lemma fill_coherent:
  assumes co: "coherent_at c r L {} s" and r: "r < numtasks c"
    and q: "is_page c q" "getCacheIndex c q = i" "home_of c q \<noteq> r" "r \<in> sharers c s r q"
    and iv: "state (cacheControl (s r) i) = INVALID" and tg: "tag (cacheControl (s r) i) \<in> {q, GLOBAL_NULL c}"
    and bl: "length block = PAGE_SIZE c" "\<And>j. j < PAGE_SIZE c \<Longrightarrow> block ! j = home_byte c s q j"
  shows "coherent_at c r L {} (upd r (fill_node c i q block) s)"
proof -
  let ?t = "upd r (fill_node c i q block) s"
  have i: "i < cachesize c" using cache_index_less q(2) by auto
  have tagq: "tag (cacheControl (?t r) i) = q" using tg by (auto simp: fill_node_def)
  have v: "sharers c ?t = sharers c s" "writers c ?t = writers c s" "twin_byte c ?t = twin_byte c s"
    by (intro ext; simp add: sharers_def writers_def twin_byte_def fill_node_def upd_def)+
  have g: "globalSharers (?t n) = globalSharers (s n)" for n by (simp add: fill_node_def upd_def)
  have cb: "n \<noteq> r \<Longrightarrow> cache_byte c ?t n p j = cache_byte c s n p j" for n p j
    by (simp add: cache_byte_def)
  have old: "cached c ?t n p \<longleftrightarrow> cached c s n p" "dirty_at c ?t n p \<longleftrightarrow> dirty_at c s n p"
    if "\<not> (n = r \<and> getCacheIndex c p = i)" for n p
    using that by (cases "n = r"; simp add: cached_def dirty_at_def fill_node_def)+
  have at: "cached c ?t r p \<longleftrightarrow> p = q" "\<not> dirty_at c ?t r p" if "getCacheIndex c p = i" for p
    using that tagq q(2) by (auto simp: cached_def dirty_at_def fill_node_def)
  have "dir_ok c ?t" using co by (simp add: coherent_at_def dir_ok_def v g)
  moreover have "link_ok c ?t"
    unfolding link_ok_def
  proof (intro allI impI)
    fix n p assume n: "n < numtasks c" and p: "is_page c p"
    have vp: "home_of c p = n \<Longrightarrow> vprot (?t n) p = vprot (s n) p"
      using q(3) by (cases "n = r") (auto simp: fill_node_def)
    show "if home_of c p = n
      then (vprot (?t n) p = PROT_READ_WRITE \<longrightarrow> n \<in> writers c ?t n p)
         \<and> (n \<in> sharers c ?t n p \<or> n \<in> writers c ?t n p \<longrightarrow> vprot (?t n) p \<noteq> PROT_NONE)
      else (cached c ?t n p \<longrightarrow> n \<in> sharers c ?t n p)
         \<and> (dirty_at c ?t n p \<longrightarrow> (\<forall>m. m \<noteq> n \<longrightarrow> \<not> writers c ?t (home_of c p) p \<subseteq> {m}))"
      using co n p vp old [of n p] at [of p] q(4) unfolding v coherent_at_def link_ok_def
      by (cases "n = r \<and> getCacheIndex c p = i") auto
  qed
  moreover have "data_ok c ?t"
    unfolding data_ok_def
  proof (intro allI impI, elim conjE)
    fix n p j
    assume n: "n < numtasks c" and p: "is_page c p" and j: "j < PAGE_SIZE c" and h: "home_of c p \<noteq> n"
      and ca: "cached c ?t n p" and wr: "writers c ?t (home_of c p) p \<subseteq> {n}"
    show "home_byte c ?t p j = (if dirty_at c ?t n p then twin_byte c ?t n p j else cache_byte c ?t n p j)"
    proof (cases "n = r \<and> getCacheIndex c p = i")
      case True
      then show ?thesis using at [of p] ca bl(2) [OF j] fill_bytes [OF bl(1) j i] by simp
    next
      case False
      then have "cache_byte c ?t n p j = cache_byte c s n p j"
        using fill_bytes(1) [OF bl(1) j i] cb by (cases "n = r") auto
      then show ?thesis
        using co n p j h ca wr False old fill_bytes(2) [OF bl(1) j i]
        unfolding coherent_at_def data_ok_def v by auto
    qed
  qed
  moreover have "node_ok c L {} r (?t r)"
    using fill_node_ok [OF coherent_at_node [OF co r] q(1-3) iv tg] by simp
  ultimately show ?thesis using coherent_at_other [OF co] by (intro coherent_atI) simp_all
qed

section \<open>load\_cache\_entry keeps the invariant\<close>

lemma fill_loop:
  assumes r: "r < numtasks c" and a: "is_page c a" "home_of c a \<noteq> r" and ch: "good_chunk c a m"
    and "k \<le> m" "0 < m" and pl: "\<forall>i. pl i \<longrightarrow> i < m" "pl 0"
    and co: "coherent_at c r (insert (getCacheIndex c a) ((\<lambda>i. getCacheIndex c a + i) ` {i. pl i})) {} s"
    and cl: "\<forall>i. pl i \<longrightarrow> state (cacheControl (s r) (getCacheIndex c a + i)) = INVALID
        \<and> tag (cacheControl (s r) (getCacheIndex c a + i)) \<in> {chunk_page c a i, GLOBAL_NULL c}
        \<and> r \<in> sharers c s r (chunk_page c a i)"
  defines "data \<equiv> fetch_data E c (home_of c a) (off_of c a) m s"
  defines "t \<equiv> \<lambda>k. fold (fill_entry c r a (getCacheIndex c a) pl data) [0..<k] s"
  shows "coherent_at c r (insert (getCacheIndex c a) ((\<lambda>i. getCacheIndex c a + i) ` {i. pl i \<and> k \<le> i})) {} (t k)
     \<and> (\<forall>i \<ge> k. cacheControl (t k r) (getCacheIndex c a + i) = cacheControl (s r) (getCacheIndex c a + i))
     \<and> globalSharers (t k r) = globalSharers (s r) \<and> home_byte c (t k) = home_byte c s
     \<and> (0 < k \<longrightarrow> cacheControl (t k r) (getCacheIndex c a) = \<lparr>state = VALID, dirty = CLEAN, tag = a\<rparr>
          \<and> (\<forall>j < PAGE_SIZE c. cache_byte c (t k) r a j = home_byte c s a j))"
  using \<open>k \<le> m\<close>
proof (induction k)
  case 0
  then show ?case using co by (simp add: t_def)
next
  case (Suc k)
  let ?i = "getCacheIndex c a" and ?p = "chunk_page c a k"
  let ?L = "\<lambda>k. insert ?i ((\<lambda>i. ?i + i) ` {i. pl i \<and> k \<le> i})"
  let ?b = "take (PAGE_SIZE c) (drop (k * PAGE_SIZE c) data)"
  define u where "u = t k"
  have IH: "coherent_at c r (?L k) {} u" "cacheControl (u r) (?i + k) = cacheControl (s r) (?i + k)"
      "\<And>i. i \<ge> Suc k \<Longrightarrow> cacheControl (u r) (?i + i) = cacheControl (s r) (?i + i)"
      "globalSharers (u r) = globalSharers (s r)" "home_byte c u = home_byte c s"
      "0 < k \<Longrightarrow> cacheControl (u r) ?i = \<lparr>state = VALID, dirty = CLEAN, tag = a\<rparr>
          \<and> (\<forall>j < PAGE_SIZE c. cache_byte c u r a j = home_byte c s a j)"
    using Suc by (simp_all add: u_def)
  have step: "t (Suc k) = fill_entry c r a ?i pl data k u" by (simp add: t_def u_def)
  have pk: "is_page c ?p" "getCacheIndex c ?p = ?i + k" "home_of c ?p = home_of c a"
      "off_of c ?p = off_of c a + k * PAGE_SIZE c"
    using ch Suc.prems by (auto simp: good_chunk_def)
  have i: "?i + k < cachesize c" using cache_index_less [of ?p] pk(2) by simp
  show ?case
  proof (cases "pl k")
    case False
    then have "k \<noteq> 0" using pl(2) by metis
    moreover have "?L (Suc k) = ?L k" using False by (auto simp: Suc_le_eq le_less)
    ultimately have "k \<noteq> 0" and "?L (Suc k) = ?L k" .
    with False IH show ?thesis by (simp add: step fill_entry_eq)
  next
    case True
    have lb: "length ?b = PAGE_SIZE c"
      using mult_le_mono1 [of "Suc k" m "PAGE_SIZE c"] Suc.prems
      by (simp add: data_def fetch_data_def get get_data_win_offset_def)
    have bb: "?b ! j = home_byte c u ?p j" if "j < PAGE_SIZE c" for j
    proof -
      have "k * PAGE_SIZE c + j < m * PAGE_SIZE c" using Suc.prems that by (intro block_offset_less) simp_all
      then have "data ! (k * PAGE_SIZE c + j) = data_window c (s (home_of c a)) (off_of c a + (k * PAGE_SIZE c + j))"
        by (simp add: data_def fetch_data_def get get_data_win_offset_def)
      then show ?thesis using that lb by (simp add: IH(5) home_byte_def pk add.assoc)
    qed
    let ?v = "upd r (fill_node c (?i + k) ?p ?b) u"
    have "coherent_at c r (?L k) {} ?v"
      using cl True IH(2,4) pk a lb bb
      by (intro fill_coherent [OF IH(1) r pk(1,2)]) (auto simp: sharers_def)
    moreover have "?L (Suc k) = (if k \<noteq> 0 then ?L k - {?i + k} else ?L k)"
      using True by (auto simp: Suc_le_eq le_less)
    ultimately have co': "coherent_at c r (?L (Suc k)) {} (t (Suc k))"
      using locks_coherent(2) [of r "?L k" "{}" ?v "?i + k"] r True unfolding step fill_entry_eq
      by (cases "k = 0") (simp_all only: simp_thms if_True if_False id_apply)
    have tk: "t (Suc k) = (if k \<noteq> 0 then cache_unlock r (?i + k) ?v else ?v)"
      using True by (simp add: step fill_entry_eq)
    have fr: "cacheControl (t (Suc k) n) = cacheControl (?v n)" "globalSharers (t (Suc k) n) = globalSharers (?v n)"
        "backing (t (Suc k) n) = backing (?v n)" for n
      unfolding tk by (simp_all add: cache_unlock_def upd_def)
    have un: "cacheControl (t (Suc k) r) = cacheControl (?v r)" "globalSharers (t (Suc k) r) = globalSharers (?v r)"
        "home_byte c (t (Suc k)) = home_byte c ?v" "cache_byte c (t (Suc k)) = cache_byte c ?v"
      using fr home_byte_cong [of "t (Suc k)" ?v] by (simp_all add: cache_byte_def fun_eq_iff)
    have cc: "cacheControl (?v r) x = (if x = ?i + k then \<lparr>state = VALID, dirty = CLEAN, tag = ?p\<rparr>
        else cacheControl (u r) x)" for x
      using cl True IH(2) by (auto simp: fill_node_def)
    have "cache_byte c ?v r a j = home_byte c s a j" if "j < PAGE_SIZE c" for j
      using fill_bytes(1) [OF lb that i] bb [OF that] IH(5,6) that by (cases "k = 0") simp_all
    moreover have "globalSharers (?v r) = globalSharers (s r)" using IH(4) by (simp add: fill_node_def)
    moreover have "home_byte c ?v = home_byte c s"
      using fill_bytes(2) [OF lb page_pos i] IH(5) by simp
    moreover have "cacheControl (?v r) ?i = \<lparr>state = VALID, dirty = CLEAN, tag = a\<rparr>"
      unfolding cc using IH(6) by (cases "k = 0") simp_all
    moreover have "cacheControl (?v r) (?i + x) = cacheControl (s r) (?i + x)" if "Suc k \<le> x" for x
      unfolding cc using IH(3) that by simp
    ultimately show ?thesis using co' unfolding un by blast
  qed
qed

lemma load_cache_entry_effect:
  assumes co: "coherent_at c r {getCacheIndex c a} {} s" and r: "r < numtasks c"
    and a: "is_page c a" "home_of c a \<noteq> r" and nc: "\<not> cached c s r a"
  shows "\<exists>t. load_cache_entry E c r a s = Inr t \<and> coherent_at c r {getCacheIndex c a} {} t
     \<and> cacheControl (t r) (getCacheIndex c a) = \<lparr>state = VALID, dirty = CLEAN, tag = a\<rparr>
     \<and> (\<forall>j < PAGE_SIZE c. cache_byte c t r a j = home_byte c t a j \<and> home_byte c t a j = home_byte c s a j)"
proof -
  let ?i = "getCacheIndex c a"
  have "good_chunk c a 1" using a by (simp add: good_chunk_def)
  then obtain m where m: "m \<ge> 1" "good_chunk c a m"
      "extend_end c a ?i (home_of c a) (off_of c a) [1..<load_size c] (?i + 1) = Inr (?i + m)"
    using extend_end_effect [OF a(1), of 1 "load_size c"] by auto
  have "claimed c r a s 0 (\<lambda>_. False, s)" using co nc by (simp add: claimed_def)
  from claim_loop [OF this r m(2) a(2) order.refl] obtain pl u where
    u: "foldE (claim_entry E c r a ?i) [0..<m] (\<lambda>_. False, s) = Inr (pl, u)" "claimed c r a s m (pl, u)"
    by auto
  define L where "L = insert ?i ((\<lambda>i. ?i + i) ` {i. pl i})"
  have pl: "\<forall>i. pl i \<longrightarrow> i < m" "pl 0" and cu: "coherent_at c r L {} u"
    and cl: "\<And>i. pl i \<Longrightarrow> state (cacheControl (u r) (?i + i)) = INVALID
        \<and> tag (cacheControl (u r) (?i + i)) \<in> {chunk_page c a i, GLOBAL_NULL c}"
    and hk: "home_kept c r s u"
    using u(2) m(1) by (auto simp: claimed_def L_def)
  define v where "v = upd r (\<lambda>nd. nd\<lparr>read_misses := add64 (read_misses nd) 1\<rparr>) u"
  have cv: "coherent_at c r L {} v"
    using cu unfolding v_def by (subst coherent_at_cong [where s = u]) (simp_all add: upd_def)
  define new where "new = (\<lambda>i. i < m \<and> pl i \<and> globalSharers (v r) (load_class c a i) AND node_bit r = 0)"
  obtain rem s1 where reg: "register_sharer E c r a m (home_of c a) new v = (rem, s1)" by force
  define w where "w = snd (fold (downgrade_step E c r a m pl new rem) [0..<m]
      (\<lambda>_. False, add_remote_sharers c r a m pl rem s1))"
  have m0: "0 < m" using m(1) by simp
  have "\<forall>i. new i \<longrightarrow> i < m" by (simp add: new_def)
  from directory_words [OF cv r a(1) m(2) m0 a(2) this reg, of pl]
  have reg': "registered r (home_of c a) (a div PAGE_SIZE c) m pl new v w" by (simp add: w_def)
  note rc = registered_coherent [OF cv r a(1) m(2) a(2) pl(1), folded new_def, OF reg']
  have cw: "coherent_at c r L {} w" and ow: "only_dir v w" and sw: "\<And>i. pl i \<Longrightarrow> r \<in> sharers c w r (chunk_page c a i)"
    using rc by simp_all
  have clw: "\<forall>i. pl i \<longrightarrow> state (cacheControl (w r) (?i + i)) = INVALID
        \<and> tag (cacheControl (w r) (?i + i)) \<in> {chunk_page c a i, GLOBAL_NULL c}
        \<and> r \<in> sharers c w r (chunk_page c a i)"
    using cl sw only_dir_frame(1) [OF ow, of r] by (simp add: v_def)
  define t where "t = fold (fill_entry c r a ?i pl (fetch_data E c (home_of c a) (off_of c a) m w)) [0..<m] w"
  from fill_loop [OF r a m(2) order.refl m0 pl cw [unfolded L_def] clw]
  have t: "coherent_at c r (insert ?i ((\<lambda>i. ?i + i) ` {i. pl i \<and> m \<le> i})) {} t"
    "cacheControl (t r) ?i = \<lparr>state = VALID, dirty = CLEAN, tag = a\<rparr>"
    "\<And>j. j < PAGE_SIZE c \<Longrightarrow> cache_byte c t r a j = home_byte c t a j" "home_byte c t = home_byte c w"
    using m0 by (simp_all add: t_def)
  have "\<not> dirty_at c s r a" using nc dirty_cached [OF co r] by blast
  moreover have "home_byte c w = home_byte c u"
    using only_dir_frame(4) [OF ow] by (intro home_byte_cong) (simp add: v_def upd_def)
  ultimately have hb: "home_byte c t a j = home_byte c s a j" if "j < PAGE_SIZE c" for j
    using hk a(1) that unfolding t(4) by (simp add: home_kept_def)
  have "{i. pl i \<and> m \<le> i} = {}" using pl(1) by auto
  with t(1) have t1: "coherent_at c r {?i} {} t" by simp
  have "load_chunk E c r a ?i m (home_of c a) (off_of c a) s = Inr t"
    using u(1) reg by (simp add: load_chunk_def Let_def v_def new_def w_def t_def case_prod_beta)
  then have "load_cache_entry E c r a s = Inr t"
    using a nc m(3) by (cases "state (slot c s r a)") (auto simp: load_cache_entry_def is_page_def
        cacheline align_backwards_def get_homenode_eq get_offset_eq Let_def cached_def)
  with t1 t(2,3) hb show ?thesis by blast
qed

end
end
