(* ===== verification/Coherence_Handler.thy ===== *)
theory Coherence_Handler
  imports Coherence_Fill
begin

text \<open>
  The fault handler keeps the invariant of the cluster and resolves the fault. The heart is
  the registration of a new writer: \<open>writer_added\<close> is what the updates of the directory amount
  to, and \<open>writer_added_dir_ok\<close> shows that telling only the previous single writer, or only
  the sharers when there was none, suffices.
\<close>

section \<open>A new writer of a page\<close>

definition writer_added :: "swdsm_config \<Rightarrow> nat \<Rightarrow> nat \<Rightarrow> cluster \<Rightarrow> cluster \<Rightarrow> bool" where
  "writer_added c r a s t \<longleftrightarrow> (let k = get_classification_index c a; h = home_of c a in
     only_dir s t
   \<and> (\<forall>n l. dir_at s n l \<subseteq> dir_at t n l)
   \<and> (\<forall>n l. l \<noteq> k \<and> l \<noteq> k + 1 \<longrightarrow> dir_at t n l = dir_at s n l)
   \<and> (\<forall>n. n \<noteq> r \<longrightarrow> dir_at t n k = dir_at s n k) \<and> dir_at t r k \<subseteq> dir_at s r k \<union> dir_at s h k
   \<and> (\<forall>n. dir_at t n (k + 1) \<subseteq> dir_at s n (k + 1) \<union> {r}) \<and> r \<in> dir_at t h (k + 1)
   \<and> (\<forall>m. dir_at s h (k + 1) - {r} = {m} \<longrightarrow> r \<in> dir_at t m (k + 1))
   \<and> (dir_at s h (k + 1) - {r} = {} \<longrightarrow>
        (\<forall>n < numtasks c. n \<noteq> r \<and> n \<in> dir_at s h k \<longrightarrow> r \<in> dir_at t n (k + 1))))"

context dsm
begin

lemma class_index_distinct:
  assumes "is_page c p" and "is_page c q" and "p \<noteq> q"
  shows "get_classification_index c p \<noteq> get_classification_index c q"
    and "get_classification_index c p \<noteq> get_classification_index c q + 1"
    and "get_classification_index c p + 1 \<noteq> get_classification_index c q"
  using assms class_index_inj class_parity [of p q] class_parity [of q p] by auto

lemma writer_added_dir_ok:
  assumes dir: "dir_ok c s" and r: "r < numtasks c" and a: "is_page c a"
    and sh: "home_of c a \<noteq> r \<Longrightarrow> r \<in> sharers c s r a" and w: "writer_added c r a s t"
  shows "dir_ok c t"
  unfolding dir_ok_def
proof (intro conjI allI impI; (elim conjE)?)
  fix n k assume n: "n < numtasks c"
  have s: "dir_at s n k \<subseteq> {..<numtasks c}" "dir_at s (home_of c a) k \<subseteq> {..<numtasks c}"
    using dir n home_less [OF a] by (simp_all add: dir_ok_def)
  have "dir_at t n k \<subseteq> dir_at s n k \<union> dir_at s (home_of c a) k \<union> {r}"
    using w unfolding writer_added_def Let_def
    by (cases "k = get_classification_index c a"; cases "k = get_classification_index c a + 1"; cases "n = r") auto
  with s r show "dir_at t n k \<subseteq> {..<numtasks c}" by auto
next
  fix n q assume n: "n < numtasks c" and q: "is_page c q"
  have s: "writers c s n q \<subseteq> writers c s (home_of c q) q" using dir n q by (simp add: dir_ok_def)
  show "writers c t n q \<subseteq> writers c t (home_of c q) q"
  proof (cases "q = a")
    case True
    have "writers c t n a \<subseteq> writers c s n a \<union> {r}" "r \<in> writers c t (home_of c a) a"
        "writers c s (home_of c a) a \<subseteq> writers c t (home_of c a) a"
      using w by (simp_all add: writer_added_def Let_def writers_def)
    with s True show ?thesis by auto
  next
    case False
    then show ?thesis using s w class_index_distinct [OF q a False]
      by (simp add: writer_added_def Let_def writers_def)
  qed
next
  fix n q assume n: "n < numtasks c" and q: "is_page c q" and hq: "home_of c q \<noteq> n"
    and st: "n \<in> sharers c t n q"
  have was: "n \<in> sharers c s (home_of c q) q \<and> (writers c s (home_of c q) q \<subseteq> {n} \<or> \<not> writers c s n q \<subseteq> {n})"
    if "n \<in> sharers c s n q" using dir n q hq that by (auto simp: dir_ok_def)
  have "n \<in> sharers c t (home_of c q) q
      \<and> (writers c t (home_of c q) q \<subseteq> {n} \<or> \<not> writers c t n q \<subseteq> {n})"
  proof (cases "q = a")
    case False
    then show ?thesis using was st w class_index_distinct [OF q a False]
      by (simp add: writer_added_def Let_def writers_def sharers_def)
  next
    case True
    have ns: "n \<in> sharers c s n a"
      using w sh st hq True by (cases "n = r") (auto simp: writer_added_def Let_def sharers_def)
    have mono: "sharers c s m a \<subseteq> sharers c t m a" "writers c s m a \<subseteq> writers c t m a" for m
      using w by (simp_all add: writer_added_def Let_def sharers_def writers_def)
    have up: "writers c t (home_of c a) a \<subseteq> writers c s (home_of c a) a \<union> {r}"
      using w by (simp add: writer_added_def Let_def writers_def)
    have one: "writers c s (home_of c a) a - {r} = {m} \<Longrightarrow> r \<in> writers c t m a" for m
      using w by (simp add: writer_added_def Let_def writers_def)
    have all: "writers c s (home_of c a) a - {r} = {} \<Longrightarrow> m < numtasks c \<Longrightarrow> m \<noteq> r \<Longrightarrow>
        m \<in> sharers c s (home_of c a) a \<Longrightarrow> r \<in> writers c t m a" for m
      using w by (simp add: writer_added_def Let_def writers_def sharers_def)
    have "writers c t (home_of c a) a \<subseteq> {n} \<or> \<not> writers c t n a \<subseteq> {n}"
    proof (cases "n = r \<or> \<not> writers c s (home_of c a) a \<subseteq> {n}")
      case True
      then show ?thesis using was ns \<open>q = a\<close> up mono(2) [of n] by blast
    next
      case False
      then consider "writers c s (home_of c a) a - {r} = {n}" | "writers c s (home_of c a) a - {r} = {}"
        by blast
      then have "r \<in> writers c t n a" using one all n ns was \<open>q = a\<close> False by cases auto
      then show ?thesis using False by auto
    qed
    then show ?thesis using was ns True mono(1) by blast
  qed
  then show "n \<in> sharers c t (home_of c q) q" and "writers c t (home_of c q) q \<subseteq> {n} \<or> \<not> writers c t n q \<subseteq> {n}"
    by simp_all
qed

lemma writer_added_home:
  assumes w: "writer_added c r a s t" and a: "is_page c a" and q: "is_page c q"
    and n: "home_of c q = n" "n \<in> sharers c t n q"
  shows "n \<in> sharers c s n q"
proof (cases "q = a")
  case True
  then show ?thesis
    using w n by (cases "n = r") (auto simp: writer_added_def Let_def sharers_def)
next
  case False
  then show ?thesis
    using w n(2) class_index_distinct [OF q a False] by (simp add: writer_added_def Let_def sharers_def)
qed

lemma writer_added_home_writer:
  assumes w: "writer_added c r a s t" and a: "is_page c a" and q: "is_page c q"
    and n: "n \<in> writers c t n q"
  shows "n \<in> writers c s n q \<or> n = r \<and> q = a"
proof (cases "q = a")
  case True
  then show ?thesis
    using w n by (auto simp: writer_added_def Let_def writers_def)
next
  case False
  then show ?thesis
    using w n class_index_distinct [OF q a False] by (simp add: writer_added_def Let_def writers_def)
qed

section \<open>Notifications\<close>

text \<open>Telling a node adds \<open>r\<close> to one writer word.\<close>

lemma tell_effect:
  fixes i m d :: nat and s :: cluster
  assumes "r < 64"
  defines "t \<equiv> sharer_op c i (\<lambda>_. accumulate_sharers E c m [node_bit r] d) s"
  shows "only_dir s t" and "dir_at t n k = dir_at s n k \<union> (if n = m \<and> k = d then {r} else {})"
proof -
  show "only_dir s t" by (simp add: t_def sharer_op_def accumulate_sharers_def)
  show "dir_at t n k = dir_at s n k \<union> (if n = m \<and> k = d then {r} else {})"
    using assms(1) by (cases "n = m") (simp_all add: t_def sharer_op_def accumulate_sharers_def
        accumulate_bor bor_splice_single set_sharers_def)
qed

lemma tell_all_effect:
  fixes i d :: nat and s :: cluster and S :: u64
  assumes "r < 64" and N: "numtasks c \<le> 64"
  defines "f \<equiv> \<lambda>n s. if n \<noteq> r \<and> node_bit n AND S \<noteq> 0
       then sharer_op c i (\<lambda>_. accumulate_sharers E c n [node_bit r] d) s else s"
  shows "j \<le> numtasks c \<Longrightarrow> only_dir s (fold f [0..<j] s) \<and> (\<forall>n k. dir_at (fold f [0..<j] s) n k
       = dir_at s n k \<union> (if n < j \<and> n \<noteq> r \<and> n \<in> ranks S \<and> k = d then {r} else {}))"
proof (induction j)
  case 0
  then show ?case by simp
next
  case (Suc j)
  define u where "u = fold f [0..<j] s"
  have u: "only_dir s u" "\<And>n k. dir_at u n k
       = dir_at s n k \<union> (if n < j \<and> n \<noteq> r \<and> n \<in> ranks S \<and> k = d then {r} else {})"
    using Suc by (simp_all add: u_def)
  have bit: "node_bit j AND S \<noteq> 0 \<longleftrightarrow> j \<in> ranks S" using Suc.prems N by (simp add: and_node_bit_iff)
  have "only_dir u (f j u)" using tell_effect(1) [OF assms(1)] by (simp add: f_def)
  then have "only_dir s (f j u)" by (rule only_dir_trans [OF u(1)])
  moreover have "dir_at (f j u) n k
       = dir_at s n k \<union> (if n < Suc j \<and> n \<noteq> r \<and> n \<in> ranks S \<and> k = d then {r} else {})" for n k
    using tell_effect(2) [OF assms(1)] u(2) [of n k] bit by (auto simp: f_def less_Suc_eq)
  moreover have "fold f [0..<Suc j] s = f j u" by (simp add: u_def)
  ultimately show ?case by simp
qed

lemma single_rank: "isZeroOrPowerOf2 w \<longleftrightarrow> ranks w = {} \<or> (\<exists>m. ranks w = {m})"
proof -
  have "(\<forall>m\<in>A. \<forall>n\<in>A. m = n) \<longleftrightarrow> A = {} \<or> (\<exists>m. A = {m})" for A :: "nat set" by blast
  then show ?thesis unfolding isZeroOrPowerOf2_iff by metis
qed

lemma notify_writer_effect:
  fixes i k :: nat and S :: u64 and s :: cluster
  assumes off: "get_sharer_win_offset c k = k" and r: "r < numtasks c" and W: "ranks W \<subseteq> {..<numtasks c}"
  defines "t \<equiv> notify_writer E c r i k W S s"
  shows "only_dir s t \<and> (\<forall>n l. dir_at s n l \<subseteq> dir_at t n l
     \<and> dir_at t n l \<subseteq> dir_at s n l \<union> (if n \<noteq> r \<and> l = k + 1 then {r} else {}))
     \<and> (\<forall>m. ranks W - {r} = {m} \<longrightarrow> r \<in> dir_at t m (k + 1))
     \<and> (ranks W - {r} = {} \<longrightarrow> (\<forall>m < numtasks c. m \<noteq> r \<and> m \<in> ranks S \<longrightarrow> r \<in> dir_at t m (k + 1)))"
proof -
  have r64: "r < 64" using r by (rule rank_64)
  have w0: "W = node_bit r \<longleftrightarrow> ranks W = {r}" using r64 by (rule eq_node_bit_iff)
  consider (one) m where "ranks W - {r} = {m}" | (none) "ranks W - {r} = {}"
    | (more) "\<not> isZeroOrPowerOf2 (W AND NOT (node_bit r))"
    using r64 by (auto simp: single_rank simp del: ranks_empty_iff)
  then show ?thesis
  proof cases
    case one
    then have "find_owner c 0 (W AND NOT (node_bit r)) = m"
      using W r64 few_nodes by (intro find_owner_single) auto
    moreover have "isZeroOrPowerOf2 (W AND NOT (node_bit r))" using one r64 by (simp add: single_rank)
    moreover have "W \<noteq> 0" using one by (metis empty_Diff insert_not_empty ranks_0)
    moreover have "W \<noteq> node_bit r" using one unfolding w0 by (metis Diff_cancel insert_not_empty)
    ultimately have t: "t = sharer_op c i (\<lambda>_. accumulate_sharers E c m [node_bit r] (k + 1)) s"
      by (simp add: t_def notify_writer_def Let_def off)
    have "only_dir s t" and d: "\<And>n l. dir_at t n l = dir_at s n l \<union> (if n = m \<and> l = k + 1 then {r} else {})"
      using tell_effect [OF r64] unfolding t by simp_all
    moreover have "m \<noteq> r" using one by (metis DiffE insertI1)
    ultimately show ?thesis using one unfolding d by auto
  next
    case none
    then have W0: "(W = node_bit r \<or> W = 0) = True" using w0 by (auto simp flip: ranks_empty_iff)
    then have W1: "(W \<noteq> node_bit r \<and> W \<noteq> 0 \<and> isZeroOrPowerOf2 (W AND NOT (node_bit r))) = False" by auto
    have t: "t = fold (\<lambda>n s. if n \<noteq> r \<and> node_bit n AND S \<noteq> 0
        then sharer_op c i (\<lambda>_. accumulate_sharers E c n [node_bit r] (k + 1)) s else s) [0..<numtasks c] s"
      unfolding t_def notify_writer_def Let_def off W0 W1 if_True if_False ..
    have "only_dir s t" and d: "\<And>n l. dir_at t n l = dir_at s n l
        \<union> (if n < numtasks c \<and> n \<noteq> r \<and> n \<in> ranks S \<and> l = k + 1 then {r} else {})"
      using tell_all_effect [OF r64 few_nodes order.refl, where s = s and i = i and d = "k + 1" and S = S]
      unfolding t by simp_all
    then show ?thesis using none unfolding d by auto
  next
    case more
    then have "\<not> (W = node_bit r \<or> W = 0)" using r64 by (auto simp: single_rank)
    with more have "t = s" by (auto simp: t_def notify_writer_def Let_def)
    with more show ?thesis using r64 by (auto simp: single_rank simp del: ranks_empty_iff)
  qed
qed

lemma or_sharers_effect:
  "only_dir s (upd n (or_sharers l b) s)"
  "dir_at (upd n (or_sharers l b) s) m j = dir_at s m j \<union> (if m = n \<and> j = l then ranks b else {})"
proof -
  have e: "or_sharers l b = (\<lambda>nd. set_sharers ((globalSharers nd)(l := globalSharers nd l OR b)) nd)"
    by (rule ext) (simp add: or_sharers_def)
  show "only_dir s (upd n (or_sharers l b) s)" unfolding e by (rule only_dir_upd)
  show "dir_at (upd n (or_sharers l b) s) m j = dir_at s m j \<union> (if m = n \<and> j = l then ranks b else {})"
    unfolding e by (cases "m = n") (simp_all add: set_sharers_def)
qed

lemma register_writer_adds:
  assumes dir: "dir_ok c s" and r: "r < numtasks c" and a: "is_page c a" and h: "home_of c a \<noteq> r"
    and go: "globalSharers (s r) (get_classification_index c a + 1) \<noteq> node_bit r"
      "isZeroOrPowerOf2 (globalSharers (s r) (get_classification_index c a + 1))"
  shows "writer_added c r a s (register_writer E c r (get_classification_index c a) (home_of c a) s)"
proof -
  let ?k = "get_classification_index c a" and ?h = "home_of c a"
  define s1 where "s1 = upd r (or_sharers (?k + 1) (node_bit r)) s"
  define s2 where "s2 = upd ?h (or_sharers (?k + 1) (node_bit r)) s1"
  define s3 where "s3 = upd r (or_sharers ?k (globalSharers (s ?h) ?k)) s2"
  define W where "W = globalSharers (s ?h) (?k + 1) OR node_bit r"
  define t where "t = notify_writer E c r (?k + 1) ?k W (globalSharers (s ?h) ?k) s3"
  have r64: "r < 64" using r by (rule rank_64)
  have g2: "upd ?h (set_sharers (bor_splice [node_bit r] (?k + 1) (globalSharers (s1 ?h)))) s1 = s2"
    unfolding s2_def by (rule upd_cong_at) (simp add: bor_splice_single or_sharers_def)
  have h1: "globalSharers (s1 ?h) = globalSharers (s ?h)" using h by (simp add: s1_def)
  have h2: "globalSharers (s2 ?h) ?k = globalSharers (s ?h) ?k"
    using h by (simp add: s2_def or_sharers_def set_sharers_def h1)
  have t: "register_writer E c r ?k ?h s = t"
  proof -
    have sl: "hd (slice d (length [x]) g) = g d" "hd (slice d 1 g) = g d" for d and x :: u64 and g :: "nat \<Rightarrow> u64"
      by (simp_all add: slice_def)
    show ?thesis
      unfolding register_writer_def Let_def sharer_op_def get_accumulate_bor split_beta fst_conv snd_conv
        get_long sharer_win_offset_class s1_def [symmetric] g2 sl h2 unfolding h1 W_def [symmetric]
        s3_def [symmetric] t_def [symmetric] using go by simp
  qed
  have od: "only_dir s s3"
    unfolding s3_def s2_def s1_def by (meson only_dir_trans or_sharers_effect(1))
  have d3: "dir_at s3 n l = dir_at s n l \<union> (if (n = r \<or> n = ?h) \<and> l = ?k + 1 then {r} else {})
      \<union> (if n = r \<and> l = ?k then dir_at s ?h ?k else {})" for n l
    unfolding s3_def s2_def s1_def or_sharers_effect(2) ranks_node_bit [OF r64]
    by (cases "n = r"; cases "n = ?h"; cases "l = ?k + 1"; simp)
  have "ranks W = dir_at s ?h (?k + 1) \<union> {r}" using r64 by (simp add: W_def)
  moreover have "dir_at s ?h (?k + 1) \<subseteq> {..<numtasks c}" using dir home_less [OF a] by (simp add: dir_ok_def)
  ultimately have W: "ranks W \<subseteq> {..<numtasks c}" "ranks W - {r} = dir_at s ?h (?k + 1) - {r}"
    using r by auto
  note nw = notify_writer_effect [OF sharer_win_offset_class [of a] r W(1), where i = "?k + 1" and S = "globalSharers (s ?h) ?k" and s = s3,
      folded t_def, unfolded W(2)]
  have up: "dir_at s3 n l \<subseteq> dir_at t n l" "dir_at t n l \<subseteq> dir_at s3 n l \<union> (if n \<noteq> r \<and> l = ?k + 1 then {r} else {})" for n l
    using nw by simp_all
  show ?thesis
    unfolding t writer_added_def Let_def
  proof (intro conjI allI impI)
    show "only_dir s t" using od nw by (blast intro: only_dir_trans)
    show "r \<in> dir_at t ?h (?k + 1)" using up(1) [of ?h "?k + 1"] by (auto simp: d3)
    show "dir_at s n l \<subseteq> dir_at t n l" for n l using up(1) [of n l] by (auto simp: d3)
    show "dir_at t r ?k \<subseteq> dir_at s r ?k \<union> dir_at s ?h ?k" using up(2) [of r ?k] by (auto simp: d3)
    show "dir_at t n (?k + 1) \<subseteq> dir_at s n (?k + 1) \<union> {r}" for n
      using up(2) [of n "?k + 1"] by (auto simp: d3 split: if_splits)
  next
    fix n l assume "l \<noteq> ?k \<and> l \<noteq> ?k + 1"
    then show "dir_at t n l = dir_at s n l" using up [of n l] by (simp add: d3 subset_antisym)
  next
    fix n assume "n \<noteq> r"
    then show "dir_at t n ?k = dir_at s n ?k" using up [of n ?k] by (simp add: d3 subset_antisym)
  qed (use nw in auto)
qed

lemma register_writer_effect:
  assumes dir: "dir_ok c s" and r: "r < numtasks c" and a: "is_page c a" and h: "home_of c a \<noteq> r"
    and sh: "r \<in> sharers c s r a"
  defines "t \<equiv> register_writer E c r (get_classification_index c a) (home_of c a) s"
  shows "only_dir s t" and "dir_ok c t" and "writers c s n q \<subseteq> writers c t n q"
    and "sharers c s n q \<subseteq> sharers c t n q" and "m \<noteq> r \<Longrightarrow> \<not> writers c t (home_of c a) a \<subseteq> {m}"
    and "is_page c q \<Longrightarrow> home_of c q = n \<Longrightarrow> n \<in> sharers c t n q \<Longrightarrow> n \<in> sharers c s n q"
    and "is_page c q \<Longrightarrow> home_of c q = n \<Longrightarrow> n \<in> writers c t n q \<Longrightarrow> n \<in> writers c s n q"
proof -
  let ?w = "globalSharers (s r) (get_classification_index c a + 1)"
  have "only_dir s t \<and> dir_ok c t \<and> (\<forall>n q. writers c s n q \<subseteq> writers c t n q \<and> sharers c s n q \<subseteq> sharers c t n q)
      \<and> (\<forall>m. m \<noteq> r \<longrightarrow> \<not> writers c t (home_of c a) a \<subseteq> {m})
      \<and> (\<forall>n q. is_page c q \<and> home_of c q = n \<and> n \<in> sharers c t n q \<longrightarrow> n \<in> sharers c s n q)
      \<and> (\<forall>n q. is_page c q \<and> home_of c q = n \<and> n \<in> writers c t n q \<longrightarrow> n \<in> writers c s n q)"
  proof (cases "?w \<noteq> node_bit r \<and> isZeroOrPowerOf2 ?w")
    case True
    then have w: "writer_added c r a s t"
      unfolding t_def using dir r a h by (intro register_writer_adds) auto
    have "dir_ok c t" using writer_added_dir_ok [OF dir r a _ w] sh by simp
    moreover have "n \<in> sharers c s n q" if "is_page c q" "home_of c q = n" "n \<in> sharers c t n q" for n q
      using w a that by (rule writer_added_home)
    moreover have "n \<in> writers c s n q" if "is_page c q" "home_of c q = n" "n \<in> writers c t n q" for n q
      using writer_added_home_writer [OF w a that(1,3)] that(2) h by auto
    ultimately show ?thesis using w by (auto simp: writer_added_def Let_def writers_def sharers_def)
  next
    case False
    then have t: "t = s" by (auto simp: t_def register_writer_def Let_def)
    have sub: "ranks ?w \<subseteq> writers c s (home_of c a) a"
      using dir r a by (auto simp: dir_ok_def writers_def)
    have "\<not> ranks ?w \<subseteq> {m}" if "m \<noteq> r" for m
    proof
      assume "ranks ?w \<subseteq> {m}"
      then have "ranks ?w = {} \<or> ranks ?w = {m}" by (rule subset_singletonD)
      with that have "isZeroOrPowerOf2 ?w \<and> ranks ?w \<noteq> {r}" unfolding single_rank by blast
      with False show False unfolding eq_node_bit_iff [OF rank_64 [OF r]] by blast
    qed
    with sub dir show ?thesis unfolding t by auto
  qed
  then show "only_dir s t" and "dir_ok c t" and "writers c s n q \<subseteq> writers c t n q"
    and "sharers c s n q \<subseteq> sharers c t n q" and "m \<noteq> r \<Longrightarrow> \<not> writers c t (home_of c a) a \<subseteq> {m}"
    and "is_page c q \<Longrightarrow> home_of c q = n \<Longrightarrow> n \<in> sharers c t n q \<Longrightarrow> n \<in> sharers c s n q"
    and "is_page c q \<Longrightarrow> home_of c q = n \<Longrightarrow> n \<in> writers c t n q \<Longrightarrow> n \<in> writers c s n q"
    by auto
qed

lemma begin_write_node_ok:
  assumes ok: "node_ok c {i} {} r nd" and a: "is_page c a" "getCacheIndex c a = i"
    and cc: "cacheControl nd i = \<lparr>state = VALID, dirty = CLEAN, tag = a\<rparr>"
    and new: "cacheControl nd' = (cacheControl nd)(i := \<lparr>state = VALID, dirty = DIRTY, tag = a\<rparr>)"
      "touchedcache nd' = (touchedcache nd)(i := True)" "vmap nd' = vmap nd"
      "vprot nd' = (vprot nd)(a := PROT_READ_WRITE)" "wb_buffer nd' = wb_buffer nd" "cache_locks nd' = (\<lambda>_. False)"
  shows "node_ok c {} {i} r nd'"
proof -
  have i: "i < cachesize c" using cache_index_less a(2) by auto
  have "slot_ok c r nd' k" if k: "k < cachesize c" for k
  proof -
    have sk: "slot_ok c r nd k" and si: "slot_ok c r nd i" using ok k i by (simp_all add: node_ok_def)
    show ?thesis
    proof (cases "k = i")
      case True
      with si cc page_not_null [OF a(1)] show ?thesis
        by (auto simp: slot_ok_def Let_def new slot_prot_def)
    next
      case False
      with sk a(2) have "tag (cacheControl nd k) \<noteq> GLOBAL_NULL c \<Longrightarrow> tag (cacheControl nd k) \<noteq> a"
        by (auto simp: slot_ok_def Let_def)
      with sk False show ?thesis by (auto simp: slot_ok_def Let_def new)
    qed
  qed
  moreover have "pages_ok c r nd'"
    using ok a cc node_home(1) [OF ok a(1)] by (auto simp: node_ok_def pages_ok_def new)
  moreover have "buffer_ok c {i} nd'"
  proof -
    have "i \<notin> set (wb_buffer nd)"
      using ok cc unfolding node_ok_def buffer_ok_def by (metis cache_dirty.distinct(1) control_data.select_convs(2))
    then show ?thesis using ok i by (auto simp: node_ok_def buffer_ok_def new)
  qed
  ultimately show ?thesis by (simp add: node_ok_def new)
qed

lemma splice_slot:
  assumes "length xs = PAGE_SIZE c" and "j < PAGE_SIZE c"
  shows "splice xs (i * PAGE_SIZE c) w (k * PAGE_SIZE c + j) = (if k = i then xs ! j else w (k * PAGE_SIZE c + j))"
proof -
  have "k * PAGE_SIZE c + j \<noteq> i * PAGE_SIZE c + j'" if "k \<noteq> i" "j' < PAGE_SIZE c" for j'
    using that assms(2) block_offset_inj by metis
  then have "\<not> (i * PAGE_SIZE c \<le> k * PAGE_SIZE c + j \<and> k * PAGE_SIZE c + j < i * PAGE_SIZE c + PAGE_SIZE c)" if "k \<noteq> i"
    using that by (metis add_diff_inverse_nat linorder_not_less nat_add_left_cancel_less)
  then show ?thesis using assms by (auto simp: splice_def)
qed

text \<open>Node \<open>r\<close> starts to modify page \<open>a\<close>: the twin is taken and the directory has been told.\<close>

lemma dirty_step_coherent:
  assumes co: "coherent_at c r L D s" and r: "r < numtasks c"
    and a: "is_page c a" "home_of c a \<noteq> r" "cached c s r a" "\<not> dirty_at c s r a"
    and ok: "node_ok c L' D' r (t r)" and oth: "\<And>n. n < numtasks c \<Longrightarrow> n \<noteq> r \<Longrightarrow> node_ok c {} {} n (t n)"
    and dir: "dir_ok c t" and W: "\<And>n q. writers c s n q \<subseteq> writers c t n q" and S: "\<And>n q. sharers c s n q \<subseteq> sharers c t n q"
    and H: "\<And>n q. is_page c q \<Longrightarrow> home_of c q = n \<Longrightarrow> n \<in> sharers c t n q \<Longrightarrow> n \<in> sharers c s n q"
    and O: "\<And>n q. is_page c q \<Longrightarrow> home_of c q = n \<Longrightarrow> n \<in> writers c t n q \<Longrightarrow> n \<in> writers c s n q"
    and known: "\<And>m. m \<noteq> r \<Longrightarrow> \<not> writers c t (home_of c a) a \<subseteq> {m}"
    and ca: "cached c t = cached c s" and da: "\<And>n p. dirty_at c t n p \<longleftrightarrow> dirty_at c s n p \<or> n = r \<and> p = a"
    and byt: "cache_byte c t = cache_byte c s" "home_byte c t = home_byte c s"
    and tw: "\<And>j. j < PAGE_SIZE c \<Longrightarrow> twin_byte c t r a j = cache_byte c s r a j"
      "\<And>n p j. n \<noteq> r \<or> p \<noteq> a \<Longrightarrow> cached c s n p \<Longrightarrow> j < PAGE_SIZE c \<Longrightarrow> twin_byte c t n p j = twin_byte c s n p j"
    and vp: "\<And>n p. is_page c p \<Longrightarrow> home_of c p = n \<Longrightarrow> vprot (t n) p = vprot (s n) p"
  shows "coherent_at c r L' D' t"
proof -
  have link: "link_ok c s" and data: "data_ok c s" using co by (simp_all add: coherent_at_def)
  have "link_ok c t"
    unfolding link_ok_def
  proof (intro allI impI)
    fix n p assume n: "n < numtasks c" and p: "is_page c p"
    show "if home_of c p = n
      then (vprot (t n) p = PROT_READ_WRITE \<longrightarrow> n \<in> writers c t n p)
         \<and> (n \<in> sharers c t n p \<or> n \<in> writers c t n p \<longrightarrow> vprot (t n) p \<noteq> PROT_NONE)
      else (cached c t n p \<longrightarrow> n \<in> sharers c t n p)
         \<and> (dirty_at c t n p \<longrightarrow> (\<forall>m. m \<noteq> n \<longrightarrow> \<not> writers c t (home_of c p) p \<subseteq> {m}))"
      using link [unfolded link_ok_def, rule_format, OF n p] vp [OF p] W S known H [OF p, of n] O [OF p, of n]
      unfolding ca da by (auto split: if_splits) (blast dest: subset_trans)+
  qed
  moreover have "data_ok c t"
    unfolding data_ok_def
  proof (intro allI impI, elim conjE)
    fix n p j
    assume n: "n < numtasks c" and p: "is_page c p" and j: "j < PAGE_SIZE c" and h: "home_of c p \<noteq> n"
      and c': "cached c t n p" and wr: "writers c t (home_of c p) p \<subseteq> {n}"
    have "writers c s (home_of c p) p \<subseteq> {n}" using W wr by blast
    then have "home_byte c s p j = (if dirty_at c s n p then twin_byte c s n p j else cache_byte c s n p j)"
      using data n p j h c' unfolding data_ok_def ca by blast
    then show "home_byte c t p j = (if dirty_at c t n p then twin_byte c t n p j else cache_byte c t n p j)"
      using tw(1) [OF j] tw(2) [of n p j] a(4) c' j unfolding byt da ca
      by (cases "n = r \<and> p = a") auto
  qed
  ultimately show ?thesis using ok oth dir by (intro coherent_atI)
qed

text \<open>
  The write path of the handler, from the marking of the entry to the release of the lock.
\<close>

lemma begin_write_coherent:
  assumes co: "coherent_at c r {i} {} s" and r: "r < numtasks c" and a: "is_page c a" "getCacheIndex c a = i"
    and cc: "cacheControl (s r) i = \<lparr>state = VALID, dirty = CLEAN, tag = a\<rparr>"
  defines "s1 \<equiv> upd r (\<lambda>nd. set_dirty i DIRTY (nd\<lparr>touchedcache := (touchedcache nd)(i := True)\<rparr>)) s"
  defines "s2 \<equiv> register_writer E c r (get_classification_index c a) (home_of c a) s1"
  defines "s3 \<equiv> upd r (\<lambda>nd. nd\<lparr>pagecopy := splice (map (\<lambda>j. vm_read c nd (a + j)) [0..<PAGE_SIZE c])
                                  (i * PAGE_SIZE c) (pagecopy nd)\<rparr>) s2"
  defines "t \<equiv> cache_unlock r i (upd r (mprotect c a (PAGE_SIZE c) PROT_READ_WRITE) s3)"
  shows "coherent_at c r {} {i} t" and "dirty_at c t r a" and "vprot (t r) a = PROT_READ_WRITE"
    and "cache_byte c t = cache_byte c s" and "home_byte c t = home_byte c s"
proof -
  have ok: "node_ok c {i} {} r (s r)" using co r by (rule coherent_at_node)
  have ca: "cached c s r a" using cc a(2) by (simp add: cached_def)
  have h: "home_of c a \<noteq> r" and vm: "vmap (s r) a = Some (PAGE_SIZE c * i)"
    using node_home [OF ok a(1)] cc a(2) by simp_all
  have dir: "dir_ok c s" and link: "link_ok c s" and data: "data_ok c s"
    using co by (simp_all add: coherent_at_def)
  have g1: "globalSharers (s1 n) = globalSharers (s n)" for n by (simp add: s1_def set_dirty_def upd_def)
  have v1: "sharers c s1 = sharers c s" "writers c s1 = writers c s"
    by (intro ext; simp add: sharers_def writers_def g1)+
  have sh: "r \<in> sharers c s1 r a" using link r a h ca unfolding link_ok_def v1 by auto
  have "dir_ok c s1" using dir by (simp add: dir_ok_def g1 v1)
  note rw = register_writer_effect [OF this r a(1) h sh, folded s2_def, unfolded v1]
  note fr = only_dir_frame [OF rw(1)]
  have gt: "globalSharers (t n) = globalSharers (s2 n)" for n
    by (simp add: t_def s3_def cache_unlock_def upd_def)
  have vt: "sharers c t = sharers c s2" "writers c t = writers c s2"
    by (intro ext; simp add: sharers_def writers_def gt)+
  have oth: "cacheControl (t n) = cacheControl (s n)" "vprot (t n) = vprot (s n)" "pagecopy (t n) = pagecopy (s n)"
     "touchedcache (t n) = touchedcache (s n)" "vmap (t n) = vmap (s n)" "wb_buffer (t n) = wb_buffer (s n)"
     "cache_locks (t n) = cache_locks (s n)" if "n \<noteq> r" for n
    using that by (simp_all add: t_def s3_def cache_unlock_def fr s1_def)
  have bk: "backing (t n) = backing (s n)" for n
    by (cases "n = r") (simp_all add: t_def s3_def cache_unlock_def fr s1_def set_dirty_def)
  have ccr: "cacheControl (t r) = (cacheControl (s r))(i := \<lparr>state = VALID, dirty = DIRTY, tag = a\<rparr>)"
    using cc by (simp add: t_def s3_def cache_unlock_def fr s1_def set_dirty_def)
  have locks: "cache_locks (t r) = (\<lambda>_. False)"
    using ok by (auto simp: t_def s3_def cache_unlock_def fr s1_def set_dirty_def node_ok_def fun_eq_iff)
  have vp: "vprot (t r) = (vprot (s r))(a := PROT_READ_WRITE)"
    by (simp add: t_def s3_def cache_unlock_def fr s1_def set_dirty_def mprotect_page)
  show "vprot (t r) a = PROT_READ_WRITE" by (simp add: vp)
  show da: "dirty_at c t r a" using a(2) by (simp add: dirty_at_def ccr)
  show cb: "cache_byte c t = cache_byte c s" by (intro ext) (simp add: cache_byte_def bk)
  show hb: "home_byte c t = home_byte c s" using bk by (rule home_byte_cong)
  have "node_ok c {} {i} r (t r)"
    using ok a cc by (rule begin_write_node_ok)
      (simp_all add: ccr locks vp, simp_all add: t_def s3_def cache_unlock_def fr s1_def set_dirty_def)
  moreover have "node_ok c {} {} n (t n)" if "n < numtasks c" "n \<noteq> r" for n
    using coherent_at_other [OF co that] oth [OF that(2)] node_ok_cong [of "t n" "s n" c "{}" "{}" n] by simp
  moreover have "dir_ok c t" using rw(2) by (simp add: dir_ok_def gt vt)
  moreover have "cached c t = cached c s"
    by (intro ext) (rename_tac n p, case_tac "n = r"; use a(2) cc in \<open>auto simp: cached_def ccr oth\<close>)
  moreover have "dirty_at c t n p \<longleftrightarrow> dirty_at c s n p \<or> n = r \<and> p = a" for n p
    using a(2) cc by (cases "n = r") (auto simp: dirty_at_def ccr oth)
  moreover have "vprot (t n) p = vprot (s n) p" if "home_of c p = n" for n p
    using that h by (cases "n = r") (auto simp: vp oth)
  moreover have tw: "twin_byte c t r p j = (if getCacheIndex c p = i then cache_byte c s r a j else twin_byte c s r p j)"
    if j: "j < PAGE_SIZE c" for p j
  proof -
    have "vm_read c (s2 r) (a + j) = cache_byte c s r a j" if "j < PAGE_SIZE c" for j
      using that a vm bk [of r] by (simp add: vm_read_page is_page_def fr s1_def set_dirty_def cache_byte_def)
    moreover have "pagecopy (t r) = splice (map (\<lambda>j. vm_read c (s2 r) (a + j)) [0..<PAGE_SIZE c]) (i * PAGE_SIZE c) (pagecopy (s r))"
      by (simp add: t_def s3_def cache_unlock_def fr s1_def set_dirty_def)
    ultimately show ?thesis using j by (simp add: twin_byte_def splice_slot)
  qed
  moreover have "twin_byte c t n p j = twin_byte c s n p j"
    if "n \<noteq> r \<or> p \<noteq> a" "cached c s n p" "j < PAGE_SIZE c" for n p j
    using that tw [OF that(3), of p] cc by (cases "n = r") (auto simp: cached_def twin_byte_def oth)
  moreover have "\<not> dirty_at c s r a" using a(2) cc by (simp add: dirty_at_def)
  ultimately show "coherent_at c r {} {i} t"
    using a ca h rw(3-7) cb hb vt by (intro dirty_step_coherent [OF co r a(1) h ca]) auto
qed

section \<open>The handler on a remote page\<close>

lemma handler_remote_effect:
  assumes co: "coherent_at c r {getCacheIndex c a} {} s" and r: "r < numtasks c"
    and a: "is_page c a" "home_of c a \<noteq> r" and fault: "mt = read_access \<longrightarrow> \<not> cached c s r a"
  shows "\<exists>add t. handler_remote E c r a (home_of c a) mt s = Inr (add, t)
     \<and> coherent_at c r {} (if add then {getCacheIndex c a} else {}) t
     \<and> cached c t r a \<and> (mt = write_access \<longrightarrow> dirty_at c t r a) \<and> (mt = write_access \<and> \<not> dirty_at c s r a \<longrightarrow> add)"
proof -
  let ?i = "getCacheIndex c a"
  have ok: "node_ok c {?i} {} r (s r)" using co r by (rule coherent_at_node)
  have si: "slot_ok c r (s r) ?i" using ok cache_index_less by (simp add: node_ok_def)
  define pl where "pl \<longleftrightarrow> state (slot c s r a) = INVALID \<or> (tag (slot c s r a) \<noteq> a \<and> tag (slot c s r a) \<noteq> GLOBAL_NULL c)"
  have pl: "pl \<longleftrightarrow> \<not> cached c s r a"
    using si by (cases "state (slot c s r a)") (auto simp: pl_def cached_def slot_ok_def Let_def)
  have unl: "coherent_at c r {} {} (cache_unlock r ?i u)" if "coherent_at c r {?i} {} u" for u
    using locks_coherent(2) [OF that r, of ?i] by simp
  obtain u where u: "(if pl then load_cache_entry E c r a s else Inr s) = Inr u" "coherent_at c r {?i} {} u"
      "cached c u r a" "pl \<Longrightarrow> dirty (slot c u r a) = CLEAN"
    using load_cache_entry_effect [OF co r a] pl co by (cases pl) (auto simp: cached_def)
  have ut: "tag (slot c u r a) = a" "state (slot c u r a) = VALID" using u(3) by (simp_all add: cached_def)
  define t where "t = cache_unlock r ?i u"
  have t: "coherent_at c r {} {} t" "cached c t r a"
    using unl [OF u(2)] ut by (simp_all add: t_def cached_def cache_unlock_def)
  consider (rd) "mt = read_access \<or> (mt = undefined_access \<and> pl)"
    | (dy) "\<not> (mt = read_access \<or> (mt = undefined_access \<and> pl))" "dirty (slot c u r a) = DIRTY"
    | (wr) "\<not> (mt = read_access \<or> (mt = undefined_access \<and> pl))" "dirty (slot c u r a) = CLEAN"
    by (cases "dirty (slot c u r a)") auto
  then show ?thesis
  proof cases
    case rd
    then have "handler_remote E c r a (home_of c a) mt s = Inr (False, t)"
      using u(1) ut by (simp add: handler_remote_def Let_def pl_def [symmetric] t_def)
    with rd t show ?thesis by (intro exI [of _ False] exI [of _ t]) auto
  next
    case dy
    then have "handler_remote E c r a (home_of c a) mt s = Inr (False, t)"
      using u(1) by (auto simp: handler_remote_def Let_def pl_def [symmetric] t_def cacheline)
    moreover have "dirty_at c t r a" using dy ut by (simp add: dirty_at_def t_def cache_unlock_def)
    moreover have "dirty_at c s r a" using dy(2) ut u(1,4) by (cases pl) (auto simp: dirty_at_def)
    ultimately show ?thesis using t by (intro exI [of _ False] exI [of _ t]) auto
  next
    case wr
    have cc: "cacheControl (u r) ?i = \<lparr>state = VALID, dirty = CLEAN, tag = a\<rparr>" using wr(2) ut by simp
    note bw = begin_write_coherent [OF u(2) r a(1) refl cc]
    let ?s1 = "upd r (\<lambda>nd. set_dirty ?i DIRTY (nd\<lparr>touchedcache := (touchedcache nd)(?i := True)\<rparr>)) u"
    let ?s3 = "upd r (\<lambda>nd. nd\<lparr>pagecopy := splice (map (\<lambda>j. vm_read c nd (a + j)) [0..<PAGE_SIZE c])
                                  (?i * PAGE_SIZE c) (pagecopy nd)\<rparr>)
        (register_writer E c r (get_classification_index c a) (home_of c a) ?s1)"
    let ?t = "cache_unlock r ?i (upd r (mprotect c a (PAGE_SIZE c) PROT_READ_WRITE) ?s3)"
    have "handler_remote E c r a (home_of c a) mt s = Inr (True, ?t)"
      using wr u(1) unfolding handler_remote_def Let_def pl_def [symmetric]
      by (auto simp: cacheline simp del: upd_upd)
    moreover have "coherent_at c r {} {?i} ?t" "dirty_at c ?t r a" by (rule bw)+
    moreover have "cached c ?t r a" by (rule dirty_cached [OF bw(1) r bw(2)])
    ultimately show ?thesis by (intro exI [of _ True] exI [of _ ?t]) simp
  qed
qed

section \<open>The handler on a page this node is home of\<close>

lemma map_home_coherent:
  assumes co: "coherent_at c r L D s" and r: "r < numtasks c" and a: "is_page c a" "home_of c a = r"
    and p: "p = PROT_READ_WRITE \<Longrightarrow> r \<in> writers c s r a" "p \<noteq> PROT_NONE"
  shows "coherent_at c r L D (upd r (map_memory c a (PAGE_SIZE c) (cacheoffset c + off_of c a) p) s)"
proof -
  let ?t = "upd r (map_memory c a (PAGE_SIZE c) (cacheoffset c + off_of c a) p) s"
  have ok: "node_ok c L D r (s r)" using co r by (rule coherent_at_node)
  have "slot_ok c r (?t r) k" if "k < cachesize c" for k
  proof -
    have sk: "slot_ok c r (s r) k" using ok that by (simp add: node_ok_def)
    with a(2) have "tag (cacheControl (s r) k) \<noteq> GLOBAL_NULL c \<Longrightarrow> tag (cacheControl (s r) k) \<noteq> a"
      by (auto simp: slot_ok_def Let_def)
    with sk show ?thesis by (auto simp: slot_ok_def Let_def map_memory_page)
  qed
  moreover have "pages_ok c r (?t r)" using ok a by (auto simp: node_ok_def pages_ok_def map_memory_page)
  moreover have "buffer_ok c D (?t r)" using ok by (simp add: node_ok_def buffer_ok_def)
  ultimately have "node_ok c L D r (?t r)" using ok by (simp add: node_ok_def)
  then show ?thesis
    by (rule local_step_coherent [OF co r, rotated])
      (use p in \<open>auto simp: map_memory_page cached_def dirty_at_def split: if_splits\<close>)
qed

lemma only_dir_upd_same:
  assumes "only_dir s u" and "\<And>g nd. f (set_sharers g nd) = set_sharers g (f nd)"
  shows "only_dir (upd r f s) (upd r f u)"
  using assms by (auto simp: only_dir_def upd_def)

lemma home_reader_coherent:
  assumes co: "coherent_at c r L D s" and r: "r < numtasks c" and a: "is_page c a" "home_of c a = r"
    and od: "only_dir s t" and np: "vprot (s r) a \<noteq> PROT_NONE"
    and up: "\<And>n k. dir_at s n k \<subseteq> dir_at t n k" "\<And>n k. dir_at t n k \<subseteq> dir_at s n k \<union> (if k = get_classification_index c a then {r} else {})"
  shows "coherent_at c r L D t"
proof -
  have dir: "dir_ok c s" using co by (simp add: coherent_at_def)
  have W: "writers c t n q = writers c s n q" if "is_page c q" for n q
    using up [of n "get_classification_index c q + 1"] class_parity [OF a(1) that]
    by (auto simp: writers_def)
  have S: "sharers c s n q \<subseteq> sharers c t n q" for n q using up(1) by (simp add: sharers_def)
  have S': "n \<in> sharers c s n q" if "n \<in> sharers c t n q" "is_page c q" "home_of c q \<noteq> n" for n q
    using that up(2) [of n "get_classification_index c q"] a class_index_inj [OF that(2) a(1)]
    by (auto simp: sharers_def split: if_splits)
  have "dir_ok c t"
    unfolding dir_ok_def
  proof (intro conjI allI impI; (elim conjE)?)
    fix n k assume n: "n < numtasks c"
    have "dir_at s n k \<subseteq> {..<numtasks c}" using dir n by (simp add: dir_ok_def)
    with up(2) [of n k] r show "dir_at t n k \<subseteq> {..<numtasks c}" by (auto split: if_splits)
  next
    fix n q assume n: "n < numtasks c" and q: "is_page c q"
    then show "writers c t n q \<subseteq> writers c t (home_of c q) q" using dir by (simp add: dir_ok_def W)
  next
    fix n q assume n: "n < numtasks c" and q: "is_page c q" and h: "home_of c q \<noteq> n" and s: "n \<in> sharers c t n q"
    have "n \<in> sharers c s (home_of c q) q \<and> (writers c s (home_of c q) q \<subseteq> {n} \<or> \<not> writers c s n q \<subseteq> {n})"
      using dir n q h S' [OF s q h] by (simp add: dir_ok_def)
    then show "n \<in> sharers c t (home_of c q) q" and "writers c t (home_of c q) q \<subseteq> {n} \<or> \<not> writers c t n q \<subseteq> {n}"
      using S by (auto simp: W [OF q])
  qed
  moreover have "n \<in> sharers c s n q \<or> vprot (s n) q \<noteq> PROT_NONE"
    if "n \<in> sharers c t n q" "is_page c q" "home_of c q = n" for n q
    using that up(2) [of n "get_classification_index c q"] a np class_index_inj [OF that(2) a(1)]
    by (auto simp: sharers_def split: if_splits)
  ultimately show ?thesis
    by (intro dir_step_coherent [OF co od]) (simp_all add: W subsetD [OF S])
qed

text \<open>The first access of the home node itself: it becomes a sharer, a single other owner is told.\<close>

lemma home_first_access:
  assumes dir: "dir_ok c s" and r: "r < numtasks c" and a: "is_page c a" "home_of c a = r"
    and ns: "r \<notin> sharers c s r a"
  shows "\<exists>u. handler_local E c r a d mt s = Inr (cache_unlock r (getCacheIndex c a)
             (upd r (map_memory c a (PAGE_SIZE c) (cacheoffset c + d) PROT_READ) u))
       \<and> only_dir s u \<and> r \<in> sharers c u r a
       \<and> (\<forall>n k. dir_at s n k \<subseteq> dir_at u n k \<and>
            dir_at u n k \<subseteq> dir_at s n k \<union> (if k = get_classification_index c a then {r} else {}))"
proof -
  let ?k = "get_classification_index c a" and ?w = "globalSharers (s r) (get_classification_index c a)"
  define s1 where "s1 = upd r (or_sharers ?k (node_bit r)) s"
  have r64: "r < 64" using r by (rule rank_64)
  have od1: "only_dir s s1" and d1: "\<And>n k. dir_at s1 n k = dir_at s n k \<union> (if n = r \<and> k = ?k then {r} else {})"
    unfolding s1_def or_sharers_effect(2) ranks_node_bit [OF r64] by (rule or_sharers_effect) simp
  have pre: "(?w AND node_bit r \<noteq> node_bit r) = True"
    using ns by (simp add: and_node_bit_iff [OF r64] sharers_def)
  have wr: "r \<notin> ranks ?w" using ns by (simp add: sharers_def)
  show ?thesis
  proof (cases "?w \<noteq> 0 \<and> ?w \<noteq> node_bit r \<and> isZeroOrPowerOf2 ?w")
    case False
    then have "handler_local E c r a d mt s = Inr (cache_unlock r (getCacheIndex c a)
             (upd r (map_memory c a (PAGE_SIZE c) (cacheoffset c + d) PROT_READ) s1))"
      unfolding handler_local_def Let_def pre by (auto simp: sharer_op_def s1_def simp del: upd_upd)
    then show ?thesis using od1 by (intro exI [of _ s1]) (auto simp: d1 sharers_def)
  next
    case True
    then obtain m where m: "ranks ?w = {m}" by (auto simp: single_rank)
    then have "m \<noteq> r" "m < numtasks c" using wr dir r by (auto simp: dir_ok_def)
    moreover from this have "find_owner c r (?w AND NOT (node_bit r)) = m"
      using m r64 few_nodes by (intro find_owner_single) auto
    moreover define u where "u = sharer_op c ?k (\<lambda>_. accumulate_sharers E c m [node_bit r] ?k) s1"
    ultimately have "handler_local E c r a d mt s = Inr (cache_unlock r (getCacheIndex c a)
             (upd r (map_memory c a (PAGE_SIZE c) (cacheoffset c + d) PROT_READ) u))"
      using True unfolding handler_local_def Let_def pre
      by (simp add: sharer_op_def s1_def sharer_win_offset_class del: upd_upd)
    moreover have "only_dir s u"
      unfolding u_def by (rule only_dir_trans [OF od1 tell_effect(1) [OF r64]])
    moreover have "dir_at u n k = dir_at s1 n k \<union> (if n = m \<and> k = ?k then {r} else {})" for n k
      unfolding u_def by (rule tell_effect(2) [OF r64])
    ultimately show ?thesis by (intro exI [of _ u]) (auto simp: d1 sharers_def)
  qed
qed

text \<open>A write of the home node itself.\<close>

lemma home_writer_added:
  assumes dir: "dir_ok c s" and r: "r < numtasks c" and a: "is_page c a" "home_of c a = r"
  defines "k \<equiv> get_classification_index c a"
  shows "writer_added c r a s (notify_writer E c r k k (globalSharers (s r) (k + 1)) (globalSharers (s r) k)
           (upd r (or_sharers (k + 1) (node_bit r)) s))"
proof -
  define s1 where "s1 = upd r (or_sharers (k + 1) (node_bit r)) s"
  define t where "t = notify_writer E c r k k (globalSharers (s r) (k + 1)) (globalSharers (s r) k) s1"
  have r64: "r < 64" using r by (rule rank_64)
  have od1: "only_dir s s1" and d1: "\<And>n l. dir_at s1 n l = dir_at s n l \<union> (if n = r \<and> l = k + 1 then {r} else {})"
    unfolding s1_def or_sharers_effect(2) ranks_node_bit [OF r64] by (rule or_sharers_effect) simp
  have W: "dir_at s r (k + 1) \<subseteq> {..<numtasks c}" using dir r by (simp add: dir_ok_def)
  have kk: "get_sharer_win_offset c k = k" by (simp add: k_def)
  note nw = notify_writer_effect [OF kk r W, where i = k and S = "globalSharers (s r) k" and s = s1, folded t_def]
  have up: "dir_at s1 n l \<subseteq> dir_at t n l" "dir_at t n l \<subseteq> dir_at s1 n l \<union> (if n \<noteq> r \<and> l = k + 1 then {r} else {})" for n l
    using nw by simp_all
  have "writer_added c r a s t"
    unfolding writer_added_def Let_def a(2) k_def [symmetric]
  proof (intro conjI allI impI)
    show "only_dir s t" using od1 nw by (blast intro: only_dir_trans)
    show "r \<in> dir_at t r (k + 1)" using up(1) [of r "k + 1"] by (auto simp: d1)
    show "dir_at s n l \<subseteq> dir_at t n l" for n l using up(1) [of n l] by (auto simp: d1)
    show "dir_at t r k \<subseteq> dir_at s r k \<union> dir_at s r k" using up(2) [of r k] by (auto simp: d1)
    show "dir_at t n (k + 1) \<subseteq> dir_at s n (k + 1) \<union> {r}" for n
      using up(2) [of n "k + 1"] by (auto simp: d1 split: if_splits)
  next
    fix n l assume "l \<noteq> k \<and> l \<noteq> k + 1"
    then show "dir_at t n l = dir_at s n l" using up [of n l] by (simp add: d1 subset_antisym)
  next
    fix n assume "n \<noteq> r"
    then show "dir_at t n k = dir_at s n k" using up [of n k] by (simp add: d1 subset_antisym)
  qed (use nw in auto)
  then show ?thesis by (simp add: t_def s1_def)
qed

lemma handler_local_effect:
  assumes co: "coherent_at c r {getCacheIndex c a} {} s" and r: "r < numtasks c"
    and a: "is_page c a" "home_of c a = r"
  shows "\<exists>t. handler_local E c r a (off_of c a) mt s = Inr t \<and> coherent c t
     \<and> (r \<notin> sharers c s r a \<longrightarrow> r \<in> sharers c t r a \<and> vprot (t r) a = PROT_READ)
     \<and> (r \<in> sharers c s r a \<and> mt \<noteq> read_access \<longrightarrow> vprot (t r) a = PROT_READ_WRITE)
     \<and> (\<forall>n. cacheControl (t n) = cacheControl (s n))"
proof -
  let ?k = "get_classification_index c a" and ?i = "getCacheIndex c a"
  have dir: "dir_ok c s" using co by (simp add: coherent_at_def)
  let ?mp = "\<lambda>p. map_memory c a (PAGE_SIZE c) (cacheoffset c + off_of c a) p"
  have fin: "coherent c (cache_unlock r ?i u)" if "coherent_at c r {?i} {} u" for u
    using locks_coherent(2) [OF that r, where i = ?i] by (simp add: coherent_at_empty)
  have vw: "vprot (cache_unlock r ?i (upd r (?mp p) u) r) a = p"
      "sharers c (cache_unlock r ?i (upd r (?mp p) u)) r a = sharers c u r a" for p u
    by (simp_all add: cache_unlock_def map_memory_page sharers_def)
  have cc: "cacheControl (cache_unlock r ?i (upd r (?mp p) u) n) = cacheControl (s n)" if "only_dir s u" for p u n
    using only_dir_frame(1) [OF that] by (simp add: cache_unlock_def upd_def)
  consider (first) "r \<notin> sharers c s r a" | (rd) "r \<in> sharers c s r a" "mt = read_access"
    | (wr) "r \<in> sharers c s r a" "mt \<noteq> read_access" by blast
  then show ?thesis
  proof cases
    case first
    from home_first_access [OF dir r a first, of "off_of c a" mt] obtain u where
      u: "handler_local E c r a (off_of c a) mt s = Inr (cache_unlock r ?i
             (upd r (map_memory c a (PAGE_SIZE c) (cacheoffset c + off_of c a) PROT_READ) u))"
        "only_dir s u" "r \<in> sharers c u r a" "\<forall>n k. dir_at s n k \<subseteq> dir_at u n k \<and>
            dir_at u n k \<subseteq> dir_at s n k \<union> (if k = ?k then {r} else {})" by blast
    have g: "globalSharers (upd r (?mp PROT_READ) w n) = globalSharers (w n)" for w n by (simp add: upd_def)
    have "coherent_at c r {?i} {} (upd r (?mp PROT_READ) u)"
    proof (rule home_reader_coherent [OF _ r a])
      show "coherent_at c r {?i} {} (upd r (?mp PROT_READ) s)" by (rule map_home_coherent [OF co r a]) simp_all
      show "only_dir (upd r (?mp PROT_READ) s) (upd r (?mp PROT_READ) u)"
        by (rule only_dir_upd_same [OF u(2)]) (simp add: map_memory_page set_sharers_def)
      show "vprot (upd r (?mp PROT_READ) s r) a \<noteq> PROT_NONE" by (simp add: map_memory_page)
    qed (use u(4) in \<open>simp_all only: g\<close>)
    from fin [OF this] u(1,3) first show ?thesis by (auto simp: vw cc [OF u(2)])
  next
    case rd
    then have "handler_local E c r a (off_of c a) mt s = Inr (cache_unlock r ?i s)"
      by (simp add: handler_local_def Let_def sharers_def and_node_bit_iff [OF rank_64 [OF r]])
    with rd locks_coherent(2) [OF co r, of ?i] show ?thesis by (simp add: coherent_at_empty cache_unlock_def upd_def)
  next
    case wr
    define t where "t = notify_writer E c r ?k ?k (globalSharers (s r) (?k + 1)) (globalSharers (s r) ?k)
           (upd r (or_sharers (?k + 1) (node_bit r)) s)"
    have w: "writer_added c r a s t" unfolding t_def by (rule home_writer_added [OF dir r a])
    have np: "vprot (s r) a \<noteq> PROT_NONE"
      using co r a wr(1) by (auto simp: coherent_at_def link_ok_def)
    have "coherent_at c r {?i} {} t"
    proof (rule dir_step_coherent [OF co])
      show "dir_ok c t" using writer_added_dir_ok [OF dir r a(1) _ w] a(2) by simp
      show "n \<in> sharers c s n q \<or> vprot (s n) q \<noteq> PROT_NONE"
        if "is_page c q" "home_of c q = n" "n \<in> sharers c t n q" for n q
        using writer_added_home [OF w a(1) that] by simp
      show "n \<in> writers c s n q \<or> vprot (s n) q \<noteq> PROT_NONE"
        if "is_page c q" "home_of c q = n" "n \<in> writers c t n q" for n q
        using writer_added_home_writer [OF w a(1) that(1,3)] np by auto
    qed (use w in \<open>auto simp: writer_added_def Let_def writers_def sharers_def\<close>)
    moreover have "r \<in> writers c t r a" using w a(2) by (simp add: writer_added_def Let_def writers_def)
    moreover have "handler_local E c r a (off_of c a) mt s = Inr (cache_unlock r ?i
             (upd r (map_memory c a (PAGE_SIZE c) (cacheoffset c + off_of c a) PROT_READ_WRITE) t))"
      using wr unfolding handler_local_def Let_def sharer_op_def t_def
      by (simp add: sharers_def and_node_bit_iff [OF rank_64 [OF r]] del: upd_upd)
    moreover have "only_dir s t" using w by (simp add: writer_added_def Let_def)
    ultimately show ?thesis
      using fin [OF map_home_coherent [OF _ r a, where p = PROT_READ_WRITE]] wr by (auto simp: vw cc)
  qed
qed

section \<open>The handler as a whole\<close>

lemma page_of_address:
  assumes "x < size_of_all c"
  defines "a \<equiv> align_backwards x (CACHELINE c * PAGE_SIZE c)"
  shows "is_page c a" and "a \<le> x" and "x - a < PAGE_SIZE c" and "x = a + (x - a)"
  using assms(1) page_pos by (simp_all add: a_def align_backwards_def cacheline is_page_def
      order.strict_trans1 [OF div_times_less_eq_dividend] minus_div_mult_eq_mod)

text \<open>
  A read traps only on a page without access; a write also traps on a read-only page.
\<close>

lemma handler_effect:
  assumes co: "coherent c s" and r: "r < numtasks c" and x: "x < size_of_all c"
  defines "a \<equiv> align_backwards x (CACHELINE c * PAGE_SIZE c)"
  assumes fault: "mt = read_access \<Longrightarrow> vprot (s r) a = PROT_NONE"
  shows "\<exists>t. handler E c r x mt s = Inr t \<and> coherent c t
     \<and> (if home_of c a = r
        then (r \<notin> sharers c s r a \<longrightarrow> r \<in> sharers c t r a \<and> vprot (t r) a = PROT_READ)
           \<and> (r \<in> sharers c s r a \<and> mt \<noteq> read_access \<longrightarrow> vprot (t r) a = PROT_READ_WRITE)
           \<and> (\<forall>n. cacheControl (t n) = cacheControl (s n))
        else cached c t r a \<and> (mt = write_access \<longrightarrow> dirty_at c t r a))"
proof -
  let ?i = "getCacheIndex c a"
  have a: "is_page c a" unfolding a_def by (rule page_of_address [OF x])
  have c0: "coherent_at c r {} {} s" using co by (simp add: coherent_at_empty)
  have ok: "node_ok c {} {} r (s r)" using c0 r by (rule coherent_at_node)
  define s1 where "s1 = upd r (\<lambda>nd. nd\<lparr>cache_locks := (cache_locks nd)(?i := True)\<rparr>) s"
  have c1: "coherent_at c r {?i} {} s1" using locks_coherent(1) [OF c0 r] by (simp add: s1_def)
  have lk: "cache_lock r ?i s = Inr s1" using ok by (simp add: cache_lock_def node_ok_def s1_def)
  have v1: "sharers c s1 r a = sharers c s r a" "cached c s1 r a = cached c s r a"
    by (simp_all add: s1_def sharers_def cached_def)
  have h0: "handler_locked E c r x mt s = (if home_of c a = r
      then bindE (handler_local E c r a (off_of c a) mt s1) (\<lambda>s. Inr (False, s))
      else handler_remote E c r a (home_of c a) mt s1)"
    using a by (simp add: handler_locked_def Let_def a_def [symmetric] get_homenode_eq get_offset_eq
        page_less lk)
  show ?thesis
  proof (cases "home_of c a = r")
    case True
    from handler_local_effect [OF c1 r a True, of mt] obtain t where
      "handler_local E c r a (off_of c a) mt s1 = Inr t" "coherent c t"
      "r \<notin> sharers c s r a \<longrightarrow> r \<in> sharers c t r a \<and> vprot (t r) a = PROT_READ"
      "r \<in> sharers c s r a \<and> mt \<noteq> read_access \<longrightarrow> vprot (t r) a = PROT_READ_WRITE"
      "\<forall>n. cacheControl (t n) = cacheControl (s1 n)" unfolding v1 by blast
    with True h0 show ?thesis by (simp add: handler_def s1_def upd_def)
  next
    case False
    have "mt = read_access \<longrightarrow> \<not> cached c s1 r a"
      using fault node_home(3) [OF ok a] unfolding v1 by (auto simp: cached_def slot_prot_def split: if_splits)
    from handler_remote_effect [OF c1 r a False this] obtain add u where
      u: "handler_remote E c r a (home_of c a) mt s1 = Inr (add, u)"
         "coherent_at c r {} (if add then {?i} else {}) u" "cached c u r a" "mt = write_access \<longrightarrow> dirty_at c u r a"
      by blast
    show ?thesis
    proof (cases add)
      case True
      then obtain t where t: "wb_add E c r ?i u = Inr t" "coherent c t" "?i \<in> set (wb_buffer (t r))"
          "tag (slot c t r a) = tag (slot c u r a)"
        using wb_add_coherent [of r ?i u] u(2) r by auto
      have ct: "coherent_at c r {} {} t" using t(2) by (simp add: coherent_at_empty)
      have "dirty_at c t r a"
        using coherent_at_node [OF ct r] t(3,4) u(3) cache_index_less [of a]
        by (auto simp: dirty_at_def cached_def node_ok_def buffer_ok_def)
      with dirty_cached [OF ct r this] show ?thesis
        using False h0 u t True by (simp add: handler_def a_def [symmetric])
    next
      case nadd: False
      then have "coherent c u" using u(2) by (simp add: coherent_at_empty)
      with nadd False h0 u show ?thesis by (simp add: handler_def)
    qed
  qed
qed

end
end
