(* ===== verification/Coherence_Main.thy ===== *)
theory Coherence_Main
  imports Coherence_Handler
begin

text \<open>
  The memory as a program sees it. Application accesses, faults, acquire, release and barriers
  of the nodes form the step relation \<open>dsm_step\<close>; every reachable state satisfies the
  invariant, acquire leaves only fresh pages accessible, and a release followed by an acquire
  makes a write visible.
\<close>

section \<open>Application accesses\<close>

abbreviation page_of :: "swdsm_config \<Rightarrow> nat \<Rightarrow> nat" where
  "page_of c x \<equiv> align_backwards x (CACHELINE c * PAGE_SIZE c)"

text \<open>A load or store that the current protection allows; \<open>None\<close> is a fault.\<close>

definition load_byte :: "swdsm_config \<Rightarrow> nat \<Rightarrow> nat \<Rightarrow> cluster \<Rightarrow> byte option" where
  "load_byte c r x s =
     (if vprot (s r) (page_of c x) = PROT_NONE then None else Some (vm_read c (s r) x))"

definition store_byte :: "swdsm_config \<Rightarrow> nat \<Rightarrow> nat \<Rightarrow> byte \<Rightarrow> cluster \<Rightarrow> cluster option" where
  "store_byte c r x v s =
     (case vmap (s r) (page_of c x) of
        None \<Rightarrow> None
      | Some off \<Rightarrow>
          if vprot (s r) (page_of c x) = PROT_READ_WRITE
          then Some (upd r (\<lambda>nd. nd\<lparr>backing := (backing nd)(off + x mod PAGE_SIZE c := v)\<rparr>) s)
          else None)"

inductive dsm_step :: "ext \<Rightarrow> swdsm_config \<Rightarrow> cluster \<Rightarrow> cluster \<Rightarrow> bool" for E c where
  fault: "r < numtasks c \<Longrightarrow> x < size_of_all c \<Longrightarrow>
    (mt = read_access \<longrightarrow> vprot (s r) (page_of c x) = PROT_NONE) \<Longrightarrow>
    handler E c r x mt s = Inr t \<Longrightarrow> dsm_step E c s t"
| store: "r < numtasks c \<Longrightarrow> x < size_of_all c \<Longrightarrow> store_byte c r x v s = Some t \<Longrightarrow> dsm_step E c s t"
| acquire: "r < numtasks c \<Longrightarrow> argo_acquire E c r s = Inr t \<Longrightarrow> dsm_step E c s t"
| release: "r < numtasks c \<Longrightarrow> argo_release E c r s = Inr t \<Longrightarrow> dsm_step E c s t"
| barrier: "set ns \<subseteq> {..<numtasks c} \<Longrightarrow> swdsm_argo_barrier E c ns upgrade_none s = Inr t \<Longrightarrow> dsm_step E c s t"

inductive_cases dsm_stepE: "dsm_step E c s t"

context dsm
begin

section \<open>Stores\<close>

lemma store_remote_coherent:
  fixes v :: byte
  assumes co: "coherent c s" and r: "r < numtasks c" and a: "is_page c a" "dirty_at c s r a" and j: "j < PAGE_SIZE c"
  defines "t \<equiv> upd r (\<lambda>nd. nd\<lparr>backing := (backing nd)(PAGE_SIZE c * getCacheIndex c a + j := v)\<rparr>) s"
  shows "coherent c t" and "home_byte c t = home_byte c s"
proof -
  have c0: "coherent_at c r {} {} s" using co by (simp add: coherent_at_empty)
  have area: "PAGE_SIZE c * getCacheIndex c a + j < cacheoffset c" using cache_index_less j by (rule cache_area)
  have hb: "home_byte c t = home_byte c s"
    using area by (intro ext) (auto simp: home_byte_def data_window_def t_def upd_def)
  then show "home_byte c t = home_byte c s" .
  have v: "sharers c t = sharers c s" "writers c t = writers c s" "twin_byte c t = twin_byte c s"
      "cached c t = cached c s" "dirty_at c t = dirty_at c s" "\<And>n. vprot (t n) = vprot (s n)"
      "\<And>n. globalSharers (t n) = globalSharers (s n)"
    by (intro ext; simp add: sharers_def writers_def twin_byte_def cached_def dirty_at_def t_def upd_def)+
  have cb: "cache_byte c t n p k = cache_byte c s n p k"
    if "cached c s n p" "\<not> dirty_at c s n p" "k < PAGE_SIZE c" for n p k
  proof (cases "n = r")
    case True
    have "getCacheIndex c p \<noteq> getCacheIndex c a"
    proof
      assume "getCacheIndex c p = getCacheIndex c a"
      then have "p = a" using a(2) that(1) True by (simp add: dirty_at_def cached_def)
      with that(2) True a(2) show False by simp
    qed
    then have "PAGE_SIZE c * getCacheIndex c p + k \<noteq> PAGE_SIZE c * getCacheIndex c a + j"
      using block_offset_inj that(3) j by (metis mult.commute)
    with True show ?thesis by (simp add: cache_byte_def t_def)
  qed (simp add: cache_byte_def t_def)
  have "node_ok c {} {} n (t n) = node_ok c {} {} n (s n)" for n
    by (intro node_ok_cong) (simp_all add: t_def upd_def)
  then show "coherent c t"
    using co cb unfolding coherent_def dir_ok_def link_ok_def data_ok_def v hb by auto
qed

lemma store_home_coherent:
  fixes v :: byte
  assumes co: "coherent c s" and r: "r < numtasks c" and a: "is_page c a" "home_of c a = r"
    and rw: "vprot (s r) a = PROT_READ_WRITE" and j: "j < PAGE_SIZE c"
  defines "t \<equiv> upd r (\<lambda>nd. nd\<lparr>backing := (backing nd)(cacheoffset c + off_of c a + j := v)\<rparr>) s"
  shows "coherent c t"
    and "is_page c p \<Longrightarrow> k < PAGE_SIZE c \<Longrightarrow> home_byte c t p k = (if p = a \<and> k = j then v else home_byte c s p k)"
proof -
  have hb: "home_byte c t p k = (if p = a \<and> k = j then v else home_byte c s p k)"
    if "is_page c p" "k < PAGE_SIZE c" for p k
  proof (cases "home_of c p = r \<and> p \<noteq> a")
    case True
    then show ?thesis
      using page_ranges_disjoint [OF that(1) a(1) _ _ that(2) j] a(2)
      by (simp add: home_byte_def data_window_def t_def)
  next
    case False
    then consider "home_of c p \<noteq> r" | "p = a" by blast
    then show ?thesis
    proof cases
      case 1
      with a(2) have "p \<noteq> a" by auto
      with 1 show ?thesis by (simp add: home_byte_def t_def)
    next
      case 2
      with a(2) show ?thesis by (simp add: home_byte_def data_window_def t_def)
    qed
  qed
  then show "is_page c p \<Longrightarrow> k < PAGE_SIZE c \<Longrightarrow> home_byte c t p k = (if p = a \<and> k = j then v else home_byte c s p k)" .
  have v: "sharers c t = sharers c s" "writers c t = writers c s" "twin_byte c t = twin_byte c s"
      "cached c t = cached c s" "dirty_at c t = dirty_at c s" "\<And>n. vprot (t n) = vprot (s n)"
      "\<And>n. globalSharers (t n) = globalSharers (s n)"
    by (intro ext; simp add: sharers_def writers_def twin_byte_def cached_def dirty_at_def t_def upd_def)+
  have cb: "cache_byte c t n p k = cache_byte c s n p k" if "k < PAGE_SIZE c" for n p k
    using cache_area [OF cache_index_less that, of p] by (auto simp: cache_byte_def t_def upd_def)
  have w: "r \<in> writers c s r a" using co r a rw by (auto simp: coherent_def link_ok_def)
  have "data_ok c t"
    unfolding data_ok_def v
  proof (intro allI impI, elim conjE)
    fix n p k assume n: "n < numtasks c" and p: "is_page c p" and k: "k < PAGE_SIZE c" and h: "home_of c p \<noteq> n"
      and "cached c s n p" and wr: "writers c s (home_of c p) p \<subseteq> {n}"
    moreover have "p \<noteq> a" using w wr a(2) h by auto
    ultimately show "home_byte c t p k = (if dirty_at c s n p then twin_byte c s n p k else cache_byte c t n p k)"
      using co unfolding coherent_def data_ok_def hb [OF p k] cb [OF k] by auto
  qed
  moreover have "node_ok c {} {} n (t n) = node_ok c {} {} n (s n)" for n
    by (intro node_ok_cong) (simp_all add: t_def upd_def)
  ultimately show "coherent c t" using co by (simp add: coherent_def dir_ok_def link_ok_def v)
qed

lemma page_mod: "x < size_of_all c \<Longrightarrow> x mod PAGE_SIZE c = x - page_of c x"
  by (simp add: align_backwards_def cacheline minus_div_mult_eq_mod)

lemma store_byte_coherent:
  assumes co: "coherent c s" and r: "r < numtasks c" and x: "x < size_of_all c"
    and st: "store_byte c r x v s = Some t"
  shows "coherent c t"
proof -
  let ?a = "page_of c x"
  have a: "is_page c ?a" and j: "x mod PAGE_SIZE c < PAGE_SIZE c"
    using page_of_address [OF x] page_pos by simp_all
  have ok: "node_ok c {} {} r (s r)" using co r by (simp add: coherent_def)
  obtain off where off: "vmap (s r) ?a = Some off" and rw: "vprot (s r) ?a = PROT_READ_WRITE" and
    t: "t = upd r (\<lambda>nd. nd\<lparr>backing := (backing nd)(off + x mod PAGE_SIZE c := v)\<rparr>) s"
    using st by (auto simp: store_byte_def split: option.splits if_splits)
  show ?thesis
  proof (cases "home_of c ?a = r")
    case True
    then have "off = cacheoffset c + off_of c ?a"
      using ok a rw off by (auto simp: node_ok_def pages_ok_def)
    with store_home_coherent(1) [OF co r a True rw j, of v] show ?thesis by (simp add: t add.assoc)
  next
    case False
    then have tg: "tag (slot c s r ?a) = ?a" using ok a rw by (auto simp: node_ok_def pages_ok_def)
    note nh = node_home [OF ok a tg]
    have "dirty_at c s r ?a" using nh(3) rw tg by (auto simp: dirty_at_def slot_prot_def split: if_splits)
    with store_remote_coherent(1) [OF co r a _ j, of v] nh(2) off show ?thesis by (simp add: t)
  qed
qed

section \<open>Acquire\<close>

lemma argo_acquire_effect:
  assumes "coherent c s" and "r < numtasks c"
  shows "\<exists>f t. argo_acquire E c r s = Inr t \<and> invalidating c r s (cachesize c) (f, t)"
  using self_invalidation_effect [OF assms] by (simp add: argo_acquire_def)

text \<open>A clean page that the directory allows to keep has the bytes of the home memory.\<close>

lemma kept_single_writer:
  assumes co: "coherent c t" and r: "r < numtasks c" and p: "is_page c p" "home_of c p \<noteq> r"
    and ca: "cached c t r p" and kp: "keep_page r (get_classification_index c p) (t r)"
  shows "writers c t (home_of c p) p \<subseteq> {r}"
proof -
  have "writers c t r p \<subseteq> {r}"
    using kp rank_64 [OF r] by (auto simp: keep_page_def writers_def)
  moreover have "r \<in> sharers c t r p" using co r p ca by (auto simp: coherent_def link_ok_def)
  moreover have "writers c t (home_of c p) p \<subseteq> {r} \<or> \<not> writers c t r p \<subseteq> {r}" if "r \<in> sharers c t r p"
    using co r p that by (simp add: coherent_def dir_ok_def)
  ultimately show ?thesis by blast
qed

lemma kept_fresh:
  assumes "coherent c t" and "r < numtasks c" and "is_page c p" and "j < PAGE_SIZE c" and "home_of c p \<noteq> r"
    and "cached c t r p" "\<not> dirty_at c t r p" and "keep_page r (get_classification_index c p) (t r)"
  shows "home_byte c t p j = cache_byte c t r p j"
  using kept_single_writer [of t r p] assms by (auto simp: coherent_def data_ok_def)

lemma acquired_fresh:
  assumes inv: "invalidating c r s0 (cachesize c) (f, t)" and r: "r < numtasks c" and p: "is_page c p"
    and acc: "vprot (t r) p \<noteq> PROT_NONE" and j: "j < PAGE_SIZE c"
  shows "vm_read c (t r) (p + j) = home_byte c t p j"
proof -
  have co: "coherent c t" using inv by (simp add: invalidating_def)
  have ok: "node_ok c {} {} r (t r)" using co r by (simp add: coherent_def)
  show ?thesis
  proof (cases "home_of c p = r")
    case True
    then have "vmap (t r) p = Some (cacheoffset c + off_of c p)"
      using ok p acc by (auto simp: node_ok_def pages_ok_def)
    with True p j show ?thesis
      by (simp add: vm_read_page is_page_def home_byte_def data_window_def add.assoc)
  next
    case False
    then have tg: "tag (slot c t r p) = p" using ok p acc by (auto simp: node_ok_def pages_ok_def)
    note nh = node_home [OF ok p tg]
    have va: "state (slot c t r p) = VALID"
      using nh(3) acc by (cases "state (slot c t r p)") (simp_all add: slot_prot_def)
    have cl: "dirty (slot c t r p) = CLEAN" and kp: "keep_page r (get_classification_index c p) (t r)"
      using inv cache_index_less [of p] va tg by (auto simp: invalidating_def)
    have "cached c t r p" "\<not> dirty_at c t r p" using tg va cl by (simp_all add: cached_def dirty_at_def)
    then have "home_byte c t p j = cache_byte c t r p j" using kept_fresh [OF co r p j False _ _ kp] by simp
    with nh(2) p j show ?thesis by (simp add: vm_read_page is_page_def cache_byte_def)
  qed
qed

section \<open>Release and barrier\<close>

lemma argo_release_effect:
  assumes "coherent c s" and "r < numtasks c"
  shows "\<exists>t. argo_release E c r s = Inr t \<and> coherent c t
           \<and> wrote_back c r (set (wb_buffer (s r))) s t \<and> wb_buffer (t r) = []"
  using wb_flush_coherent [of r "{}" "{}" s] assms by (simp add: argo_release_def coherent_at_empty)

lemma count_coherent: "coherent c s \<Longrightarrow> coherent c (upd n (\<lambda>nd. nd\<lparr>barriers := add64 (barriers nd) 1\<rparr>) s)"
proof -
  assume "coherent c s"
  then have "coherent_at c 0 {} {} s" by (simp add: coherent_at_empty)
  then have "coherent_at c 0 {} {} (upd n (\<lambda>nd. nd\<lparr>barriers := add64 (barriers nd) 1\<rparr>) s)"
    by (subst coherent_at_cong [where s = s]) (simp_all add: upd_def)
  then show ?thesis by (simp add: coherent_at_empty)
qed

lemma barrier_effect:
  assumes co: "coherent c s" and ns: "set ns \<subseteq> {..<numtasks c}"
  shows "\<exists>t. swdsm_argo_barrier E c ns upgrade_none s = Inr t \<and> coherent c t"
proof -
  have count: "coherent c (fold (\<lambda>n. upd n (\<lambda>nd. nd\<lparr>barriers := add64 (barriers nd) 1\<rparr>)) ns u)"
    if "coherent c u" for u
    using that by (rule fold_invariant_set [where P = "coherent c"]) (rule count_coherent)
  have "\<exists>u. foldE (wb_flush E c) ns v = Inr u \<and> coherent c u" if "coherent c v" for v
    using that
  proof (rule foldE_total [where P = "coherent c"])
    fix n w assume "n \<in> set ns" "coherent c w"
    then show "\<exists>u. wb_flush E c n w = Inr u \<and> coherent c u"
      using argo_release_effect [of w n] ns by (auto simp: argo_release_def)
  qed
  moreover have "\<exists>u. foldE (self_invalidation E c) ns v = Inr u \<and> coherent c u" if "coherent c v" for v
    using that
  proof (rule foldE_total [where P = "coherent c"])
    fix n w assume "n \<in> set ns" "coherent c w"
    moreover then have "n < numtasks c" using ns by auto
    ultimately obtain f u where "self_invalidation E c n w = Inr u" "invalidating c n w (cachesize c) (f, u)"
      using self_invalidation_effect by blast
    then show "\<exists>u. self_invalidation E c n w = Inr u \<and> coherent c u" by (simp add: invalidating_def)
  qed
  ultimately obtain u v where uv: "foldE (wb_flush E c) ns s = Inr u" "coherent c u"
      "foldE (self_invalidation E c) ns u = Inr v" "coherent c v"
    using co by meson
  show ?thesis using count [OF co] count [OF uv(4)] uv by (simp add: swdsm_argo_barrier_def Let_def)
qed

section \<open>Reachable states\<close>

lemma dsm_step_coherent: "dsm_step E c s t \<Longrightarrow> coherent c s \<Longrightarrow> coherent c t"
proof (induction rule: dsm_step.induct)
  case (fault r x mt s t)
  then show ?case using handler_effect [OF fault.prems fault.hyps(1,2), of mt] by auto
next
  case (store r x v s t)
  then show ?case using store_byte_coherent by blast
next
  case (acquire r s t)
  then show ?case using argo_acquire_effect [of s r] by (auto simp: invalidating_def)
next
  case (release r s t)
  then show ?case using argo_release_effect [of s r] by auto
next
  case (barrier ns s t)
  then show ?case using barrier_effect [of s ns] by auto
qed

lemma reachable_coherent: "(dsm_step E c)\<^sup>*\<^sup>* s t \<Longrightarrow> coherent c s \<Longrightarrow> coherent c t"
  by (induction rule: rtranclp_induct) (auto intro: dsm_step_coherent)

end

context dsm
begin

section \<open>Reading through a fault\<close>

lemma address_split:
  assumes "x < size_of_all c"
  shows "is_page c (page_of c x)" and "x = page_of c x + x mod PAGE_SIZE c" and "x mod PAGE_SIZE c < PAGE_SIZE c"
  using page_of_address [OF assms] page_mod [OF assms] by simp_all

text \<open>What an access to an accessible page reads: the home memory, or the node's cached copy.\<close>

lemma vm_read_cases:
  assumes co: "coherent c s" and r: "r < numtasks c" and x: "x < size_of_all c"
    and acc: "vprot (s r) (page_of c x) \<noteq> PROT_NONE"
  shows "vm_read c (s r) x = (if home_of c (page_of c x) = r then home_byte c s (page_of c x) (x mod PAGE_SIZE c)
           else cache_byte c s r (page_of c x) (x mod PAGE_SIZE c))"
    and "home_of c (page_of c x) \<noteq> r \<Longrightarrow> cached c s r (page_of c x)"
proof -
  let ?a = "page_of c x" and ?j = "x mod PAGE_SIZE c"
  note sp = address_split [OF x]
  have ok: "node_ok c {} {} r (s r)" using co r by (simp add: coherent_def)
  have vr: "vm_read c (s r) x = (case vmap (s r) ?a of None \<Rightarrow> 0 | Some off \<Rightarrow> backing (s r) (off + ?j))"
    using vm_read_page [of c ?a ?j "s r"] sp by (simp add: is_page_def)
  have rem: "tag (slot c s r ?a) = ?a" if "home_of c ?a \<noteq> r"
    using that ok sp(1) acc by (auto simp: node_ok_def pages_ok_def)
  show "vm_read c (s r) x = (if home_of c ?a = r then home_byte c s ?a ?j else cache_byte c s r ?a ?j)"
  proof (cases "home_of c ?a = r")
    case True
    then have "vmap (s r) ?a = Some (cacheoffset c + off_of c ?a)"
      using ok sp(1) acc by (auto simp: node_ok_def pages_ok_def)
    with True vr show ?thesis by (simp add: home_byte_def data_window_def add.assoc)
  next
    case False
    with vr node_home(2) [OF ok sp(1) rem] show ?thesis by (simp add: cache_byte_def)
  qed
  show "cached c s r ?a" if "home_of c ?a \<noteq> r"
    using node_home(3) [OF ok sp(1) rem [OF that]] acc rem [OF that]
    by (cases "state (slot c s r ?a)") (simp_all add: cached_def slot_prot_def)
qed

lemma read_fault_effect:
  assumes co: "coherent c s" and r: "r < numtasks c" and x: "x < size_of_all c"
    and nacc: "vprot (s r) (page_of c x) = PROT_NONE"
  shows "\<exists>t. handler E c r x read_access s = Inr t \<and> coherent c t
     \<and> load_byte c r x t = Some (home_byte c s (page_of c x) (x mod PAGE_SIZE c))
     \<and> (home_of c (page_of c x) = r \<longrightarrow> (\<forall>n. cacheControl (t n) = cacheControl (s n)))
     \<and> (home_of c (page_of c x) \<noteq> r \<longrightarrow> slot c t r (page_of c x) = \<lparr>state = VALID, dirty = CLEAN, tag = page_of c x\<rparr>)"
proof -
  let ?a = "page_of c x" and ?j = "x mod PAGE_SIZE c" and ?i = "getCacheIndex c (page_of c x)"
  note sp = address_split [OF x]
  have c0: "coherent_at c r {} {} s" using co by (simp add: coherent_at_empty)
  have ok: "node_ok c {} {} r (s r)" using c0 r by (rule coherent_at_node)
  define s1 where "s1 = upd r (\<lambda>nd. nd\<lparr>cache_locks := (cache_locks nd)(?i := True)\<rparr>) s"
  have c1: "coherent_at c r {?i} {} s1" using locks_coherent(1) [OF c0 r] by (simp add: s1_def)
  have lk: "cache_lock r ?i s = Inr s1" using ok by (simp add: cache_lock_def node_ok_def s1_def)
  have hb1: "home_byte c s1 = home_byte c s" by (rule home_byte_cong) (simp add: s1_def upd_def)
  obtain t where t: "handler E c r x read_access s = Inr t" "coherent c t" and
    acc: "vprot (t r) ?a \<noteq> PROT_NONE" and rd: "home_of c ?a = r \<Longrightarrow> home_byte c t ?a ?j = home_byte c s ?a ?j"
      "home_of c ?a = r \<Longrightarrow> \<forall>n. cacheControl (t n) = cacheControl (s n)"
      "home_of c ?a \<noteq> r \<Longrightarrow> cache_byte c t r ?a ?j = home_byte c s ?a ?j"
      "home_of c ?a \<noteq> r \<Longrightarrow> slot c t r ?a = \<lparr>state = VALID, dirty = CLEAN, tag = ?a\<rparr>"
  proof (cases "home_of c ?a = r")
    case True
    have ns: "r \<notin> sharers c s r ?a" using co r sp(1) True nacc by (auto simp: coherent_def link_ok_def)
    then have ns1: "r \<notin> sharers c s1 r ?a" by (simp add: s1_def sharers_def)
    have "dir_ok c s1" using c1 by (simp add: coherent_at_def)
    from home_first_access [OF this r sp(1) True ns1, of "off_of c ?a" read_access] obtain u where
      u: "handler_local E c r ?a (off_of c ?a) read_access s1 = Inr (cache_unlock r ?i
             (upd r (map_memory c ?a (PAGE_SIZE c) (cacheoffset c + off_of c ?a) PROT_READ) u))"
        and od: "only_dir s1 u" by blast
    have "handler E c r x read_access s = Inr (cache_unlock r ?i
             (upd r (map_memory c ?a (PAGE_SIZE c) (cacheoffset c + off_of c ?a) PROT_READ) u))"
      using True u lk sp(1) by (simp add: handler_def handler_locked_def Let_def get_homenode_eq get_offset_eq page_less)
    moreover have "home_byte c (cache_unlock r ?i
             (upd r (map_memory c ?a (PAGE_SIZE c) (cacheoffset c + off_of c ?a) PROT_READ) u)) = home_byte c s1"
      using only_dir_frame(4) [OF od] by (intro home_byte_cong) (simp add: cache_unlock_def upd_def)
    ultimately show ?thesis
      using that handler_effect [OF co r x, of read_access] nacc True ns hb1 by (auto split: if_splits)
  next
    case False
    have nc: "\<not> cached c s1 r ?a"
      using nacc node_home(3) [OF ok sp(1)] by (auto simp: s1_def cached_def slot_prot_def split: if_splits)
    from load_cache_entry_effect [OF c1 r sp(1) False nc] obtain u where
      u: "load_cache_entry E c r ?a s1 = Inr u" "cacheControl (u r) ?i = \<lparr>state = VALID, dirty = CLEAN, tag = ?a\<rparr>"
         "cache_byte c u r ?a ?j = home_byte c s1 ?a ?j"
      using sp(3) by auto
    have "slot_ok c r (s1 r) ?i" using coherent_at_node [OF c1 r] cache_index_less by (simp add: node_ok_def)
    then have pl: "state (slot c s1 r ?a) = INVALID \<or> (tag (slot c s1 r ?a) \<noteq> ?a \<and> tag (slot c s1 r ?a) \<noteq> GLOBAL_NULL c)"
      using nc by (cases "state (slot c s1 r ?a)") (auto simp: cached_def slot_ok_def Let_def)
    then have "handler E c r x read_access s = Inr (cache_unlock r ?i u)"
      using False u lk sp(1) by (simp add: handler_def handler_locked_def handler_remote_def Let_def
          get_homenode_eq get_offset_eq page_less)
    moreover have "cache_byte c (cache_unlock r ?i u) r ?a ?j = home_byte c s ?a ?j"
      using u(3) by (simp add: cache_unlock_def cache_byte_def hb1)
    moreover have "slot c (cache_unlock r ?i u) r ?a = \<lparr>state = VALID, dirty = CLEAN, tag = ?a\<rparr>"
      using u(2) by (simp add: cache_unlock_def)
    moreover have "vprot (cache_unlock r ?i u r) ?a \<noteq> PROT_NONE" if "coherent c (cache_unlock r ?i u)"
    proof -
      have "node_ok c {} {} r (cache_unlock r ?i u r)" using that r by (simp add: coherent_def)
      from node_home(3) [OF this sp(1)] u(2) show ?thesis by (simp add: cache_unlock_def slot_prot_def)
    qed
    ultimately show ?thesis
      using that handler_effect [OF co r x, of read_access] nacc False by auto
  qed
  have "vm_read c (t r) x = home_byte c s ?a ?j"
    using vm_read_cases(1) [OF t(2) r x acc] rd(1,3) by (cases "home_of c ?a = r") simp_all
  with t acc rd(2,4) show ?thesis by (auto simp: load_byte_def)
qed

end

text \<open>
  \<open>published c s w a j\<close>: what node \<open>w\<close> reads at byte \<open>j\<close> of page \<open>a\<close> is what its release will
  leave in the home memory, because \<open>w\<close> is the home node or has modified the page and nobody
  else has changed this byte since \<open>w\<close> made its twin.
\<close>

definition published :: "swdsm_config \<Rightarrow> cluster \<Rightarrow> nat \<Rightarrow> nat \<Rightarrow> nat \<Rightarrow> bool" where
  "published c s w a j \<longleftrightarrow>
     home_of c a = w \<or> dirty_at c s w a \<and> twin_byte c s w a j = home_byte c s a j"

text \<open>Node \<open>n\<close> has no modification of its own pending at the byte.\<close>

definition no_own_write :: "swdsm_config \<Rightarrow> cluster \<Rightarrow> nat \<Rightarrow> nat \<Rightarrow> nat \<Rightarrow> bool" where
  "no_own_write c s n a j \<longleftrightarrow> \<not> (dirty_at c s n a \<and> cache_byte c s n a j \<noteq> twin_byte c s n a j)"

text \<open>A read by an application thread: the access, after the fault if the page is not accessible.\<close>

definition read_byte :: "ext \<Rightarrow> swdsm_config \<Rightarrow> nat \<Rightarrow> nat \<Rightarrow> cluster \<Rightarrow> argo_error + byte option \<times> cluster" where
  "read_byte E c n x s =
     (case load_byte c n x s of
        Some v \<Rightarrow> Inr (Some v, s)
      | None \<Rightarrow> bindE (handler E c n x read_access s) (\<lambda>t. Inr (load_byte c n x t, t)))"

context dsm
begin

section \<open>Visibility of writes\<close>

lemma buffered: "coherent c s \<Longrightarrow> r < numtasks c \<Longrightarrow> dirty_at c s r p \<Longrightarrow> getCacheIndex c p \<in> set (wb_buffer (s r))"
  using cache_index_less [of p] unfolding coherent_def node_ok_def buffer_ok_def dirty_at_def by blast

lemma read_byte_total:
  assumes co: "coherent c s" and r: "r < numtasks c" and x: "x < size_of_all c"
  shows "\<exists>v t. read_byte E c r x s = Inr (Some v, t) \<and> coherent c t"
proof (cases "vprot (s r) (page_of c x) = PROT_NONE")
  case True
  then obtain t where "handler E c r x read_access s = Inr t" "coherent c t" "load_byte c r x t \<noteq> None"
    using read_fault_effect [OF assms] by auto
  then show ?thesis using True by (auto simp: read_byte_def load_byte_def)
qed (use co in \<open>simp add: read_byte_def load_byte_def\<close>)

lemma written_back_publishes:
  assumes co: "coherent c s" and w: "w < numtasks c" and x: "x < size_of_all c"
    and v: "load_byte c w x s = Some v" and pub: "published c s w (page_of c x) (x mod PAGE_SIZE c)"
    and wb: "wrote_back c w X s t"
    and X: "home_of c (page_of c x) \<noteq> w \<Longrightarrow> dirty_at c s w (page_of c x) \<Longrightarrow> getCacheIndex c (page_of c x) \<in> X"
  shows "home_byte c t (page_of c x) (x mod PAGE_SIZE c) = v"
proof -
  let ?a = "page_of c x" and ?j = "x mod PAGE_SIZE c"
  note sp = address_split [OF x]
  have acc: "vprot (s w) ?a \<noteq> PROT_NONE" and v': "v = vm_read c (s w) x"
    using v by (auto simp: load_byte_def split: if_splits)
  have hb: "home_byte c t ?a ?j = (if getCacheIndex c ?a \<in> X \<and> tag (slot c s w ?a) = ?a
      \<and> cache_byte c s w ?a ?j \<noteq> twin_byte c s w ?a ?j then cache_byte c s w ?a ?j else home_byte c s ?a ?j)"
    using wb sp(1,3) by (simp add: wrote_back_def)
  show ?thesis
  proof (cases "home_of c ?a = w")
    case True
    have "node_ok c {} {} w (s w)" using co w by (simp add: coherent_def)
    with True have "tag (slot c s w ?a) \<noteq> ?a" using node_home(1) sp(1) by blast
    then show ?thesis using hb vm_read_cases(1) [OF co w x acc] True v' by simp
  next
    case False
    with pub have d: "dirty_at c s w ?a" "twin_byte c s w ?a ?j = home_byte c s ?a ?j"
      by (simp_all add: published_def)
    then show ?thesis
      using hb vm_read_cases(1) [OF co w x acc] False v' X [OF False d(1)] by (auto simp: dirty_at_def)
  qed
qed

lemma release_publishes:
  assumes co: "coherent c s" and w: "w < numtasks c" and x: "x < size_of_all c"
    and v: "load_byte c w x s = Some v" and pub: "published c s w (page_of c x) (x mod PAGE_SIZE c)"
  shows "\<exists>t. argo_release E c w s = Inr t \<and> coherent c t \<and> wb_buffer (t w) = []
     \<and> wrote_back c w (set (wb_buffer (s w))) s t \<and> home_byte c t (page_of c x) (x mod PAGE_SIZE c) = v"
proof -
  obtain t where t: "argo_release E c w s = Inr t" "coherent c t" "wrote_back c w (set (wb_buffer (s w))) s t"
      "wb_buffer (t w) = []" using argo_release_effect [OF co w] by blast
  then show ?thesis using written_back_publishes [OF co w x v pub t(3)] buffered [OF co w] by blast
qed

text \<open>A read returns the byte of the home memory when the page, if it is accessible, is not stale.\<close>

lemma read_byte_home:
  assumes co: "coherent c t" and n: "n < numtasks c" and x: "x < size_of_all c"
    and fresh: "vprot (t n) (page_of c x) \<noteq> PROT_NONE \<Longrightarrow> vm_read c (t n) x = home_byte c t (page_of c x) (x mod PAGE_SIZE c)"
  shows "\<exists>u. read_byte E c n x t = Inr (Some (home_byte c t (page_of c x) (x mod PAGE_SIZE c)), u)"
proof (cases "vprot (t n) (page_of c x) = PROT_NONE")
  case True
  from read_fault_effect [OF co n x True] show ?thesis using True by (fastforce simp: read_byte_def load_byte_def)
next
  case False
  with fresh show ?thesis by (simp add: read_byte_def load_byte_def)
qed

lemma acquire_reads_home:
  assumes co: "coherent c s" and n: "n < numtasks c" and x: "x < size_of_all c"
    and own: "no_own_write c s n (page_of c x) (x mod PAGE_SIZE c)"
  shows "\<exists>t u. argo_acquire E c n s = Inr t \<and> coherent c t
     \<and> read_byte E c n x t = Inr (Some (home_byte c s (page_of c x) (x mod PAGE_SIZE c)), u)"
proof -
  let ?a = "page_of c x" and ?j = "x mod PAGE_SIZE c"
  note sp = address_split [OF x]
  obtain f t where t: "argo_acquire E c n s = Inr t" and inv: "invalidating c n s (cachesize c) (f, t)"
    using argo_acquire_effect [OF co n] by blast
  have ct: "coherent c t" using inv by (simp add: invalidating_def)
  have hb: "home_byte c t ?a ?j = home_byte c s ?a ?j"
    using inv sp(1,3) own by (auto simp: invalidating_def no_own_write_def)
  have "\<exists>u. read_byte E c n x t = Inr (Some (home_byte c t ?a ?j), u)"
    using read_byte_home [OF ct n x] acquired_fresh [OF inv n sp(1) _ sp(3)] sp(2) by simp
  then have "\<exists>u. read_byte E c n x t = Inr (Some (home_byte c s ?a ?j), u)" by (simp add: hb)
  with t ct show ?thesis by blast
qed

lemma release_acquire:
  assumes co: "coherent c s" and w: "w < numtasks c" and n: "n < numtasks c" and x: "x < size_of_all c"
    and v: "load_byte c w x s = Some v" and pub: "published c s w (page_of c x) (x mod PAGE_SIZE c)"
    and own: "n \<noteq> w \<Longrightarrow> no_own_write c s n (page_of c x) (x mod PAGE_SIZE c)"
  shows "\<exists>s1 s2 s3. argo_release E c w s = Inr s1 \<and> argo_acquire E c n s1 = Inr s2
     \<and> read_byte E c n x s2 = Inr (Some v, s3)"
proof -
  let ?a = "page_of c x" and ?j = "x mod PAGE_SIZE c"
  note sp = address_split [OF x]
  obtain s1 where s1: "argo_release E c w s = Inr s1" "coherent c s1" "wb_buffer (s1 w) = []"
      "wrote_back c w (set (wb_buffer (s w))) s s1" "home_byte c s1 ?a ?j = v"
    using release_publishes [OF co w x v pub] by blast
  have "no_own_write c s1 n ?a ?j"
  proof (cases "n = w")
    case True
    then show ?thesis using buffered [OF s1(2) w, of ?a] s1(3) by (auto simp: no_own_write_def)
  next
    case False
    have loc: "same_local c (s n) (s1 n)" using s1(4) by (simp add: wrote_back_def)
    show ?thesis
      using own [OF False] wrote_back_views(2) [OF s1(4), of n ?a] same_local_bytes [of s n s1 ?j ?a, OF loc sp(3)] False
      by (simp add: no_own_write_def)
  qed
  from acquire_reads_home [OF s1(2) n x this] show ?thesis using s1(1,5) by auto
qed

section \<open>Progress of writes\<close>

lemma store_allowed:
  assumes co: "coherent c s" and r: "r < numtasks c" and x: "x < size_of_all c"
    and ok: "home_of c (page_of c x) \<noteq> r \<and> dirty_at c s r (page_of c x) \<or> vprot (s r) (page_of c x) = PROT_READ_WRITE"
  shows "\<exists>t. store_byte c r x v s = Some t \<and> coherent c t \<and> load_byte c r x t = Some v"
proof -
  let ?a = "page_of c x" and ?j = "x mod PAGE_SIZE c"
  note sp = address_split [OF x]
  have nk: "node_ok c {} {} r (s r)" using co r by (simp add: coherent_def)
  have rw: "vprot (s r) ?a = PROT_READ_WRITE" and mp: "vmap (s r) ?a \<noteq> None"
  proof -
    have c0: "coherent_at c r {} {} s" using co by (simp add: coherent_at_empty)
    have d: "vprot (s r) ?a = PROT_READ_WRITE" if "dirty_at c s r ?a"
      using node_home(3) [OF nk sp(1)] dirty_cached [OF c0 r that] that
      by (auto simp: dirty_at_def cached_def slot_prot_def)
    then show rw: "vprot (s r) ?a = PROT_READ_WRITE" using ok by blast
    show "vmap (s r) ?a \<noteq> None"
    proof (cases "home_of c ?a = r")
      case True
      with nk sp(1) rw show ?thesis by (auto simp: node_ok_def pages_ok_def)
    next
      case False
      with nk sp(1) rw have "tag (slot c s r ?a) = ?a" by (auto simp: node_ok_def pages_ok_def)
      with node_home(2) [OF nk sp(1)] show ?thesis by simp
    qed
  qed
  then obtain off where off: "vmap (s r) ?a = Some off" by blast
  define t where "t = upd r (\<lambda>nd. nd\<lparr>backing := (backing nd)(off + ?j := v)\<rparr>) s"
  have st: "store_byte c r x v s = Some t" using rw off by (simp add: store_byte_def t_def)
  have "vm_read c (t r) x = v"
    using vm_read_page [of c ?a ?j "t r"] sp off by (simp add: is_page_def t_def)
  moreover have "vprot (t r) ?a = PROT_READ_WRITE" using rw by (simp add: t_def)
  ultimately show ?thesis using st store_byte_coherent [OF co r x st] by (simp add: load_byte_def)
qed

lemma write_progress:
  assumes co: "coherent c s" and r: "r < numtasks c" and x: "x < size_of_all c"
  shows "\<exists>k \<le> 2. \<exists>t u. foldE (\<lambda>_. handler E c r x write_access) [0..<k] s = Inr t
     \<and> store_byte c r x v t = Some u \<and> coherent c u \<and> load_byte c r x u = Some v"
proof -
  let ?a = "page_of c x"
  have fault: "\<exists>t. handler E c r x write_access s = Inr t \<and> coherent c t
     \<and> (if home_of c ?a = r
        then (r \<notin> sharers c s r ?a \<longrightarrow> r \<in> sharers c t r ?a)
           \<and> (r \<in> sharers c s r ?a \<longrightarrow> vprot (t r) ?a = PROT_READ_WRITE)
        else dirty_at c t r ?a)" if "coherent c s" for s
    using handler_effect [OF that r x, of write_access] by (cases "home_of c ?a = r") auto
  obtain t1 where t1: "handler E c r x write_access s = Inr t1" "coherent c t1"
      "if home_of c ?a = r
        then (r \<notin> sharers c s r ?a \<longrightarrow> r \<in> sharers c t1 r ?a)
           \<and> (r \<in> sharers c s r ?a \<longrightarrow> vprot (t1 r) ?a = PROT_READ_WRITE)
        else dirty_at c t1 r ?a" using fault [OF co] by blast
  show ?thesis
  proof (cases "home_of c ?a \<noteq> r \<or> r \<in> sharers c s r ?a")
    case True
    with t1(3) have "home_of c ?a \<noteq> r \<and> dirty_at c t1 r ?a \<or> vprot (t1 r) ?a = PROT_READ_WRITE"
      by (auto split: if_splits)
    from store_allowed [OF t1(2) r x this, of v] t1(1) show ?thesis
      by (intro exI [of _ "1 :: nat"]) auto
  next
    case False
    obtain t2 where t2: "handler E c r x write_access t1 = Inr t2" "coherent c t2"
        "vprot (t2 r) ?a = PROT_READ_WRITE"
      using fault [OF t1(2)] t1(3) False by auto
    from store_allowed [OF t2(2) r x disjI2 [OF t2(3)], of v] t1(1) t2(1) show ?thesis
      by (intro exI [of _ "2 :: nat"]) (auto simp: numeral_2_eq_2)
  qed
qed

end

end
