(* ===== verification/Argo_Env.thy ===== *)
theory Argo_Env
  imports Argo_Prelude
begin

text \<open>
  The environment variables of \<^verbatim>\<open>src/env/env.cpp\<close>: how a variable is read
  (\<^verbatim>\<open>std::stringstream >> std::size_t\<close>), which defaults apply, the limit on the write-back size and
  the accessors that refuse to answer before \<^verbatim>\<open>init()\<close>. The process environment is an argument,
  a partial function from names to values.
\<close>

section \<open>Extracting an unsigned number from a stream\<close>

definition is_space :: "char \<Rightarrow> bool" where
  "is_space ch \<longleftrightarrow> of_char ch \<in> {9, 10, 11, 12, 13, 32 :: nat}"

definition is_digit :: "char \<Rightarrow> bool" where
  "is_digit ch \<longleftrightarrow> (48 :: nat) \<le> of_char ch \<and> of_char ch \<le> (57 :: nat)"

definition digit_value :: "char \<Rightarrow> nat" where
  "digit_value ch = of_char ch - 48"

definition digits_value :: "string \<Rightarrow> nat" where
  "digits_value ds = foldl (\<lambda>n ch. 10 * n + digit_value ch) 0 ds"

text \<open>
  Leading white space is skipped; on an exhausted stream the target is left as it was, which
  for the local variable of \<^verbatim>\<open>parse_env\<close> means indeterminate. A sign is accepted, a field
  without digits stores zero, a value that does not fit stores the maximum, and a minus sign
  negates modulo \<open>2\<^sup>6\<^sup>4\<close>.
\<close>

definition extract_size_t :: "string \<Rightarrow> argo_error + nat" where
  "extract_size_t str =
     (case dropWhile is_space str of
        [] \<Rightarrow> Inl (Undefined_behaviour ''indeterminate env_value'')
      | ch # rest \<Rightarrow>
          let negative = (ch = CHR ''-'');
              field = (if ch = CHR ''-'' \<or> ch = CHR ''+'' then rest else ch # rest);
              ds = takeWhile is_digit field;
              n = digits_value ds
          in if ds = [] then Inr 0
             else if size_max < n then Inr size_max
             else Inr (if negative then sub64 0 n else n))"

definition parse_env :: "(string \<Rightarrow> string option) \<Rightarrow> string \<Rightarrow> nat \<Rightarrow> argo_error + bool \<times> nat" where
  "parse_env getenv name fallback =
     (case getenv name of
        Some env_string \<Rightarrow> bindE (extract_size_t env_string) (\<lambda>v. Inr (True, v))
      | None \<Rightarrow> Inr (False, fallback))"

section \<open>The values\<close>

definition default_memory_size :: nat where
  "default_memory_size = 8 * 2 ^ 30"

definition default_cache_size :: nat where
  "default_cache_size = 2 ^ 30"

definition default_write_buffer_size :: nat where
  "default_write_buffer_size = 512"

definition default_write_buffer_write_back_size :: nat where
  "default_write_buffer_write_back_size = 32"

definition default_allocation_policy :: nat where
  "default_allocation_policy = 0"

definition default_allocation_block_size :: nat where
  "default_allocation_block_size = 2 ^ 4"

definition default_load_size :: nat where
  "default_load_size = 8"

definition default_mpi_windows_per_node :: nat where
  "default_mpi_windows_per_node = 4"

definition default_print_statistics :: nat where
  "default_print_statistics = 2"

definition msg_uninitialized :: string where
  "msg_uninitialized = ''argo::env::init() must be called before accessing environment values''"

record env =
  value_memory_size :: nat
  value_cache_size :: nat
  value_write_buffer_size :: nat
  value_write_buffer_write_back_size :: nat
  value_allocation_policy :: nat
  value_allocation_block_size :: nat
  value_load_size :: nat
  value_mpi_windows_per_node :: nat
  value_print_statistics :: nat
  is_initialized :: bool

definition env_value :: "(string \<Rightarrow> string option) \<Rightarrow> string \<Rightarrow> nat \<Rightarrow> argo_error + nat" where
  "env_value getenv name fallback = bindE (parse_env getenv name fallback) (\<lambda>(_, v). Inr v)"

definition env_init :: "(string \<Rightarrow> string option) \<Rightarrow> argo_error + env" where
  "env_init getenv =
     bindE (env_value getenv ''ARGO_MEMORY_SIZE'' default_memory_size) (\<lambda>memory.
     bindE (env_value getenv ''ARGO_CACHE_SIZE'' default_cache_size) (\<lambda>cache.
     bindE (env_value getenv ''ARGO_WRITE_BUFFER_SIZE'' default_write_buffer_size) (\<lambda>wb.
     bindE (env_value getenv ''ARGO_WRITE_BUFFER_WRITE_BACK_SIZE''
              default_write_buffer_write_back_size) (\<lambda>wb_back.
     bindE (env_value getenv ''ARGO_ALLOCATION_POLICY'' default_allocation_policy) (\<lambda>pol.
     bindE (env_value getenv ''ARGO_ALLOCATION_BLOCK_SIZE'' default_allocation_block_size) (\<lambda>block.
     bindE (env_value getenv ''ARGO_LOAD_SIZE'' default_load_size) (\<lambda>load.
     bindE (env_value getenv ''ARGO_MPI_WINDOWS_PER_NODE'' default_mpi_windows_per_node) (\<lambda>windows.
     bindE (env_value getenv ''ARGO_PRINT_STATISTICS'' default_print_statistics) (\<lambda>stats.
       Inr \<lparr>value_memory_size = memory, value_cache_size = cache, value_write_buffer_size = wb,
            value_write_buffer_write_back_size = (if wb_back > wb then wb else wb_back),
            value_allocation_policy = pol, value_allocation_block_size = block,
            value_load_size = load, value_mpi_windows_per_node = windows,
            value_print_statistics = stats, is_initialized = True\<rparr>)))))))))"

definition assert_initialized :: "env \<Rightarrow> argo_error + unit" where
  "assert_initialized e = (if is_initialized e then Inr () else Inl (Logic_error msg_uninitialized))"

definition env_memory_size :: "env \<Rightarrow> argo_error + nat" where
  "env_memory_size e = bindE (assert_initialized e) (\<lambda>_. Inr (value_memory_size e))"

definition env_cache_size :: "env \<Rightarrow> argo_error + nat" where
  "env_cache_size e = bindE (assert_initialized e) (\<lambda>_. Inr (value_cache_size e))"

definition env_write_buffer_size :: "env \<Rightarrow> argo_error + nat" where
  "env_write_buffer_size e = bindE (assert_initialized e) (\<lambda>_. Inr (value_write_buffer_size e))"

definition env_write_buffer_write_back_size :: "env \<Rightarrow> argo_error + nat" where
  "env_write_buffer_write_back_size e =
     bindE (assert_initialized e) (\<lambda>_. Inr (value_write_buffer_write_back_size e))"

definition env_allocation_policy :: "env \<Rightarrow> argo_error + nat" where
  "env_allocation_policy e = bindE (assert_initialized e) (\<lambda>_. Inr (value_allocation_policy e))"

definition env_allocation_block_size :: "env \<Rightarrow> argo_error + nat" where
  "env_allocation_block_size e = bindE (assert_initialized e) (\<lambda>_. Inr (value_allocation_block_size e))"

definition env_load_size :: "env \<Rightarrow> argo_error + nat" where
  "env_load_size e = bindE (assert_initialized e) (\<lambda>_. Inr (value_load_size e))"

definition env_mpi_windows_per_node :: "env \<Rightarrow> argo_error + nat" where
  "env_mpi_windows_per_node e = bindE (assert_initialized e) (\<lambda>_. Inr (value_mpi_windows_per_node e))"

definition env_print_statistics :: "env \<Rightarrow> argo_error + nat" where
  "env_print_statistics e = bindE (assert_initialized e) (\<lambda>_. Inr (value_print_statistics e))"

text \<open>
  Before \<^verbatim>\<open>env::init()\<close> every accessor raises the logic error; afterwards it returns the
  stored value.
\<close>

lemma env_accessors:
  "f \<in> {(env_memory_size, value_memory_size), (env_cache_size, value_cache_size),
         (env_write_buffer_size, value_write_buffer_size),
         (env_write_buffer_write_back_size, value_write_buffer_write_back_size),
         (env_allocation_policy, value_allocation_policy),
         (env_allocation_block_size, value_allocation_block_size), (env_load_size, value_load_size),
         (env_mpi_windows_per_node, value_mpi_windows_per_node),
         (env_print_statistics, value_print_statistics)} \<Longrightarrow>
   fst f e = (if is_initialized e then Inr (snd f e) else Inl (Logic_error msg_uninitialized))"
  by (auto simp: assert_initialized_def env_memory_size_def env_cache_size_def env_write_buffer_size_def
      env_write_buffer_write_back_size_def env_allocation_policy_def env_allocation_block_size_def
      env_load_size_def env_mpi_windows_per_node_def env_print_statistics_def)

section \<open>Printing a number and reading it back\<close>









section \<open>Properties\<close>



definition blank :: "string \<Rightarrow> bool" where
  "blank str \<longleftrightarrow> dropWhile is_space str = []"

lemma env_value_total:
  assumes "\<And>name str. getenv name = Some str \<Longrightarrow> \<not> blank str"
  shows "\<exists>v. env_value getenv name fallback = Inr v"
proof (cases "getenv name")
  case (Some str)
  then obtain ch rest where "dropWhile is_space str = ch # rest"
    using assms by (cases "dropWhile is_space str") (auto simp: blank_def)
  then have "\<exists>v. extract_size_t str = Inr v" by (simp add: extract_size_t_def Let_def)
  with Some show ?thesis by (auto simp: env_value_def parse_env_def)
qed (simp add: env_value_def parse_env_def)

text \<open>
  When no variable is set to a blank string, \<^verbatim>\<open>env::init()\<close> succeeds, whatever the
  variables contain; it marks the values as available and limits the write-back size to the
  size of the write buffer.
\<close>

lemma env_init_total:
  assumes "\<And>name str. getenv name = Some str \<Longrightarrow> \<not> blank str"
  shows "\<exists>e. env_init getenv = Inr e \<and> is_initialized e
     \<and> value_write_buffer_write_back_size e \<le> value_write_buffer_size e"
proof -
  have v: "\<exists>v. env_value getenv name fallback = Inr v" for name fallback
    using assms by (rule env_value_total)
  obtain f where f: "\<And>name fallback. env_value getenv name fallback = Inr (f name fallback)"
    using v by metis
  show ?thesis by (simp add: env_init_def f)
qed

text \<open>
  A variable whose text is no number is taken as zero without any error, although the
  code has handlers for that case.
\<close>

lemma env_malformed_is_zero:
  assumes "getenv name = Some (ch # str)" and "\<not> is_space ch" and "\<not> is_digit ch"
    and "ch \<noteq> CHR ''-''" and "ch \<noteq> CHR ''+''"
  shows "parse_env getenv name fallback = Inr (True, 0)"
  using assms by (simp add: parse_env_def extract_size_t_def)

end
