(* ===== verification/Swdsm_Init.thy ===== *)
theory Swdsm_Init
  imports Coherence_Main Argo_Env
begin

text \<open>
  Start-up and shut-down of the MPI backend: \<^verbatim>\<open>argo_initialize\<close> and \<^verbatim>\<open>argo_finalize\<close> of
  \<^verbatim>\<open>swdsm.cpp\<close>. The sizes are computed with the 64-bit operations of the source. The theory shows
  that the configuration they give satisfies the contract \<open>dsm_config\<close> of the cache and that the
  state they leave behind satisfies the coherence invariant.
\<close>

section \<open>argo\_initialize\<close>

text \<open>
  What start-up reads from outside: the constants of the generated \<^verbatim>\<open>config.hpp\<close>, the number of
  nodes from MPI, the start of the address range and the environment.
\<close>

record init_params =
  p_PAGE_SIZE :: nat
  p_CACHELINE :: nat
  p_numtasks :: nat
  p_start :: nat
  p_env :: env

text \<open>\<^verbatim>\<open>argo_size\<close> after standardisation.\<close>

definition init_padding :: "init_params \<Rightarrow> nat" where
  "init_padding P =
     policy_padding (value_allocation_policy (p_env P)) (value_allocation_block_size (p_env P)) (p_numtasks P)"

definition standard_size :: "init_params \<Rightarrow> nat \<Rightarrow> nat" where
  "standard_size P argo_size =
     align_forwards (max argo_size (mul64 (p_PAGE_SIZE P) (p_numtasks P)))
       (mul64 (mul64 (mul64 (p_PAGE_SIZE P) (p_CACHELINE P)) (p_numtasks P)) (init_padding P))"

definition cache_pages :: "init_params \<Rightarrow> nat \<Rightarrow> nat \<Rightarrow> nat" where
  "cache_pages P argo_size cache_size =
     max (align_forwards (min argo_size cache_size) (mul64 (p_PAGE_SIZE P) (p_CACHELINE P)))
         (mul64 (mul64 (p_PAGE_SIZE P) (p_CACHELINE P)) 2) div p_PAGE_SIZE P"

text \<open>\<^verbatim>\<open>sizeof(control_data)\<close>: two bytes, padding, and an eight byte word.\<close>

definition sizeof_control_data :: nat where
  "sizeof_control_data = 16"

definition init_config :: "init_params \<Rightarrow> dist_ops \<Rightarrow> nat \<Rightarrow> nat \<Rightarrow> swdsm_config" where
  "init_config P pol argo_size cache_size =
     (let argo_size = standard_size P argo_size;
          cachesize = cache_pages P argo_size cache_size;
          cacheControlSize = align_forwards (mul64 sizeof_control_data cachesize) (p_PAGE_SIZE P)
      in \<lparr>PAGE_SIZE = p_PAGE_SIZE P, CACHELINE = p_CACHELINE P, numtasks = p_numtasks P,
          startAddr = p_start P, size_of_all = argo_size, size_of_chunk = argo_size div p_numtasks P,
          cachesize = cachesize, load_size = value_load_size (p_env P),
          cacheoffset = add64 (mul64 (p_PAGE_SIZE P) cachesize) cacheControlSize,
          classificationSize = mul64 2 (argo_size div p_PAGE_SIZE P),
          mpi_windows = (if p_numtasks P > 1
             then mul64 (value_mpi_windows_per_node (p_env P)) (p_numtasks P) else 1),
          GLOBAL_NULL = add64 argo_size 1,
          wb_max_size = value_write_buffer_size (p_env P) div p_CACHELINE P,
          wb_write_back_size = value_write_buffer_write_back_size (p_env P) div p_CACHELINE P,
          policy = pol\<rparr>)"

text \<open>
  The state of a node when \<^verbatim>\<open>argo_reset_coherence\<close> is called: the memory file is zero-filled, the
  whole address range is mapped inaccessible, the cache control data has just been set.
  \<^verbatim>\<open>touchedcache\<close> and \<^verbatim>\<open>pagecopy\<close> are fresh allocations with arbitrary contents.
\<close>

definition init_node :: "swdsm_config \<Rightarrow> (nat \<Rightarrow> bool) \<Rightarrow> (nat \<Rightarrow> byte) \<Rightarrow> node" where
  "init_node c touched copy =
     \<lparr>cacheControl = (\<lambda>_. \<lparr>state = INVALID, dirty = CLEAN, tag = GLOBAL_NULL c\<rparr>),
      touchedcache = touched, cache_locks = (\<lambda>_. False), backing = (\<lambda>_. 0), vmap = (\<lambda>_. None),
      vprot = (\<lambda>_. PROT_NONE), pagecopy = copy, globalSharers = (\<lambda>_. 0), wb_buffer = [],
      wb_page_count = 0, wb_partial_flush_count = 0, read_misses = 0, write_misses = 0, barriers = 0\<rparr>"

definition argo_initialize ::
  "ext \<Rightarrow> init_params \<Rightarrow> dist_ops \<Rightarrow> (nat \<Rightarrow> nat \<Rightarrow> bool) \<Rightarrow> (nat \<Rightarrow> nat \<Rightarrow> byte) \<Rightarrow> nat \<Rightarrow> nat
     \<Rightarrow> argo_error + swdsm_config \<times> cluster" where
  "argo_initialize E P pol touched copy argo_size cache_size =
     (let c = init_config P pol argo_size cache_size
      in bindE (argo_reset_coherence E c [0..<numtasks c] (\<lambda>n. init_node c (touched n) (copy n)))
           (\<lambda>s. Inr (c, s)))"

section \<open>argo\_finalize\<close>

definition argo_finalize :: "ext \<Rightarrow> swdsm_config \<Rightarrow> nat list \<Rightarrow> cluster \<Rightarrow> argo_error + cluster" where
  "argo_finalize E c ns s =
     bindE (swdsm_argo_barrier E c ns upgrade_none s) (\<lambda>s.
     bindE (swdsm_argo_barrier E c ns upgrade_none s) (\<lambda>s.
       Inr (fold (\<lambda>n. upd n (mprotect c 0 (size_of_all c) PROT_READ_WRITE)) ns s)))"

section \<open>The configuration satisfies the contract of the cache\<close>

text \<open>
  The policy object answers the same through every accessor of a global pointer when its
  \<^verbatim>\<open>peek\<close> functions are the plain ones.
\<close>

lemma plain_policy:
  assumes "policy c = plain_ops h q"
  shows "get_homenode c p = h (add64 p (startAddr c))" and "peek_homenode c p = h (add64 p (startAddr c))"
    and "get_offset c p = q (add64 p (startAddr c))" and "peek_offset c p = q (add64 p (startAddr c))"
  by (cases "h (add64 p (startAddr c))"; cases "q (add64 p (startAddr c))";
      simp add: assms plain_ops_def get_homenode_def peek_homenode_def get_offset_def peek_offset_def
        global_ptr_new_def gp_node_def gp_peek_node_def gp_offset_def gp_peek_offset_def Let_def)+

context block_distribution
begin

lemma same_block:
  assumes "PS dvd bsize D" and "0 < PS" and "PS dvd p" and "j < PS"
  shows "(p + j) div bsize D = p div bsize D" and "(p + j) mod bsize D = p mod bsize D + j"
proof -
  from assms obtain k m where b: "bsize D = PS * k" and p: "p = PS * m" by (elim dvdE)
  have d: "(p + j) div PS = m" "(p + j) mod PS = j" using assms(2,4) by (simp_all add: p)
  have d0: "p div PS = m" "p mod PS = 0" using assms(2) by (simp_all add: p)
  show "(p + j) div bsize D = p div bsize D" unfolding b div_mult2_eq d d0 ..
  show "(p + j) mod bsize D = p mod bsize D + j" unfolding b mod_mult2_eq d d0 by simp
qed

lemma placement_of_policy:
  assumes v: "valid D" and pol: "policy c = plain_ops (home D) (off D)"
    and ps: "0 < PAGE_SIZE c" "PAGE_SIZE c dvd bsize D"
    and sz: "startAddr c = start_address D" "size_of_all c = total_size D" "numtasks c = nodes D"
      "size_of_chunk c = size_per_node D" and fit: "start_address D + total_size D < 2 ^ 64"
  shows "placement c"
proof -
  have ad: "add64 p (startAddr c) = start_address D + p" if "p < total_size D" for p
    using that fit by (simp add: sz add64_id add.commute)
  note pp = plain_policy [OF pol]
  have h: "get_homenode c p = Inr (bhome D (p div bsize D))" if "p < total_size D" for p
    using home_block [OF v that] that by (simp add: pp ad)
  have q: "get_offset c p = Inr (bslot D (p div bsize D) * bsize D + p mod bsize D)" if "p < total_size D" for p
    using off_block [OF v that] that by (simp add: pp ad)
  have dvd: "PAGE_SIZE c dvd size_of_all c"
    using ps(2) bsize_dvd [OF v] total_nodes [OF v] by (simp add: sz) (meson dvd_mult dvd_trans)
  have inside: "p + j < total_size D" if "is_page c p" "j < PAGE_SIZE c" for p j
  proof -
    from that(1) dvd obtain k m where k: "p = PAGE_SIZE c * k" "size_of_all c = PAGE_SIZE c * m" "p < size_of_all c"
      unfolding is_page_def by (elim conjE dvdE)
    then have "k < m" by simp
    then have "k * PAGE_SIZE c + j < m * PAGE_SIZE c" using that(2) by (rule block_offset_less)
    then show ?thesis using k(1,2) sz(2) by (simp add: mult.commute)
  qed
  show ?thesis
  proof
    show "0 < PAGE_SIZE c" "PAGE_SIZE c dvd size_of_all c" by (rule ps dvd)+
    fix p assume p: "p < size_of_all c"
    then have b: "p div bsize D < total_size D div bsize D" using block_less [OF v] by (simp add: sz)
    show "\<exists>k < numtasks c. get_homenode c p = Inr k"
      using h p bhome_less [OF v b] by (simp add: sz)
    show "\<exists>k < size_of_chunk c. get_offset c p = Inr k"
      using q p slot_offset_less [OF v b] bsize_pos [OF v] by (simp add: sz)
    show "peek_homenode c p = get_homenode c p" "peek_offset c p = get_offset c p" by (simp_all add: pp)
  next
    fix p j assume pj: "is_page c p" "j < PAGE_SIZE c"
    then have "PAGE_SIZE c dvd p" "p < total_size D" by (simp_all add: is_page_def sz)
    then show "home_of c (p + j) = home_of c p" "off_of c (p + j) = off_of c p + j"
      using inside [OF pj] same_block [OF ps(2,1) _ pj(2)] by (simp_all add: home_of_def off_of_def h q)
  next
    fix p k assume pk: "p < size_of_all c" "k < size_of_all c" and eq: "home_of c p = home_of c k" "off_of c p = off_of c k"
    have l: "p < total_size D" "k < total_size D" using pk by (simp_all add: sz)
    have "get_homenode c p = get_homenode c k" "get_offset c p = get_offset c k"
      using eq h [OF l(1)] h [OF l(2)] q [OF l(1)] q [OF l(2)] by (simp_all add: home_of_def off_of_def)
    then show "p = k" unfolding pp ad [OF l(1)] ad [OF l(2)] by (rule no_alias [OF v l])
  qed
qed

end

text \<open>
  The admissible requests: the only page size and cacheline the build offers, a static policy,
  the checks of \<^verbatim>\<open>argo::init\<close>, a memory whose directory can be indexed by an \<^verbatim>\<open>int\<close> and at most
  as many nodes as a directory word has bits.
\<close>

definition plain_padding :: "init_params \<Rightarrow> nat" where
  "plain_padding P =
     (if is_cyclic_policy (value_allocation_policy (p_env P)) then value_allocation_block_size (p_env P) else 1)
   * (if is_prime_mapp_policy (value_allocation_policy (p_env P)) then 3 * p_numtasks P div 2 else 1)"

definition init_unit :: "init_params \<Rightarrow> nat" where
  "init_unit P = granularity * p_numtasks P * plain_padding P"

definition init_ok :: "init_params \<Rightarrow> nat \<Rightarrow> bool" where
  "init_ok P argo_size \<longleftrightarrow>
     p_PAGE_SIZE P = granularity \<and> p_CACHELINE P = 1 \<and> 0 < p_numtasks P \<and> p_numtasks P \<le> 64
   \<and> value_allocation_policy (p_env P) < 4 \<and> 0 < value_allocation_block_size (p_env P)
   \<and> 0 < value_load_size (p_env P)
   \<and> value_write_buffer_write_back_size (p_env P) \<le> value_write_buffer_size (p_env P)
   \<and> max argo_size (granularity * p_numtasks P) + init_unit P < 2 ^ 42 \<and> p_start P < 2 ^ 63"

lemma align_forwards_eq:
  assumes "0 < sz" and "0 < x" and "x + sz < 2 ^ 64"
  shows "\<exists>k > 0. align_forwards x sz = k * sz \<and> x \<le> k * sz \<and> k * sz < x + sz"
proof -
  let ?k = "1 + (x - 1) div sz"
  have m: "?k * sz = sz + (x - 1) div sz * sz" by simp
  have "(x - 1) div sz * sz \<le> x - 1" by simp
  moreover have "x - 1 < (x - 1) div sz * sz + sz"
    using assms(1) by (metis add.commute dividend_less_div_times)
  ultimately have b: "x \<le> ?k * sz" "?k * sz < x + sz" using assms(2) unfolding m by linarith+
  have l: "?k * sz < 2 ^ 64" using b(2) assms(3) by (rule less_trans)
  have "?k * 1 \<le> ?k * sz" using assms(1) by (intro mult_le_mono2) simp
  then have "?k < 2 ^ 64" using l unfolding mult_1_right by (rule le_less_trans)
  with l have "align_forwards x sz = ?k * sz"
    using assms(2) by (simp add: align_forwards_def add64_id mul64_id)
  with b show ?thesis by (intro exI [of _ ?k]) simp
qed

lemma init_padding_eq:
  assumes "init_ok P n"
  shows "init_padding P = plain_padding P" and "0 < plain_padding P" and "init_unit P < 2 ^ 42"
    and "plain_padding P \<le> init_unit P"
proof -
  have n: "0 < p_numtasks P" "p_numtasks P \<le> 64" and u: "init_unit P < 2 ^ 42" and
    b: "0 < value_allocation_block_size (p_env P)"
    using assms by (auto simp: init_ok_def)
  show "init_unit P < 2 ^ 42" by (rule u)
  have "0 < 3 * p_numtasks P div 2" using n by linarith
  with b show "0 < plain_padding P" by (simp add: plain_padding_def)
  show le: "plain_padding P \<le> init_unit P" using n by (simp add: init_unit_def granularity_def)
  have w: "wrap32 (3 * p_numtasks P) = 3 * p_numtasks P" using n by (simp add: wrap32_id)
  have "plain_padding P < 2 ^ 64" using le u by simp
  then show "init_padding P = plain_padding P"
    unfolding init_padding_def policy_padding_def Let_def w plain_padding_def by (rule mul64_id)
qed

lemma standard_size_eq:
  assumes "init_ok P n"
  shows "\<exists>k > 0. standard_size P n = k * init_unit P" and "n \<le> standard_size P n" and "standard_size P n < 2 ^ 42"
proof -
  note pd = init_padding_eq [OF assms]
  have c: "p_PAGE_SIZE P = granularity" "p_CACHELINE P = 1" "0 < p_numtasks P" "p_numtasks P \<le> 64"
    and b: "max n (granularity * p_numtasks P) + init_unit P < 2 ^ 42"
    using assms by (auto simp: init_ok_def)
  have gn: "granularity * p_numtasks P < 2 ^ 64" using c(4) by (simp add: granularity_def)
  have "granularity * p_numtasks P * plain_padding P < 2 ^ 64" using pd(3) by (simp add: init_unit_def)
  then have u: "mul64 (mul64 (mul64 (p_PAGE_SIZE P) (p_CACHELINE P)) (p_numtasks P)) (init_padding P) = init_unit P"
    using gn c by (simp add: pd(1) init_unit_def mul64_id granularity_def)
  have "0 < init_unit P" using pd(2) c by (simp add: init_unit_def)
  moreover have "0 < max n (granularity * p_numtasks P)" using c by (simp add: less_max_iff_disj)
  ultimately obtain k where k: "k > 0" "align_forwards (max n (granularity * p_numtasks P)) (init_unit P) = k * init_unit P"
      "max n (granularity * p_numtasks P) \<le> k * init_unit P"
      "k * init_unit P < max n (granularity * p_numtasks P) + init_unit P"
    using align_forwards_eq [of "init_unit P" "max n (granularity * p_numtasks P)"] b by auto
  have s: "standard_size P n = k * init_unit P"
    unfolding standard_size_def u using k(2) gn c(1) by (simp add: mul64_id)
  show "\<exists>k > 0. standard_size P n = k * init_unit P" using s k(1) by blast
  show "n \<le> standard_size P n" "standard_size P n < 2 ^ 42" using s k(3,4) b by simp_all
qed

text \<open>The memory space handed to the policies, and what the standardised size guarantees there.\<close>

definition init_space :: "init_params \<Rightarrow> nat \<Rightarrow> base_distribution" where
  "init_space P argo_size = set_memory_space (p_numtasks P) (p_start P) (standard_size P argo_size)"

lemma init_space_wf:
  assumes ok: "init_ok P n"
  shows "wf_space (init_space P n)"
    and "\<exists>k > 0. size_per_node (init_space P n) = granularity * plain_padding P * k"
    and "is_cyclic_policy (value_allocation_policy (p_env P)) \<Longrightarrow>
           wf_blocks (value_allocation_block_size (p_env P)) (init_space P n)"
    and "is_prime_mapp_policy (value_allocation_policy (p_env P)) \<Longrightarrow>
           wf_prime_blocks (value_allocation_block_size (p_env P)) (init_space P n)"
proof -
  obtain k where k: "k > 0" "standard_size P n = k * init_unit P" using standard_size_eq(1) [OF ok] by blast
  have c: "0 < p_numtasks P" "p_numtasks P \<le> 64" "p_start P < 2 ^ 63" "0 < value_allocation_block_size (p_env P)"
    using ok by (auto simp: init_ok_def)
  have lt: "standard_size P n < 2 ^ 42" by (rule standard_size_eq(3) [OF ok])
  have pp: "0 < plain_padding P" by (rule init_padding_eq(2) [OF ok])
  have e: "standard_size P n = p_numtasks P * (granularity * plain_padding P * k)"
    by (simp add: k(2) init_unit_def)
  have sp: "size_per_node (init_space P n) = granularity * plain_padding P * k"
    using c(1) by (simp add: init_space_def set_memory_space_def e)
  then show "\<exists>k > 0. size_per_node (init_space P n) = granularity * plain_padding P * k" using k(1) by blast
  have "total_size (init_space P n) = nodes (init_space P n) * size_per_node (init_space P n)"
    unfolding sp by (simp add: init_space_def set_memory_space_def e)
  moreover have "0 < size_per_node (init_space P n)" using sp pp k(1) by simp
  moreover have "nodes (init_space P n) = p_numtasks P" "start_address (init_space P n) = p_start P"
      "total_size (init_space P n) = standard_size P n" by (simp_all add: init_space_def set_memory_space_def)
  ultimately show w: "wf_space (init_space P n)" using c lt by (simp add: wf_space_def)
  let ?b = "value_allocation_block_size (p_env P)"
  show "wf_blocks ?b (init_space P n)" if "is_cyclic_policy (value_allocation_policy (p_env P))"
    using w c(4) sp that by (auto simp: wf_blocks_def plain_padding_def)
  show "wf_prime_blocks ?b (init_space P n)" if "is_prime_mapp_policy (value_allocation_policy (p_env P))"
  proof -
    have "is_cyclic_policy (value_allocation_policy (p_env P))"
      using that by (simp add: is_prime_mapp_policy_def is_cyclic_policy_def)
    then have "size_per_node (init_space P n) = ?b * granularity * (3 * p_numtasks P div 2) * k"
      using sp that by (simp add: plain_padding_def)
    then show ?thesis
      using w c by (simp add: wf_prime_blocks_def init_space_def set_memory_space_def)
  qed
qed

text \<open>The policy number selects an entry of the table \<^verbatim>\<open>policies[]\<close>.\<close>

definition policy_of_number :: "nat \<Rightarrow> memory_policy" where
  "policy_of_number k = [naive, cyclic, skew_mapp, prime_mapp, first_touch] ! k"

definition init_policy :: "init_params \<Rightarrow> nat \<Rightarrow> dist_ops option" where
  "init_policy P argo_size =
     static_policy (value_allocation_block_size (p_env P)) (init_space P argo_size)
       (policy_of_number (value_allocation_policy (p_env P)))"

lemma init_placement:
  assumes ok: "init_ok P n" and pol: "init_policy P n = Some pol"
  shows "placement (init_config P pol n cache)"
proof -
  let ?D = "init_space P n" and ?c = "init_config P pol n cache" and ?b = "value_allocation_block_size (p_env P)"
  have ps: "PAGE_SIZE ?c = granularity" using ok by (simp add: init_config_def init_ok_def Let_def)
  have sz: "startAddr ?c = start_address ?D" "size_of_all ?c = total_size ?D" "numtasks ?c = nodes ?D"
      "size_of_chunk ?c = size_per_node ?D"
    by (simp_all add: init_config_def Let_def init_space_def set_memory_space_def)
  have po: "policy ?c = pol" by (simp add: init_config_def Let_def)
  note wf = init_space_wf [OF ok]
  have fit: "start_address ?D + total_size ?D < 2 ^ 64" using wf(1) by (simp add: wf_space_def)
  have spn: "granularity dvd size_per_node ?D" using wf(2) by auto
  have "value_allocation_policy (p_env P) < 4" using ok by (simp add: init_ok_def)
  then consider "value_allocation_policy (p_env P) = 0" | "value_allocation_policy (p_env P) = 1"
    | "value_allocation_policy (p_env P) = 2" | "value_allocation_policy (p_env P) = 3" by linarith
  then show ?thesis
  proof cases
    case 1
    then have "pol = plain_ops (naive_homenode ?D) (naive_local_offset ?D)"
      using pol by (simp add: init_policy_def policy_of_number_def)
    then show ?thesis using naive.placement_of_policy [of ?D ?c] wf(1) po ps spn sz fit by simp
  next
    case 2
    then have "pol = plain_ops (cyclic_homenode ?b ?D) (cyclic_local_offset ?b ?D)"
      using pol by (simp add: init_policy_def policy_of_number_def)
    moreover have "wf_blocks ?b ?D" using wf(3) 2 by (simp add: is_cyclic_policy_def)
    ultimately show ?thesis using cyclic.placement_of_policy [of ?b ?D ?c] po ps sz fit by simp
  next
    case 3
    then have "pol = plain_ops (skew_mapp_homenode ?b ?D) (skew_mapp_local_offset ?b ?D)"
      using pol by (simp add: init_policy_def policy_of_number_def numeral_2_eq_2)
    moreover have "wf_blocks ?b ?D" using wf(3) 3 by (simp add: is_cyclic_policy_def)
    ultimately show ?thesis using skew.placement_of_policy [of ?b ?D ?c] po ps sz fit by simp
  next
    case 4
    then have "pol = plain_ops (prime_mapp_homenode ?b ?D) (prime_mapp_local_offset ?b ?D)"
      using pol by (simp add: init_policy_def policy_of_number_def numeral_3_eq_3)
    moreover have "wf_prime_blocks ?b ?D" using wf(4) 4 by (simp add: is_prime_mapp_policy_def)
    ultimately show ?thesis using prime.placement_of_policy [of ?b ?D ?c] po ps sz fit by simp
  qed
qed

lemma init_config_contract:
  assumes ok: "init_ok P n" and pol: "init_policy P n = Some pol"
  shows "dsm_config (init_config P pol n cache)"
proof -
  let ?c = "init_config P pol n cache" and ?g = "granularity" and ?s = "standard_size P n"
  have k: "p_PAGE_SIZE P = ?g" "p_CACHELINE P = 1" "p_numtasks P \<le> 64" "0 < value_load_size (p_env P)"
      "value_write_buffer_write_back_size (p_env P) \<le> value_write_buffer_size (p_env P)"
    using ok by (auto simp: init_ok_def)
  have s: "?s < 2 ^ 42" "0 < ?s"
    using standard_size_eq [OF ok] init_padding_eq(2) [OF ok] ok by (auto simp: init_unit_def init_ok_def)
  define a where "a = align_forwards (min ?s cache) ?g"
  define m where "m = max a (?g * 2) div ?g"
  have "a \<le> 2 ^ 42 + ?g"
  proof (cases "min ?s cache = 0")
    case False
    have mn: "min ?s cache < 2 ^ 42" using s(1) by simp
    then have "min ?s cache + ?g < 2 ^ 64" by (simp add: granularity_def)
    then obtain j where "a = j * ?g" "j * ?g < min ?s cache + ?g"
      using align_forwards_eq [of ?g "min ?s cache"] False unfolding a_def by auto
    then show ?thesis using mn by linarith
  qed (simp add: a_def align_forwards_def)
  then have m: "m < 2 ^ 31" "0 < m" by (auto simp: m_def granularity_def)
  have cp: "cache_pages P ?s cache = m"
    using k by (simp add: cache_pages_def m_def a_def mul64_id granularity_def)
  have ccs: "align_forwards (mul64 sizeof_control_data m) ?g < 2 ^ 40"
  proof -
    have "mul64 16 m = 16 * m" using m(1) by (simp add: mul64_id)
    moreover obtain j where "align_forwards (16 * m) ?g = j * ?g" "j * ?g < 16 * m + ?g"
      using align_forwards_eq [of ?g "16 * m"] m by (auto simp: granularity_def)
    ultimately show ?thesis using m(1) by (simp add: sizeof_control_data_def granularity_def)
  qed
  have gm: "mul64 ?g m = ?g * m" "?g * m < 2 ^ 43" using m(1) by (simp_all add: mul64_id granularity_def)
  have off: "add64 (mul64 ?g m) (align_forwards (mul64 sizeof_control_data m) ?g)
      = ?g * m + align_forwards (mul64 sizeof_control_data m) ?g"
    unfolding gm(1) using gm(2) ccs by (intro add64_id) simp
  have cl: "mul64 2 (?s div ?g) = 2 * (?s div ?g)" "2 * (?s div ?g) < 2 ^ 31"
    using s(1) by (simp_all add: mul64_id granularity_def)
  have f: "PAGE_SIZE ?c = ?g" "CACHELINE ?c = 1" "cachesize ?c = m" "size_of_all ?c = ?s" "GLOBAL_NULL ?c = ?s + 1"
      "cacheoffset ?c = ?g * m + align_forwards (mul64 sizeof_control_data m) ?g"
      "classificationSize ?c = 2 * (?s div ?g)" "numtasks ?c = p_numtasks P" "load_size ?c = value_load_size (p_env P)"
      "wb_max_size ?c = value_write_buffer_size (p_env P)"
      "wb_write_back_size ?c = value_write_buffer_write_back_size (p_env P)"
    using s(1) by (simp_all add: init_config_def Let_def k(1,2) cp off cl add64_id)
  show ?thesis
    by (intro dsm_config.intro init_placement [OF ok pol] dsm_config_axioms.intro)
      (use k s m cl in \<open>simp_all add: f\<close>)
qed

section \<open>Resetting the coherence state\<close>

lemma fold_upd:
  assumes "distinct ns"
  shows "fold (\<lambda>n. upd n f) ns s n = (if n \<in> set ns then f (s n) else s n)"
  using assms by (induction ns arbitrary: s) (auto simp: upd_def)

lemma zero_stride:
  "fold (\<lambda>j g. g(j := 0)) [i..<k] g x = (if i \<le> x \<and> x < k then (0 :: u64) else g x)"
  by (induction k) (auto simp: less_Suc_eq)

lemma zero_strides:
  fixes g :: "nat \<Rightarrow> u64"
  shows "fold (\<lambda>i g. fold (\<lambda>j g. g(j := 0)) [i..<i + d] g) xs g x
     = (if \<exists>i \<in> set xs. i \<le> x \<and> x < i + d then 0 else g x)"
  by (induction xs arbitrary: g) (auto simp: zero_stride)

lemma c_range_covers:
  assumes "0 < d" and "x < b"
  shows "x div d * d \<in> set (c_range 0 b d)" and "x div d * d \<le> x" and "x < x div d * d + d"
proof -
  show le: "x div d * d \<le> x" by simp
  show "x < x div d * d + d" using assms(1) by (metis add.commute dividend_less_div_times)
  have "x div d * d < b" using le assms(2) by linarith
  with assms(1) show "x div d * d \<in> set (c_range 0 b d)"
  proof -
    have "Suc (x div d) * d \<le> b + d - 1" using \<open>x div d * d < b\<close> by simp
    then have "Suc (x div d) \<le> (b + d - 1) div d" using assms(1) by (simp add: less_eq_div_iff_mult_less_eq)
    then show ?thesis by (auto simp: c_range_def image_iff intro!: bexI [of _ "x div d"])
  qed
qed

definition quiet :: "swdsm_config \<Rightarrow> node \<Rightarrow> bool" where
  "quiet c nd \<longleftrightarrow> wb_buffer nd = [] \<and> (\<forall>i < cachesize c. \<not> touchedcache nd i)"

text \<open>What one node looks like after the reset.\<close>

definition was_reset :: "swdsm_config \<Rightarrow> node \<Rightarrow> node \<Rightarrow> bool" where
  "was_reset c nd nd' \<longleftrightarrow> quiet c nd' \<and> cache_locks nd' = cache_locks nd \<and> backing nd' = backing nd
     \<and> (\<forall>i < cachesize c. cacheControl nd' i = \<lparr>state = INVALID, dirty = CLEAN, tag = GLOBAL_NULL c\<rparr>)
     \<and> (\<forall>p. is_page c p \<longrightarrow> vprot nd' p = PROT_NONE)
     \<and> (\<forall>k. k < classificationSize c \<or> globalSharers nd k = 0 \<longrightarrow> globalSharers nd' k = 0)"

context dsm
begin

lemma quiet_flush: "wb_buffer (s n) = [] \<Longrightarrow> wb_flush E c n s = Inr s"
  by (simp add: wb_flush_def delegate wb_flush_locked_def wb_flush_loop.simps [of E c n s] wb_empty_def)

lemma quiet_invalidation:
  assumes "\<forall>i < cachesize c. \<not> touchedcache (s n) i"
  shows "self_invalidation E c n s = Inr s"
proof -
  have "foldE (self_invalidation_step E c n) [0..<k] (False, s) = Inr (False, s)" if "k \<le> cachesize c" for k
    using that assms by (induction k) (simp_all add: foldE_append self_invalidation_step_def)
  then show ?thesis by (simp add: self_invalidation_def cacheline)
qed

lemma foldE_id: "(\<And>x. x \<in> set xs \<Longrightarrow> f x s = Inr s) \<Longrightarrow> foldE f xs s = Inr s"
  by (induction xs) auto

lemma quiet_barrier:
  assumes "\<And>n. n \<in> set ns \<Longrightarrow> quiet c (s n)"
  shows "swdsm_argo_barrier E c ns upgrade_none s
    = Inr (fold (\<lambda>n. upd n (\<lambda>nd. nd\<lparr>barriers := add64 (barriers nd) 1\<rparr>)) ns s)"
  using assms foldE_id [of ns "wb_flush E c" s] foldE_id [of ns "self_invalidation E c" s]
  by (simp add: swdsm_argo_barrier_def Let_def quiet_def quiet_flush quiet_invalidation)

lemma reset_node_reset:
  fixes b :: nat
  assumes wb: "wb_buffer nd = []"
  defines "r \<equiv> mprotect c 0 (size_of_all c) PROT_NONE
       ((reset_node c nd)\<lparr>barriers := b\<rparr>)"
  shows "was_reset c nd (argo_reset_stats (r\<lparr>barriers := b'\<rparr>))"
proof -
  have pg: "p \<in> set (pages_of c 0 (size_of_all c))" if "is_page c p" for p
  proof -
    have "p div PAGE_SIZE c * PAGE_SIZE c = p" using that by (simp add: is_page_def)
    then show ?thesis
      using c_range_covers(1) [OF page_pos, of p "size_of_all c"] that by (simp add: pages_of_def is_page_def)
  qed
  have z: "fold (\<lambda>i g. fold (\<lambda>j g. g(j := 0)) [i..<i + load_size c * 2] g)
      (c_range 0 (classificationSize c) (load_size c * 2)) (globalSharers nd) k = 0"
    if "k < classificationSize c \<or> globalSharers nd k = 0" for k
    using c_range_covers [of "load_size c * 2" k "classificationSize c"] load_pos that
    unfolding zero_strides by auto
  show ?thesis
    using wb pg z by (simp add: was_reset_def quiet_def r_def argo_reset_stats_def wb_reset_stats_def reset_node_def mprotect_def)
qed

lemma reset_coherence_effect:
  assumes ns: "distinct ns" "set ns = {..<numtasks c}"
    and wb: "\<And>n. n < numtasks c \<Longrightarrow> wb_buffer (s n) = []"
  shows "\<exists>t. argo_reset_coherence E c ns s = Inr t \<and> (\<forall>n < numtasks c. was_reset c (s n) (t n))"
proof -
  let ?count = "\<lambda>nd. nd\<lparr>barriers := add64 (barriers nd) 1\<rparr>" and ?all = "mprotect c 0 (size_of_all c) PROT_NONE"
  define s1 where "s1 = fold (\<lambda>n. upd n (reset_node c)) ns s"
  define s2 where "s2 = fold (\<lambda>n. upd n ?count) ns s1"
  define s3 where "s3 = fold (\<lambda>n. upd n ?all) ns s2"
  define s4 where "s4 = fold (\<lambda>n. upd n ?count) ns s3"
  define t where "t = fold (\<lambda>n. upd n argo_reset_stats) ns s4"
  have v: "s1 n = reset_node c (s n)" "s2 n = ?count (s1 n)" "s3 n = ?all (s2 n)" "s4 n = ?count (s3 n)"
      "t n = argo_reset_stats (s4 n)" if "n < numtasks c" for n
    using that fold_upd [OF ns(1)] ns(2) by (simp_all add: s1_def s2_def s3_def s4_def t_def)
  have "quiet c (s1 n)" "quiet c (s3 n)" if "n \<in> set ns" for n
    using that ns(2) wb [of n] v [of n] by (simp_all add: quiet_def reset_node_def mprotect_def)
  then have b: "swdsm_argo_barrier E c ns upgrade_none s1 = Inr s2" "swdsm_argo_barrier E c ns upgrade_none s3 = Inr s4"
    unfolding s2_def s4_def by (blast intro: quiet_barrier)+
  have "argo_reset_coherence E c ns s = Inr t"
    unfolding argo_reset_coherence_def s1_def [symmetric] b bindE_simps s3_def [symmetric] t_def [symmetric] ..
  moreover have "was_reset c (s n) (t n)" if "n < numtasks c" for n
    using reset_node_reset [OF wb [OF that]] by (simp add: v [OF that])
  ultimately show ?thesis by blast
qed

lemma reset_coherent:
  assumes r: "\<And>n. n < numtasks c \<Longrightarrow> was_reset c (s n) (t n)"
    and free: "\<And>n. n < numtasks c \<Longrightarrow> cache_locks (s n) = (\<lambda>_. False)"
    and dir: "\<And>n k. n < numtasks c \<Longrightarrow> classificationSize c \<le> k \<Longrightarrow> globalSharers (s n) k = 0"
  shows "coherent c t"
proof -
  have g: "globalSharers (t n) k = 0" if "n < numtasks c" for n k
    using r [OF that] dir [OF that, of k] by (cases "k < classificationSize c") (simp_all add: was_reset_def)
  have cc: "cacheControl (t n) i = \<lparr>state = INVALID, dirty = CLEAN, tag = GLOBAL_NULL c\<rparr>"
    if "n < numtasks c" "i < cachesize c" for n i using r that by (simp add: was_reset_def)
  have ca: "\<not> cached c t n p" "\<not> dirty_at c t n p" if "n < numtasks c" for n p
    using cc [OF that cache_index_less] by (simp_all add: cached_def dirty_at_def)
  have vp: "vprot (t n) p = PROT_NONE" if "n < numtasks c" "is_page c p" for n p
    using r that by (simp add: was_reset_def)
  have "node_ok c {} {} n (t n)" if n: "n < numtasks c" for n
  proof -
    have "slot_ok c n (t n) i" if "i < cachesize c" for i
      using cc [OF n that] r [OF n] that by (simp add: slot_ok_def was_reset_def quiet_def)
    moreover have "buffer_ok c {} (t n)" using cc [OF n] r [OF n] by (auto simp: buffer_ok_def was_reset_def quiet_def)
    moreover have "pages_ok c n (t n)" using vp [OF n] by (simp add: pages_ok_def)
    ultimately show ?thesis using r [OF n] free [OF n] by (simp add: node_ok_def was_reset_def)
  qed
  moreover have "dir_ok c t"
    using home_less by (auto simp: dir_ok_def g sharers_def writers_def)
  moreover have "link_ok c t"
    unfolding link_ok_def
  proof (intro allI impI)
    fix n p assume "n < numtasks c" "is_page c p"
    then show "if home_of c p = n
      then (vprot (t n) p = PROT_READ_WRITE \<longrightarrow> n \<in> writers c t n p) \<and> (n \<in> sharers c t n p \<or> n \<in> writers c t n p \<longrightarrow> vprot (t n) p \<noteq> PROT_NONE)
      else (cached c t n p \<longrightarrow> n \<in> sharers c t n p)
         \<and> (dirty_at c t n p \<longrightarrow> (\<forall>m. m \<noteq> n \<longrightarrow> \<not> writers c t (home_of c p) p \<subseteq> {m}))"
      using vp ca by (simp add: g sharers_def writers_def)
  qed
  moreover have "data_ok c t" using ca by (simp add: data_ok_def)
  ultimately show ?thesis by (simp add: coherent_def)
qed

end

text \<open>
  Initialisation gives a configuration within the contract and a coherent state in which every
  byte of the global memory is zero and no page is accessible.
\<close>

lemma argo_initialize_coherent:
  fixes cache :: nat
  assumes "externals E" and ok: "init_ok P n" and pol: "init_policy P n = Some pol"
  defines "c \<equiv> init_config P pol n cache"
  shows "\<exists>s. argo_initialize E P pol touched copy n cache = Inr (c, s) \<and> dsm E c \<and> coherent c s
     \<and> (\<forall>r < numtasks c. \<forall>p. is_page c p \<longrightarrow> vprot (s r) p = PROT_NONE)
     \<and> (\<forall>p j. is_page c p \<longrightarrow> home_byte c s p j = 0)"
proof -
  have "dsm_config c" unfolding c_def by (rule init_config_contract [OF ok pol])
  with assms(1) have d: "dsm E c" by (simp add: dsm_def)
  let ?s = "\<lambda>n. init_node c (touched n) (copy n)"
  have "distinct [0..<numtasks c]" "set [0..<numtasks c] = {..<numtasks c}" by auto
  from dsm.reset_coherence_effect [OF d this, of ?s] obtain t where
    t: "argo_reset_coherence E c [0..<numtasks c] ?s = Inr t"
    and r: "\<And>n. n < numtasks c \<Longrightarrow> was_reset c (?s n) (t n)" by (auto simp: init_node_def)
  have "coherent c t" by (rule dsm.reset_coherent [OF d r]) (simp_all add: init_node_def)
  moreover have "home_byte c t p j = 0" if "is_page c p" for p j
    using r [OF dsm.home_less [OF d that]] by (simp add: was_reset_def home_byte_def data_window_def init_node_def)
  moreover have "vprot (t n) p = PROT_NONE" if "n < numtasks c" "is_page c p" for n p
    using r that by (simp add: was_reset_def)
  ultimately show ?thesis using t d by (simp add: argo_initialize_def c_def Let_def)
qed

text \<open>The system that \<^verbatim>\<open>argo_initialize\<close> sets up is one for which the results on the memory hold.\<close>

locale initialised = externals E for E +
  fixes P :: init_params and pol :: dist_ops and n :: nat and cache :: nat
  assumes admissible: "init_ok P n" and policy_object: "init_policy P n = Some pol"

sublocale initialised \<subseteq> dsm E "init_config P pol n cache"
  by (intro dsm.intro externals_axioms init_config_contract [OF admissible policy_object])

context initialised
begin

lemma starts_coherent:
  "\<exists>s. argo_initialize E P pol touched copy n cache = Inr (init_config P pol n cache, s) \<and> coherent (init_config P pol n cache) s
     \<and> (\<forall>r < p_numtasks P. \<forall>p. is_page (init_config P pol n cache) p \<longrightarrow> vprot (s r) p = PROT_NONE)"
  using argo_initialize_coherent [OF externals_axioms admissible policy_object, of touched copy cache]
  by (auto simp: init_config_def Let_def)

end

end
