(* ===== verification/Virtual_Memory.thy ===== *)
theory Virtual_Memory
  imports Swdsm_Init Coherence_Main
begin

text \<open>
  The virtual address space, \<^verbatim>\<open>src/virtual_memory\<close>: the three implementations of which the build takes one, and
  the part of \<^verbatim>\<open>argo_initialize\<close> that lays out the internal arrays. The operating system is a parameter with
  its documented effects as laws. The result is that the pair of a memory file and a mapping, on which
  the model of a node rests, is what the process really has: the page cache and the share of the
  global memory are reached through two addresses.
\<close>

section \<open>The process\<close>

text \<open>
  The memory objects: the file behind the virtual memory, an anonymous shared object named by the
  address it was created at, and the heap. Every mapped address has an object and an offset in it.
\<close>

datatype vm_object = Memory_file | Anonymous nat | Heap

record process =
  mem_map :: "nat \<Rightarrow> (vm_object \<times> nat) option"
  mem_prot :: "nat \<Rightarrow> prot"
  contents :: "vm_object \<Rightarrow> nat \<Rightarrow> byte"
  extent :: "vm_object \<Rightarrow> nat"
  blocks :: "(nat \<times> nat) list"

abbreviation in_range :: "nat \<Rightarrow> nat \<Rightarrow> nat \<Rightarrow> bool" where
  "in_range a n x \<equiv> a \<le> x \<and> x < a + n"

definition map_range :: "nat \<Rightarrow> nat \<Rightarrow> vm_object \<Rightarrow> nat \<Rightarrow> process \<Rightarrow> process" where
  "map_range a n ob off P = P\<lparr>mem_map := (\<lambda>x. if in_range a n x then Some (ob, off + (x - a)) else mem_map P x)\<rparr>"

definition prot_range :: "nat \<Rightarrow> nat \<Rightarrow> prot \<Rightarrow> process \<Rightarrow> process" where
  "prot_range a n p P = P\<lparr>mem_prot := (\<lambda>x. if in_range a n x then p else mem_prot P x)\<rparr>"

text \<open>A load and a store of the process; \<open>None\<close> is a signal.\<close>

definition access :: "process \<Rightarrow> nat \<Rightarrow> (vm_object \<times> nat) option" where
  "access P x = (case mem_map P x of None \<Rightarrow> None | Some (ob, off) \<Rightarrow> if off < extent P ob then Some (ob, off) else None)"

definition proc_load :: "process \<Rightarrow> nat \<Rightarrow> byte option" where
  "proc_load P x = (if mem_prot P x = PROT_NONE then None else map_option (\<lambda>(ob, off). contents P ob off) (access P x))"

definition proc_store :: "nat \<Rightarrow> byte \<Rightarrow> process \<Rightarrow> process option" where
  "proc_store x v P =
     (if mem_prot P x \<noteq> PROT_READ_WRITE then None
      else map_option (\<lambda>(ob, off). P\<lparr>contents := (contents P)(ob := (contents P ob)(off := v))\<rparr>) (access P x))"

section \<open>The operating system\<close>

text \<open>
  A call fails with an error number or changes the process. The laws give the effect of a call that
  succeeds, for arguments that are multiples of the page size \<open>pg\<close>.
\<close>

record os =
  os_memfd_create :: "process \<Rightarrow> nat + process"
  os_shm_open :: "process \<Rightarrow> nat + process"
  os_shm_unlink :: "process \<Rightarrow> nat + process"
  os_shm_avail :: "process \<Rightarrow> nat"
  os_ftruncate :: "vm_object option \<Rightarrow> nat \<Rightarrow> process \<Rightarrow> nat + process"
  os_mmap_anonymous :: "nat \<Rightarrow> nat \<Rightarrow> prot \<Rightarrow> process \<Rightarrow> nat + process"
  os_mmap :: "nat \<Rightarrow> nat \<Rightarrow> prot \<Rightarrow> vm_object option \<Rightarrow> nat \<Rightarrow> process \<Rightarrow> nat + process"
  os_mprotect :: "nat \<Rightarrow> nat \<Rightarrow> prot \<Rightarrow> process \<Rightarrow> nat + process"
  os_remap_file_pages :: "nat \<Rightarrow> nat \<Rightarrow> nat \<Rightarrow> process \<Rightarrow> nat + process"
  posix_memalign :: "nat \<Rightarrow> nat \<Rightarrow> process \<Rightarrow> nat + nat \<times> process"

definition new_object :: "vm_object \<Rightarrow> nat \<Rightarrow> process \<Rightarrow> process" where
  "new_object ob n P = P\<lparr>contents := (contents P)(ob := (\<lambda>_. 0)), extent := (extent P)(ob := n)\<rparr>"

definition add_block :: "nat \<Rightarrow> nat \<Rightarrow> process \<Rightarrow> process" where
  "add_block a n P = P\<lparr>blocks := (a, n) # blocks P\<rparr>"

abbreviation apart :: "nat \<Rightarrow> nat \<Rightarrow> nat \<Rightarrow> nat \<Rightarrow> bool" where
  "apart a n b m \<equiv> a + n \<le> b \<or> b + m \<le> a"

locale posix =
  fixes os :: os and pg :: nat
  assumes page_pos: "0 < pg"
    and memfd_create: "os_memfd_create os P = Inr Q \<Longrightarrow> Q = new_object Memory_file 0 P"
    and shm_open: "os_shm_open os P = Inr Q \<Longrightarrow> Q = new_object Memory_file 0 P"
    and shm_unlink: "os_shm_unlink os P = Inr Q \<Longrightarrow> Q = P"
    and shm_avail: "pg dvd os_shm_avail os P"
    and ftruncate: "os_ftruncate os fd n P = Inr Q \<Longrightarrow>
      \<exists>ob. fd = Some ob \<and> Q = P\<lparr>extent := (extent P)(ob := n)\<rparr>"
    and mmap_anonymous: "os_mmap_anonymous os a n p P = Inr Q \<Longrightarrow> pg dvd a \<Longrightarrow> pg dvd n \<Longrightarrow>
      Q = prot_range a n p (map_range a n (Anonymous a) 0 (add_block a n (new_object (Anonymous a) n P)))"
    and mmap: "os_mmap os a n p fd off P = Inr Q \<Longrightarrow> pg dvd a \<Longrightarrow> pg dvd n \<Longrightarrow> pg dvd off \<Longrightarrow>
      \<exists>ob. fd = Some ob \<and> Q = prot_range a n p (map_range a n ob off P)"
    and mprotect: "os_mprotect os a n p P = Inr Q \<Longrightarrow> pg dvd a \<Longrightarrow> pg dvd n \<Longrightarrow> Q = prot_range a n p P"
    and remap_file_pages: "os_remap_file_pages os a n k P = Inr Q \<Longrightarrow> pg dvd a \<Longrightarrow> pg dvd n \<Longrightarrow>
      (\<And>x. in_range a n x \<Longrightarrow> \<exists>off. mem_map P x = Some (ob, off)) \<Longrightarrow> Q = map_range a n ob (k * pg) P"
    and memalign: "posix_memalign os al n P = Inr (a, Q) \<Longrightarrow>
      a \<noteq> 0 \<and> al dvd a \<and> (\<forall>(b, m) \<in> set (blocks P). apart a n b m)
      \<and> Q = prot_range a n PROT_READ_WRITE (map_range a n Heap a (add_block a n P))"

section \<open>memfd.cpp, shm.cpp and anonymous.cpp\<close>

definition ARGO_VM_START :: nat where
  "ARGO_VM_START = 0x355555554000"

definition ARGO_VM_SIZE :: nat where
  "ARGO_VM_SIZE = 0x200000000000"

definition msg_alloc_fail :: string where
  "msg_alloc_fail = ''ArgoDSM could not allocate mappable memory''"

definition msg_mmap_fail :: string where
  "msg_mmap_fail = ''ArgoDSM failed to map in virtual address space.''"

definition msg_main_mmap_fail :: string where
  "msg_main_mmap_fail = ''ArgoDSM failed to set up virtual memory. Please report a bug.''"

definition msg_insufficient_memory :: string where
  "msg_insufficient_memory = ''ArgoDSM anonymous mappable memory is insufficient.''"

definition msg_mprotect_fail :: string where
  "msg_mprotect_fail = ''ArgoDSM could not mprotect anonymous mapping''"

definition msg_invalid_remap :: string where
  "msg_invalid_remap = ''ArgoDSM encountered an invalid mapping attempt in virtual address space''"

text \<open>The file variables of the three implementations.\<close>

record vm_vars =
  fd :: "vm_object option"
  start_addr :: nat
  avail :: nat
  backing_addr :: nat
  backing_offset :: nat
  file_offset :: nat

definition vm_vars_init :: vm_vars where
  "vm_vars_init = \<lparr>fd = None, start_addr = 0, avail = 0, backing_addr = 0, backing_offset = 0, file_offset = 0\<rparr>"

type_synonym vm_state = "vm_vars \<times> process"

definition or_throw :: "string \<Rightarrow> nat + 'a \<Rightarrow> argo_error + 'a" where
  "or_throw msg r = (case r of Inl errno \<Rightarrow> Inl (System_error msg) | Inr x \<Rightarrow> Inr x)"

text \<open>The result of \<^verbatim>\<open>memfd_create\<close> and \<^verbatim>\<open>shm_open\<close> is stored unchecked.\<close>

definition open_file :: "nat + process \<Rightarrow> vm_state \<Rightarrow> vm_state" where
  "open_file r st = (case r of Inl errno \<Rightarrow> ((fst st)\<lparr>fd := None\<rparr>, snd st)
                              | Inr P \<Rightarrow> ((fst st)\<lparr>fd := Some Memory_file\<rparr>, P))"

definition memfd_init :: "os \<Rightarrow> vm_state \<Rightarrow> argo_error + vm_state" where
  "memfd_init os st =
     (let (v, P) = open_file (os_memfd_create os (snd st)) st in
      bindE (or_throw msg_main_mmap_fail (os_ftruncate os (fd v) ARGO_VM_SIZE P)) (\<lambda>P.
      bindE (or_throw msg_main_mmap_fail (os_mmap_anonymous os ARGO_VM_START ARGO_VM_SIZE PROT_NONE P)) (\<lambda>P.
        Inr (v\<lparr>start_addr := ARGO_VM_START\<rparr>, P))))"

definition memfd_size :: nat where
  "memfd_size = ARGO_VM_SIZE div 2"

definition shm_init :: "os \<Rightarrow> vm_state \<Rightarrow> argo_error + vm_state" where
  "shm_init os st =
     (let av = (if os_shm_avail os (snd st) > ARGO_VM_SIZE then ARGO_VM_SIZE else os_shm_avail os (snd st));
          (v, P) = open_file (os_shm_open os (snd st)) ((fst st)\<lparr>avail := av\<rparr>, snd st) in
      bindE (or_throw msg_main_mmap_fail (os_shm_unlink os P)) (\<lambda>P.
      bindE (or_throw msg_main_mmap_fail (os_ftruncate os (fd v) av P)) (\<lambda>P.
      bindE (or_throw msg_main_mmap_fail (os_mmap_anonymous os ARGO_VM_START av PROT_NONE P)) (\<lambda>P.
        Inr (v\<lparr>start_addr := ARGO_VM_START\<rparr>, P)))))"

text \<open>\<^verbatim>\<open>allocate_mappable\<close> and \<^verbatim>\<open>map_memory\<close> of the two implementations with a file.\<close>

definition file_allocate_mappable :: "os \<Rightarrow> nat \<Rightarrow> nat \<Rightarrow> vm_state \<Rightarrow> argo_error + nat \<times> vm_state" where
  "file_allocate_mappable os al n st =
     bindE (or_throw msg_alloc_fail (posix_memalign os al n (snd st))) (\<lambda>(p, P).
       if p = 0 then Inl (System_error msg_alloc_fail) else Inr (p, fst st, P))"

definition file_map_memory :: "os \<Rightarrow> nat \<Rightarrow> nat \<Rightarrow> nat \<Rightarrow> prot \<Rightarrow> vm_state \<Rightarrow> argo_error + vm_state" where
  "file_map_memory os addr n off p st =
     bindE (or_throw msg_mmap_fail (os_mmap os addr n p (fd (fst st)) off (snd st))) (\<lambda>P. Inr (fst st, P))"

definition anonymous_init :: "os \<Rightarrow> vm_state \<Rightarrow> argo_error + vm_state" where
  "anonymous_init os st =
     bindE (or_throw msg_main_mmap_fail (os_mmap_anonymous os ARGO_VM_START ARGO_VM_SIZE PROT_NONE (snd st))) (\<lambda>P.
       let virtual_addr = ARGO_VM_START + ARGO_VM_SIZE div 2 in
       Inr ((fst st)\<lparr>backing_addr := ARGO_VM_START, backing_offset := 0, file_offset := virtual_addr - ARGO_VM_START\<rparr>, P))"

definition anonymous_size :: nat where
  "anonymous_size = ARGO_VM_SIZE div 4"

definition anonymous_allocate_mappable :: "os \<Rightarrow> nat \<Rightarrow> nat \<Rightarrow> vm_state \<Rightarrow> argo_error + nat \<times> vm_state" where
  "anonymous_allocate_mappable os al n st =
     (let v = fst st; o1 = mul64 (sub64 (add64 (backing_offset v) al) 1 div al) al in
      if o1 > anonymous_size then Inl (System_error msg_insufficient_memory) else
      let r = backing_addr v + o1 in
      bindE (or_throw msg_mprotect_fail (os_mprotect os r n PROT_READ_WRITE (snd st))) (\<lambda>P.
        Inr (r, v\<lparr>backing_offset := add64 o1 n\<rparr>, P)))"

definition anonymous_map_memory :: "os \<Rightarrow> nat \<Rightarrow> nat \<Rightarrow> nat \<Rightarrow> nat \<Rightarrow> prot \<Rightarrow> vm_state \<Rightarrow> argo_error + vm_state" where
  "anonymous_map_memory os page_size addr n off p st =
     bindE (or_throw msg_invalid_remap
       (os_remap_file_pages os addr n (add64 (file_offset (fst st)) off div page_size) (snd st))) (\<lambda>P.
     bindE (or_throw msg_mprotect_fail (os_mprotect os addr n p P)) (\<lambda>P. Inr (fst st, P)))"

section \<open>The interface\<close>

text \<open>
  The operations the backend calls. The last two fields say which bytes \<^verbatim>\<open>map_memory\<close> makes visible: offset
  \<open>i\<close> is byte \<open>op_base + i\<close> of \<open>op_object\<close>, for \<open>i\<close> below \<open>op_capacity\<close>.
\<close>

record vm_ops =
  op_init :: "vm_state \<Rightarrow> argo_error + vm_state"
  op_alloc :: "nat \<Rightarrow> nat \<Rightarrow> vm_state \<Rightarrow> argo_error + nat \<times> vm_state"
  op_map :: "nat \<Rightarrow> nat \<Rightarrow> nat \<Rightarrow> prot \<Rightarrow> vm_state \<Rightarrow> argo_error + vm_state"
  op_start :: "vm_vars \<Rightarrow> nat"
  op_size :: "vm_vars \<Rightarrow> nat"
  op_capacity :: "vm_vars \<Rightarrow> nat"
  op_object :: vm_object
  op_base :: nat

definition memfd_ops :: "os \<Rightarrow> vm_ops" where
  "memfd_ops os = \<lparr>op_init = memfd_init os, op_alloc = file_allocate_mappable os, op_map = file_map_memory os,
     op_start = start_addr, op_size = (\<lambda>_. memfd_size), op_capacity = (\<lambda>_. ARGO_VM_SIZE),
     op_object = Memory_file, op_base = 0\<rparr>"

definition shm_ops :: "os \<Rightarrow> vm_ops" where
  "shm_ops os = \<lparr>op_init = shm_init os, op_alloc = file_allocate_mappable os, op_map = file_map_memory os,
     op_start = start_addr, op_size = avail, op_capacity = avail, op_object = Memory_file, op_base = 0\<rparr>"

definition anonymous_ops :: "os \<Rightarrow> nat \<Rightarrow> vm_ops" where
  "anonymous_ops os page_size = \<lparr>op_init = anonymous_init os, op_alloc = anonymous_allocate_mappable os,
     op_map = anonymous_map_memory os page_size, op_start = (\<lambda>v. backing_addr v + file_offset v),
     op_size = (\<lambda>_. anonymous_size), op_capacity = (\<lambda>_. ARGO_VM_SIZE div 2),
     op_object = Anonymous ARGO_VM_START, op_base = ARGO_VM_SIZE div 2\<rparr>"

definition pairwise_apart :: "(nat \<times> nat) list \<Rightarrow> bool" where
  "pairwise_apart bs \<longleftrightarrow> sorted_wrt (\<lambda>(a, n) (b, m). apart a n b m) bs"

lemma pairwise_apart_Cons [simp]:
  "pairwise_apart ((a, n) # bs) \<longleftrightarrow> (\<forall>(b, m) \<in> set bs. apart a n b m) \<and> pairwise_apart bs"
  by (auto simp: pairwise_apart_def)

lemma pairwise_apart_Nil [simp]: "pairwise_apart []"
  by (simp add: pairwise_apart_def)

lemma sorted_wrt_select:
  assumes "sorted_wrt r (rev xs)" and sym: "\<And>x y. r x y \<Longrightarrow> r y x" and "distinct is" and "set is \<subseteq> {..<length xs}"
  shows "sorted_wrt r (map ((!) xs) is)"
proof -
  have lt: "r (xs ! i) (xs ! j)" if "i < j" "j < length xs" for i j
    using sorted_wrt_nth_less [OF assms(1) [unfolded sorted_wrt_rev] that] by (rule sym)
  have "r (xs ! i) (xs ! j)" if "i < length xs" "j < length xs" "i \<noteq> j" for i j
    using lt [of i j] lt [of j i] sym that by (cases "i < j") auto
  then show ?thesis
    using assms(3,4) unfolding sorted_wrt_iff_nth_less by (simp add: nth_eq_iff_index_eq subset_iff)
qed

lemma pairwise_apart_select:
  assumes "pairwise_apart (rev xs)" and "distinct is" and "set is \<subseteq> {..<length xs}"
  shows "pairwise_apart (map ((!) xs) is)"
  unfolding pairwise_apart_def
  by (rule sorted_wrt_select [OF assms(1) [unfolded pairwise_apart_def] _ assms(2,3)]) auto

text \<open>
  The contract: \<open>inv bs st\<close> says that \<open>bs\<close> are the blocks \<^verbatim>\<open>allocate_mappable\<close> has returned, and is kept by
  the operations and by the changes the process makes to its memory.
\<close>

locale vm_backend =
  fixes V :: vm_ops and pg :: nat and inv :: "(nat \<times> nat) list \<Rightarrow> vm_state \<Rightarrow> bool"
  assumes pg_pos: "0 < pg"
    and init: "op_init V (vm_vars_init, P) = Inr (v, Q) \<Longrightarrow> inv [] (v, Q) \<and> pg dvd op_start V v
      \<and> (\<forall>x. in_range (op_start V v) (op_size V v) x \<longrightarrow> mem_prot Q x = PROT_NONE) \<and> contents Q (op_object V) = (\<lambda>_. 0)"
    and blocks_apart: "inv bs (v, P) \<Longrightarrow> pairwise_apart ((op_start V v, op_size V v) # bs)"
    and capacity: "inv bs (v, P) \<Longrightarrow> op_base V + op_capacity V v \<le> extent P (op_object V)"
    and alloc: "inv bs (v, P) \<Longrightarrow> pg dvd n \<Longrightarrow> n \<le> ARGO_VM_SIZE div 4 \<Longrightarrow> op_alloc V pg n (v, P) = Inr (a, w, Q) \<Longrightarrow>
      pg dvd a \<and> inv ((a, n) # bs) (w, Q) \<and> op_start V w = op_start V v \<and> op_size V w = op_size V v
      \<and> op_capacity V w = op_capacity V v \<and> contents Q = contents P
      \<and> (\<forall>x. \<not> in_range a n x \<longrightarrow> mem_prot Q x = mem_prot P x)"
    and map: "inv bs (v, P) \<Longrightarrow> pg dvd a \<Longrightarrow> pg dvd n \<Longrightarrow> pg dvd off \<Longrightarrow>
      (a, n) \<in> set bs \<or> op_start V v \<le> a \<and> a + n \<le> op_start V v + op_size V v \<Longrightarrow> off + n \<le> op_capacity V v \<Longrightarrow>
      op_map V a n off p (v, P) = Inr (w, Q) \<Longrightarrow>
      w = v \<and> Q = prot_range a n p (map_range a n (op_object V) (op_base V + off) P) \<and> inv bs (w, Q)"
    and map_error: "op_map V a n off p st = Inl e \<Longrightarrow> \<exists>msg. e = System_error msg"
    and protect: "inv bs (v, P) \<Longrightarrow> inv bs (v, prot_range a n p P)"
    and store: "inv bs (v, P) \<Longrightarrow> inv bs (v, P\<lparr>contents := f\<rparr>)"

section \<open>The implementations satisfy the contract\<close>

lemma range_frame [simp]:
  "contents (prot_range a n p P) = contents P" "extent (prot_range a n p P) = extent P"
  "blocks (prot_range a n p P) = blocks P" "mem_map (prot_range a n p P) = mem_map P"
  "contents (map_range a n ob off P) = contents P" "extent (map_range a n ob off P) = extent P"
  "blocks (map_range a n ob off P) = blocks P" "mem_prot (map_range a n ob off P) = mem_prot P"
  "mem_map (add_block a n P) = mem_map P" "mem_prot (add_block a n P) = mem_prot P"
  "contents (add_block a n P) = contents P" "extent (add_block a n P) = extent P"
  "blocks (add_block a n P) = (a, n) # blocks P"
  "mem_map (new_object ob n P) = mem_map P" "mem_prot (new_object ob n P) = mem_prot P"
  "blocks (new_object ob n P) = blocks P"
  by (simp_all add: prot_range_def map_range_def add_block_def new_object_def)

lemma range_in:
  "mem_prot (prot_range a n p P) x = (if in_range a n x then p else mem_prot P x)"
  "mem_map (map_range a n ob off P) x = (if in_range a n x then Some (ob, off + (x - a)) else mem_map P x)"
  by (simp_all add: prot_range_def map_range_def)

lemma or_throw_Inl: "or_throw msg r = Inl e \<Longrightarrow> e = System_error msg"
  by (cases r) (simp_all add: or_throw_def)

lemma map_memory_error:
  "file_map_memory os a n off p st = Inl e \<Longrightarrow> \<exists>msg. e = System_error msg"
  "anonymous_map_memory os page_size a n off p st = Inl e \<Longrightarrow> \<exists>msg. e = System_error msg"
  by (auto simp: file_map_memory_def anonymous_map_memory_def bindE_eq_Inl_conv dest: or_throw_Inl)

lemma or_throw_Inr [simp]: "or_throw msg r = Inr x \<longleftrightarrow> r = Inr x"
  by (cases r) (simp_all add: or_throw_def)

locale vm_posix = posix +
  assumes start_page: "pg dvd ARGO_VM_START" and size_page: "pg dvd ARGO_VM_SIZE div 4"
begin

lemma size_pages: "pg dvd ARGO_VM_SIZE" "pg dvd ARGO_VM_SIZE div 2"
proof -
  have "ARGO_VM_SIZE = 4 * (ARGO_VM_SIZE div 4)" "ARGO_VM_SIZE div 2 = 2 * (ARGO_VM_SIZE div 4)"
    by (simp_all add: ARGO_VM_SIZE_def)
  then show "pg dvd ARGO_VM_SIZE" "pg dvd ARGO_VM_SIZE div 2" using size_page by (metis dvd_mult)+
qed

text \<open>The two implementations with a file; \<open>N\<close> is the size of the reserved range and of the file.\<close>

definition file_inv :: "(vm_vars \<Rightarrow> nat) \<Rightarrow> (nat \<times> nat) list \<Rightarrow> vm_state \<Rightarrow> bool" where
  "file_inv N bs st \<longleftrightarrow> (case st of (v, P) \<Rightarrow> fd v = Some Memory_file \<and> start_addr v = ARGO_VM_START
     \<and> extent P Memory_file = N v \<and> set bs \<union> {(ARGO_VM_START, N v)} \<subseteq> set (blocks P)
     \<and> pairwise_apart ((ARGO_VM_START, N v) # bs))"

lemma file_alloc:
  assumes i: "file_inv N bs (v, P)" and a: "file_allocate_mappable os pg n (v, P) = Inr (a, w, Q)"
  shows "pg dvd a \<and> file_inv N ((a, n) # bs) (w, Q) \<and> w = v \<and> contents Q = contents P
     \<and> (\<forall>x. \<not> in_range a n x \<longrightarrow> mem_prot Q x = mem_prot P x)"
proof -
  have m: "posix_memalign os pg n P = Inr (a, Q)" and w: "w = v"
    using a by (auto simp: file_allocate_mappable_def bindE_eq_Inr_conv split: if_split_asm)
  note l = memalign [OF m]
  have "\<forall>(b, k) \<in> set bs \<union> {(ARGO_VM_START, N v)}. apart a n b k"
    using l i unfolding file_inv_def by blast
  then show ?thesis using l i w by (auto simp: file_inv_def range_in)
qed

lemma file_map:
  assumes i: "file_inv N bs (v, P)" and "pg dvd a" "pg dvd n" "pg dvd off"
    and m: "file_map_memory os a n off p (v, P) = Inr (w, Q)"
  shows "w = v \<and> Q = prot_range a n p (map_range a n Memory_file off P) \<and> file_inv N bs (w, Q)"
proof -
  have "os_mmap os a n p (fd v) off P = Inr Q" and w: "w = v"
    using m by (auto simp: file_map_memory_def bindE_eq_Inr_conv)
  from mmap [OF this(1) assms(2-4)] have "Q = prot_range a n p (map_range a n Memory_file off P)"
    using i by (auto simp: file_inv_def)
  then show ?thesis using w i by (auto simp: file_inv_def)
qed

lemma file_setup:
  assumes "open_file r st = (v, P)" and "\<And>R. r = Inr R \<Longrightarrow> R = new_object Memory_file 0 (snd st)"
    and "os_ftruncate os (fd v) n P = Inr Q" and "os_mmap_anonymous os ARGO_VM_START n PROT_NONE Q = Inr R"
    and "pg dvd n" and "N (v\<lparr>start_addr := ARGO_VM_START\<rparr>) = n"
  shows "file_inv N [] (v\<lparr>start_addr := ARGO_VM_START\<rparr>, R) \<and> contents R Memory_file = (\<lambda>_. 0)
     \<and> (\<forall>x. in_range ARGO_VM_START n x \<longrightarrow> mem_prot R x = PROT_NONE)"
proof -
  obtain ob where ob: "fd v = Some ob" "Q = P\<lparr>extent := (extent P)(ob := n)\<rparr>" using ftruncate [OF assms(3)] by blast
  then obtain P0 where r: "r = Inr P0" using assms(1) by (cases r) (auto simp: open_file_def)
  then have p: "fd v = Some Memory_file" "P = new_object Memory_file 0 (snd st)"
    using assms(1,2) by (auto simp: open_file_def)
  note R = mmap_anonymous [OF assms(4) start_page assms(5)]
  show ?thesis using p ob R assms(6) by (simp add: file_inv_def range_in new_object_def)
qed

lemma memfd_init_inv:
  assumes "memfd_init os (vm_vars_init, P) = Inr (v, Q)"
  shows "file_inv (\<lambda>_. ARGO_VM_SIZE) [] (v, Q) \<and> contents Q Memory_file = (\<lambda>_. 0)
     \<and> (\<forall>x. in_range ARGO_VM_START ARGO_VM_SIZE x \<longrightarrow> mem_prot Q x = PROT_NONE)"
proof -
  obtain v' P' where o: "open_file (os_memfd_create os P) (vm_vars_init, P) = (v', P')" by fastforce
  then obtain R where "os_ftruncate os (fd v') ARGO_VM_SIZE P' = Inr R"
      "os_mmap_anonymous os ARGO_VM_START ARGO_VM_SIZE PROT_NONE R = Inr Q" "v = v'\<lparr>start_addr := ARGO_VM_START\<rparr>"
    using assms by (auto simp: memfd_init_def bindE_eq_Inr_conv)
  then show ?thesis using file_setup [OF o _ _ _ size_pages(1)] memfd_create by simp
qed

lemma shm_init_inv:
  assumes "shm_init os (vm_vars_init, P) = Inr (v, Q)"
  shows "file_inv avail [] (v, Q) \<and> contents Q Memory_file = (\<lambda>_. 0)
     \<and> (\<forall>x. in_range ARGO_VM_START (avail v) x \<longrightarrow> mem_prot Q x = PROT_NONE)"
proof -
  define av where "av = (if os_shm_avail os P > ARGO_VM_SIZE then ARGO_VM_SIZE else os_shm_avail os P)"
  obtain v' P' where o: "open_file (os_shm_open os P) (vm_vars_init\<lparr>avail := av\<rparr>, P) = (v', P')" by fastforce
  then obtain R S where r: "os_shm_unlink os P' = Inr S" "os_ftruncate os (fd v') av S = Inr R"
      "os_mmap_anonymous os ARGO_VM_START av PROT_NONE R = Inr Q" and v: "v = v'\<lparr>start_addr := ARGO_VM_START\<rparr>"
    using assms unfolding shm_init_def fst_conv snd_conv av_def [symmetric] Let_def by (auto simp: bindE_eq_Inr_conv)
  have "avail v = av" using o v by (auto simp: open_file_def split: sum.splits)
  moreover have "pg dvd av" using shm_avail size_pages(1) by (simp add: av_def)
  ultimately show ?thesis
    using file_setup [OF o _ _ r(3), of avail] shm_open shm_unlink [OF r(1)] r(2) v by simp
qed

text \<open>The implementation with one anonymous object.\<close>

definition anonymous_inv :: "(nat \<times> nat) list \<Rightarrow> vm_state \<Rightarrow> bool" where
  "anonymous_inv bs st \<longleftrightarrow> (case st of (v, P) \<Rightarrow> backing_addr v = ARGO_VM_START \<and> file_offset v = ARGO_VM_SIZE div 2
     \<and> backing_offset v \<le> ARGO_VM_SIZE div 2 \<and> extent P (Anonymous ARGO_VM_START) = ARGO_VM_SIZE
     \<and> (\<forall>x. in_range ARGO_VM_START ARGO_VM_SIZE x \<longrightarrow> (\<exists>off. mem_map P x = Some (Anonymous ARGO_VM_START, off)))
     \<and> (\<forall>(a, n) \<in> set bs. ARGO_VM_START \<le> a \<and> a + n \<le> ARGO_VM_START + backing_offset v) \<and> pairwise_apart bs)"

lemma anonymous_init_inv:
  assumes "anonymous_init os (vm_vars_init, P) = Inr (v, Q)"
  shows "anonymous_inv [] (v, Q) \<and> contents Q (Anonymous ARGO_VM_START) = (\<lambda>_. 0)
     \<and> (\<forall>x. in_range ARGO_VM_START ARGO_VM_SIZE x \<longrightarrow> mem_prot Q x = PROT_NONE)"
proof -
  have m: "os_mmap_anonymous os ARGO_VM_START ARGO_VM_SIZE PROT_NONE P = Inr Q"
    and v: "v = vm_vars_init\<lparr>backing_addr := ARGO_VM_START, backing_offset := 0, file_offset := ARGO_VM_SIZE div 2\<rparr>"
    using assms by (auto simp: anonymous_init_def bindE_eq_Inr_conv)
  show ?thesis
    unfolding mmap_anonymous [OF m start_page size_pages(1)] v
    by (simp add: anonymous_inv_def range_in) (simp add: new_object_def)
qed

lemma round_up_offset:
  assumes "x \<le> ARGO_VM_SIZE div 2" and "pg \<le> ARGO_VM_SIZE"
  defines "y \<equiv> mul64 (sub64 (add64 x pg) 1 div pg) pg"
  shows "pg dvd y" and "x \<le> y"
proof -
  have b: "x + pg < 2 ^ 64" "ARGO_VM_SIZE < 2 ^ 46" using assms(1,2) by (simp_all add: ARGO_VM_SIZE_def)
  have s: "sub64 (add64 x pg) 1 = x + pg - 1" using b page_pos by (simp add: add64_id sub64_id)
  have le: "(x + pg - 1) div pg * pg \<le> x + pg - 1" by simp
  then have y: "y = (x + pg - 1) div pg * pg" using b unfolding y_def s by (intro mul64_id) linarith
  show "pg dvd y" by (simp add: y)
  have "x + pg - 1 < (x + pg - 1) div pg * pg + pg" using page_pos dividend_less_div_times [of pg "x + pg - 1"] by (simp add: add.commute)
  then show "x \<le> y" using y by linarith
qed

lemma anonymous_alloc:
  assumes i: "anonymous_inv bs (v, P)" and n: "pg dvd n" "n \<le> ARGO_VM_SIZE div 4"
    and a: "anonymous_allocate_mappable os pg n (v, P) = Inr (a, w, Q)"
  shows "pg dvd a \<and> anonymous_inv ((a, n) # bs) (w, Q) \<and> backing_addr w = backing_addr v \<and> file_offset w = file_offset v
     \<and> contents Q = contents P \<and> (\<forall>x. \<not> in_range a n x \<longrightarrow> mem_prot Q x = mem_prot P x)"
proof -
  define y where "y = mul64 (sub64 (add64 (backing_offset v) pg) 1 div pg) pg"
  have o: "backing_offset v \<le> ARGO_VM_SIZE div 2" and ba: "backing_addr v = ARGO_VM_START" using i by (auto simp: anonymous_inv_def)
  have "pg \<le> ARGO_VM_SIZE" using size_pages(1) by (rule dvd_imp_le) (simp add: ARGO_VM_SIZE_def)
  note y = round_up_offset [OF o this, folded y_def]
  have r: "y \<le> ARGO_VM_SIZE div 4" "a = ARGO_VM_START + y" "os_mprotect os a n PROT_READ_WRITE P = Inr Q"
      "w = v\<lparr>backing_offset := add64 y n\<rparr>"
    using a ba unfolding anonymous_allocate_mappable_def fst_conv snd_conv Let_def y_def [symmetric]
    by (auto simp: bindE_eq_Inr_conv anonymous_size_def split: if_split_asm)
  have w: "add64 y n = y + n" "y + n \<le> ARGO_VM_SIZE div 2" using r(1) n(2) by (simp_all add: add64_id ARGO_VM_SIZE_def)
  have a: "pg dvd a" using r(2) y(1) start_page by simp
  have Q: "Q = prot_range a n PROT_READ_WRITE P" using mprotect [OF r(3) a n(1)] .
  have "ARGO_VM_START \<le> b" "b + m \<le> ARGO_VM_START + backing_offset v" if "(b, m) \<in> set bs" for b m
    using i that unfolding anonymous_inv_def by blast+
  then have bs: "ARGO_VM_START \<le> b" "b + m \<le> ARGO_VM_START + y" if "(b, m) \<in> set bs" for b m
    using that y(2) by (blast, meson add_le_cancel_left le_trans)
  have "\<forall>(b, m) \<in> set bs. apart a n b m" "\<forall>(b, m) \<in> set bs. ARGO_VM_START \<le> b \<and> b + m \<le> ARGO_VM_START + (y + n)"
    using bs by (auto simp: r(2) intro: trans_le_add1 simp flip: add.assoc)
  then have "anonymous_inv ((a, n) # bs) (w, Q)"
    using i w by (simp add: anonymous_inv_def Q r(2,4))
  then show ?thesis using a by (simp add: Q r(4) range_in)
qed

lemma anonymous_map:
  assumes i: "anonymous_inv bs (v, P)" and d: "pg dvd a" "pg dvd n" "pg dvd off"
    and r: "(a, n) \<in> set bs \<or> backing_addr v + file_offset v \<le> a \<and> a + n \<le> backing_addr v + file_offset v + anonymous_size"
    and off: "off + n \<le> ARGO_VM_SIZE div 2" and m: "anonymous_map_memory os pg a n off p (v, P) = Inr (w, Q)"
  shows "w = v \<and> Q = prot_range a n p (map_range a n (Anonymous ARGO_VM_START) (ARGO_VM_SIZE div 2 + off) P)
     \<and> anonymous_inv bs (w, Q)"
proof -
  have f: "file_offset v = ARGO_VM_SIZE div 2" "backing_addr v = ARGO_VM_START" using i by (auto simp: anonymous_inv_def)
  have "in_range ARGO_VM_START ARGO_VM_SIZE x" if "in_range a n x" for x
    using r that i f by (auto simp: anonymous_inv_def anonymous_size_def ARGO_VM_SIZE_def)
  then have mp: "\<exists>o'. mem_map P x = Some (Anonymous ARGO_VM_START, o')" if "in_range a n x" for x
    using i that by (auto simp: anonymous_inv_def)
  define b where "b = ARGO_VM_SIZE div 2"
  have "b \<le> 2 ^ 46" "off \<le> b" using off by (simp_all add: b_def ARGO_VM_SIZE_def)
  then have "add64 b off div pg * pg = b + off"
    using size_pages(2) d(3) by (simp add: add64_id dvd_div_mult_self b_def [symmetric] add_mult_distrib)
  moreover obtain R where "os_remap_file_pages os a n (add64 b off div pg) P = Inr R"
      "os_mprotect os a n p R = Inr Q" "w = v"
    using m by (auto simp: anonymous_map_memory_def bindE_eq_Inr_conv f b_def)
  ultimately have "w = v" "Q = prot_range a n p (map_range a n (Anonymous ARGO_VM_START) (b + off) P)"
    using remap_file_pages [OF _ d(1,2) mp] mprotect [OF _ d(1,2)] by metis+
  then show ?thesis using i by (auto simp: anonymous_inv_def range_in b_def)
qed

end

sublocale vm_posix < memfd: vm_backend "memfd_ops os" pg "file_inv (\<lambda>_. ARGO_VM_SIZE)"
proof
  show "0 < pg" by (rule page_pos)
next
  fix P v Q assume "op_init (memfd_ops os) (vm_vars_init, P) = Inr (v, Q)"
  from memfd_init_inv [OF this [unfolded memfd_ops_def, simplified]]
  show "file_inv (\<lambda>_. ARGO_VM_SIZE) [] (v, Q) \<and> pg dvd op_start (memfd_ops os) v
      \<and> (\<forall>x. in_range (op_start (memfd_ops os) v) (op_size (memfd_ops os) v) x \<longrightarrow> mem_prot Q x = PROT_NONE)
      \<and> contents Q (op_object (memfd_ops os)) = (\<lambda>_. 0)"
    using start_page by (auto simp: memfd_ops_def memfd_size_def file_inv_def)
next
  fix bs v P n a w Q assume "file_inv (\<lambda>_. ARGO_VM_SIZE) bs (v, P)" "op_alloc (memfd_ops os) pg n (v, P) = Inr (a, w, Q)"
  from file_alloc [OF this(1) this(2) [unfolded memfd_ops_def, simplified]]
  show "pg dvd a \<and> file_inv (\<lambda>_. ARGO_VM_SIZE) ((a, n) # bs) (w, Q)
      \<and> op_start (memfd_ops os) w = op_start (memfd_ops os) v \<and> op_size (memfd_ops os) w = op_size (memfd_ops os) v
      \<and> op_capacity (memfd_ops os) w = op_capacity (memfd_ops os) v \<and> contents Q = contents P
      \<and> (\<forall>x. \<not> in_range a n x \<longrightarrow> mem_prot Q x = mem_prot P x)"
    by (auto simp: memfd_ops_def)
next
  fix bs v P a n off p w Q
  assume "file_inv (\<lambda>_. ARGO_VM_SIZE) bs (v, P)" "pg dvd a" "pg dvd n" "pg dvd off" "op_map (memfd_ops os) a n off p (v, P) = Inr (w, Q)"
  from file_map [OF this(1-4) this(5) [unfolded memfd_ops_def, simplified]]
  show "w = v \<and> Q = prot_range a n p (map_range a n (op_object (memfd_ops os)) (op_base (memfd_ops os) + off) P)
      \<and> file_inv (\<lambda>_. ARGO_VM_SIZE) bs (w, Q)"
    by (auto simp: memfd_ops_def)
qed (auto simp: memfd_ops_def file_inv_def memfd_size_def dest: map_memory_error)

sublocale vm_posix < shm: vm_backend "shm_ops os" pg "file_inv avail"
proof
  show "0 < pg" by (rule page_pos)
next
  fix P v Q assume "op_init (shm_ops os) (vm_vars_init, P) = Inr (v, Q)"
  from shm_init_inv [OF this [unfolded shm_ops_def, simplified]]
  show "file_inv avail [] (v, Q) \<and> pg dvd op_start (shm_ops os) v
      \<and> (\<forall>x. in_range (op_start (shm_ops os) v) (op_size (shm_ops os) v) x \<longrightarrow> mem_prot Q x = PROT_NONE)
      \<and> contents Q (op_object (shm_ops os)) = (\<lambda>_. 0)"
    using start_page by (auto simp: shm_ops_def file_inv_def)
next
  fix bs v P n a w Q assume "file_inv avail bs (v, P)" "op_alloc (shm_ops os) pg n (v, P) = Inr (a, w, Q)"
  from file_alloc [OF this(1) this(2) [unfolded shm_ops_def, simplified]]
  show "pg dvd a \<and> file_inv avail ((a, n) # bs) (w, Q)
      \<and> op_start (shm_ops os) w = op_start (shm_ops os) v \<and> op_size (shm_ops os) w = op_size (shm_ops os) v
      \<and> op_capacity (shm_ops os) w = op_capacity (shm_ops os) v \<and> contents Q = contents P
      \<and> (\<forall>x. \<not> in_range a n x \<longrightarrow> mem_prot Q x = mem_prot P x)"
    by (auto simp: shm_ops_def)
next
  fix bs v P a n off p w Q
  assume "file_inv avail bs (v, P)" "pg dvd a" "pg dvd n" "pg dvd off" "op_map (shm_ops os) a n off p (v, P) = Inr (w, Q)"
  from file_map [OF this(1-4) this(5) [unfolded shm_ops_def, simplified]]
  show "w = v \<and> Q = prot_range a n p (map_range a n (op_object (shm_ops os)) (op_base (shm_ops os) + off) P)
      \<and> file_inv avail bs (w, Q)"
    by (auto simp: shm_ops_def)
qed (auto simp: shm_ops_def file_inv_def dest: map_memory_error)

sublocale vm_posix < anonymous: vm_backend "anonymous_ops os pg" pg anonymous_inv
proof
  show "0 < pg" by (rule page_pos)
next
  fix P v Q assume "op_init (anonymous_ops os pg) (vm_vars_init, P) = Inr (v, Q)"
  from anonymous_init_inv [OF this [unfolded anonymous_ops_def, simplified]]
  show "anonymous_inv [] (v, Q) \<and> pg dvd op_start (anonymous_ops os pg) v
      \<and> (\<forall>x. in_range (op_start (anonymous_ops os pg) v) (op_size (anonymous_ops os pg) v) x \<longrightarrow> mem_prot Q x = PROT_NONE)
      \<and> contents Q (op_object (anonymous_ops os pg)) = (\<lambda>_. 0)"
    using start_page size_pages(2) by (auto simp: anonymous_ops_def anonymous_size_def anonymous_inv_def ARGO_VM_SIZE_def)
next
  fix bs v P assume i: "anonymous_inv bs (v, P)"
  have "\<forall>(b, m) \<in> set bs. b + m \<le> ARGO_VM_START + ARGO_VM_SIZE div 2"
    using i by (fastforce simp: anonymous_inv_def)
  then show "pairwise_apart ((op_start (anonymous_ops os pg) v, op_size (anonymous_ops os pg) v) # bs)"
    using i by (auto simp: anonymous_ops_def anonymous_inv_def)
next
  fix bs v P n a w Q
  assume "anonymous_inv bs (v, P)" "pg dvd n" "n \<le> ARGO_VM_SIZE div 4" "op_alloc (anonymous_ops os pg) pg n (v, P) = Inr (a, w, Q)"
  from anonymous_alloc [OF this(1-3) this(4) [unfolded anonymous_ops_def, simplified]]
  show "pg dvd a \<and> anonymous_inv ((a, n) # bs) (w, Q)
      \<and> op_start (anonymous_ops os pg) w = op_start (anonymous_ops os pg) v \<and> op_size (anonymous_ops os pg) w = op_size (anonymous_ops os pg) v
      \<and> op_capacity (anonymous_ops os pg) w = op_capacity (anonymous_ops os pg) v \<and> contents Q = contents P
      \<and> (\<forall>x. \<not> in_range a n x \<longrightarrow> mem_prot Q x = mem_prot P x)"
    by (simp add: anonymous_ops_def)
next
  fix bs v P a n off p w Q
  assume "anonymous_inv bs (v, P)" "pg dvd a" "pg dvd n" "pg dvd off"
    "(a, n) \<in> set bs \<or> op_start (anonymous_ops os pg) v \<le> a \<and> a + n \<le> op_start (anonymous_ops os pg) v + op_size (anonymous_ops os pg) v"
    "off + n \<le> op_capacity (anonymous_ops os pg) v" "op_map (anonymous_ops os pg) a n off p (v, P) = Inr (w, Q)"
  then show "w = v \<and> Q = prot_range a n p (map_range a n (op_object (anonymous_ops os pg)) (op_base (anonymous_ops os pg) + off) P)
      \<and> anonymous_inv bs (w, Q)"
    using anonymous_map [of bs v P a n off p w Q] by (auto simp: anonymous_ops_def)
qed (auto simp: anonymous_ops_def anonymous_inv_def ARGO_VM_SIZE_def dest: map_memory_error)

section \<open>The internal arrays\<close>

text \<open>The sizes of the allocations of \<^verbatim>\<open>argo_initialize\<close>, in bytes and in whole pages.\<close>

definition cacheControlSize :: "swdsm_config \<Rightarrow> nat" where
  "cacheControlSize c = align_forwards (mul64 sizeof_control_data (cachesize c)) (PAGE_SIZE c)"

definition gwritersize :: "swdsm_config \<Rightarrow> nat" where
  "gwritersize c = align_forwards (mul64 (classificationSize c) 8) (PAGE_SIZE c)"

definition owners_dir_size_bytes :: "swdsm_config \<Rightarrow> nat" where
  "owners_dir_size_bytes c = align_forwards (mul64 (mul64 3 (size_of_all c div PAGE_SIZE c)) 8) (PAGE_SIZE c)"

definition offsets_tbl_size_bytes :: "swdsm_config \<Rightarrow> nat" where
  "offsets_tbl_size_bytes c = align_forwards (mul64 (numtasks c) 8) (PAGE_SIZE c)"

fun alloc_all :: "vm_ops \<Rightarrow> nat \<Rightarrow> nat list \<Rightarrow> vm_state \<Rightarrow> argo_error + nat list \<times> vm_state" where
  "alloc_all V pg [] st = Inr ([], st)"
| "alloc_all V pg (n # ns) st =
     bindE (op_alloc V pg n st) (\<lambda>(a, st). bindE (alloc_all V pg ns st) (\<lambda>(as, st). Inr (a # as, st)))"

fun map_all :: "vm_ops \<Rightarrow> nat \<Rightarrow> (nat \<times> nat) list \<Rightarrow> vm_state \<Rightarrow> argo_error + vm_state" where
  "map_all V off [] st = Inr st"
| "map_all V off ((a, n) # ms) st =
     bindE (op_map V a n off PROT_READ_WRITE st) (\<lambda>st. map_all V (add64 off n) ms st)"

text \<open>
  The arrays in the order in which they are allocated (\<^verbatim>\<open>globalData\<close>, \<^verbatim>\<open>cacheData\<close>, \<^verbatim>\<open>cacheControl\<close>, \<^verbatim>\<open>pagecopy\<close>,
  \<^verbatim>\<open>globalSharers\<close> and, with first touch, the directory and the table of offsets), and in the order in
  which they are mapped one after the other into the memory object; \<^verbatim>\<open>pagecopy\<close> stays where it is.
\<close>

definition array_sizes :: "swdsm_config \<Rightarrow> bool \<Rightarrow> nat list" where
  "array_sizes c ft =
     [size_of_chunk c, mul64 (cachesize c) (PAGE_SIZE c), cacheControlSize c, mul64 (cachesize c) (PAGE_SIZE c), gwritersize c]
     @ (if ft then [owners_dir_size_bytes c, offsets_tbl_size_bytes c] else [])"

definition array_maps :: "swdsm_config \<Rightarrow> bool \<Rightarrow> nat list \<Rightarrow> (nat \<times> nat) list" where
  "array_maps c ft as =
     [(as ! 1, mul64 (PAGE_SIZE c) (cachesize c)), (as ! 2, cacheControlSize c), (as ! 0, size_of_chunk c), (as ! 4, gwritersize c)]
     @ (if ft then [(as ! 5, owners_dir_size_bytes c), (as ! 6, offsets_tbl_size_bytes c)] else [])"

definition vm_setup :: "vm_ops \<Rightarrow> swdsm_config \<Rightarrow> bool \<Rightarrow> vm_state \<Rightarrow> argo_error + nat list \<times> vm_state" where
  "vm_setup V c ft st =
     bindE (alloc_all V (PAGE_SIZE c) (array_sizes c ft) st) (\<lambda>(as, st).
     bindE (map_all V 0 (array_maps c ft as) st) (\<lambda>st. Inr (as, st)))"

text \<open>The sizes are within what the implementation can map.\<close>

definition vm_fits :: "vm_ops \<Rightarrow> nat \<Rightarrow> swdsm_config \<Rightarrow> bool \<Rightarrow> vm_vars \<Rightarrow> bool" where
  "vm_fits V pg c ft v \<longleftrightarrow>
     PAGE_SIZE c = pg \<and> CACHELINE c = 1 \<and> pg dvd size_of_all c \<and> size_of_all c \<le> op_size V v
   \<and> (\<forall>n \<in> set (array_sizes c ft). pg dvd n \<and> n \<le> ARGO_VM_SIZE div 4)
   \<and> PAGE_SIZE c * cachesize c < 2 ^ 64 \<and> cacheoffset c = PAGE_SIZE c * cachesize c + cacheControlSize c
   \<and> sum_list (map snd (array_maps c ft [])) \<le> op_capacity V v \<and> op_capacity V v \<le> ARGO_VM_SIZE"

section \<open>A node as the process sees it\<close>

definition vm_rel :: "vm_ops \<Rightarrow> swdsm_config \<Rightarrow> nat \<Rightarrow> nat \<Rightarrow> vm_state \<Rightarrow> node \<Rightarrow> bool" where
  "vm_rel V c globalData cacheData st nd \<longleftrightarrow> (case st of (v, P) \<Rightarrow>
     (\<forall>i < PAGE_SIZE c * cachesize c. mem_map P (cacheData + i) = Some (op_object V, op_base V + i)
        \<and> mem_prot P (cacheData + i) = PROT_READ_WRITE)
   \<and> (\<forall>i < size_of_chunk c. mem_map P (globalData + i) = Some (op_object V, op_base V + (cacheoffset c + i))
        \<and> mem_prot P (globalData + i) = PROT_READ_WRITE)
   \<and> (\<forall>x < size_of_all c. mem_prot P (op_start V v + x) = vprot nd (align_backwards x (PAGE_SIZE c))
        \<and> (case vmap nd (align_backwards x (PAGE_SIZE c)) of
             None \<Rightarrow> vprot nd (align_backwards x (PAGE_SIZE c)) = PROT_NONE
           | Some off \<Rightarrow> off + PAGE_SIZE c \<le> cacheoffset c + size_of_chunk c
               \<and> mem_map P (op_start V v + x) = Some (op_object V, op_base V + (off + x mod PAGE_SIZE c))))
   \<and> (\<forall>i < cacheoffset c + size_of_chunk c. contents P (op_object V) (op_base V + i) = backing nd i))"

text \<open>
  What the runtime and the application do to the memory: \<^verbatim>\<open>map_memory\<close> and \<^verbatim>\<open>mprotect\<close> on pages of the global
  memory, a store of the application, a write to the page cache (an \<^verbatim>\<open>MPI_Get\<close> lands there), and a write to the
  node's share (an \<^verbatim>\<open>MPI_Put\<close> of another node).
\<close>

datatype vm_action =
    Vm_map nat nat nat prot
  | Vm_protect nat nat prot
  | App_store nat byte
  | Cache_write nat byte
  | Home_write nat byte

definition or_fault :: "vm_vars \<Rightarrow> process option \<Rightarrow> argo_error + vm_state" where
  "or_fault v r = (case r of None \<Rightarrow> Inl (Undefined_behaviour ''fault'') | Some P \<Rightarrow> Inr (v, P))"

fun vm_exec :: "vm_ops \<Rightarrow> nat \<Rightarrow> nat \<Rightarrow> vm_action \<Rightarrow> vm_state \<Rightarrow> argo_error + vm_state" where
  "vm_exec V gd cd (Vm_map a n off p) (v, P) = op_map V (op_start V v + a) n off p (v, P)"
| "vm_exec V gd cd (Vm_protect a n p) (v, P) = Inr (v, prot_range (op_start V v + a) n p P)"
| "vm_exec V gd cd (App_store x b) (v, P) = or_fault v (proc_store (op_start V v + x) b P)"
| "vm_exec V gd cd (Cache_write i b) (v, P) = or_fault v (proc_store (cd + i) b P)"
| "vm_exec V gd cd (Home_write i b) (v, P) = or_fault v (proc_store (gd + i) b P)"

text \<open>The same on the model of a node; \<open>None\<close> when the action is not one the program takes.\<close>

fun node_exec :: "swdsm_config \<Rightarrow> vm_action \<Rightarrow> node \<Rightarrow> node option" where
  "node_exec c (Vm_map a n off p) nd =
     (if PAGE_SIZE c dvd a \<and> PAGE_SIZE c dvd n \<and> PAGE_SIZE c dvd off \<and> a + n \<le> size_of_all c
         \<and> off + n \<le> cacheoffset c + size_of_chunk c then Some (map_memory c a n off p nd) else None)"
| "node_exec c (Vm_protect a n p) nd =
     (if PAGE_SIZE c dvd a \<and> PAGE_SIZE c dvd n \<and> a + n \<le> size_of_all c
         \<and> (p = PROT_NONE \<or> (\<forall>q \<in> set (pages_of c a n). vmap nd q \<noteq> None)) then Some (mprotect c a n p nd) else None)"
| "node_exec c (App_store x b) nd =
     (if x < size_of_all c then map_option (\<lambda>s. s 0) (store_byte c 0 x b (\<lambda>_. nd)) else None)"
| "node_exec c (Cache_write i b) nd =
     (if i < PAGE_SIZE c * cachesize c then Some (nd\<lparr>backing := (backing nd)(i := b)\<rparr>) else None)"
| "node_exec c (Home_write i b) nd =
     (if i < size_of_chunk c then Some (set_data_window c ((data_window c nd)(i := b)) nd) else None)"

fun vm_run :: "vm_ops \<Rightarrow> nat \<Rightarrow> nat \<Rightarrow> vm_action list \<Rightarrow> vm_state \<Rightarrow> argo_error + vm_state" where
  "vm_run V gd cd [] st = Inr st"
| "vm_run V gd cd (a # as) st = bindE (vm_exec V gd cd a st) (vm_run V gd cd as)"

fun node_run :: "swdsm_config \<Rightarrow> vm_action list \<Rightarrow> node \<Rightarrow> node option" where
  "node_run c [] nd = Some nd"
| "node_run c (a # as) nd = Option.bind (node_exec c a nd) (node_run c as)"

section \<open>The layout after start-up\<close>

context vm_backend
begin

lemma apart_global:
  assumes "inv bs (v, P)" and "(a, n) \<in> set bs" and "in_range (op_start V v) (op_size V v) x"
  shows "\<not> in_range a n x"
  using blocks_apart [OF assms(1)] assms(2,3) by auto

lemma alloc_all_inv:
  assumes "inv bs (v, P)" and "\<And>n. n \<in> set ns \<Longrightarrow> pg dvd n \<and> n \<le> ARGO_VM_SIZE div 4"
    and "alloc_all V pg ns (v, P) = Inr (as, w, Q)"
  shows "length as = length ns \<and> (\<forall>a \<in> set as. pg dvd a) \<and> inv (rev (zip as ns) @ bs) (w, Q)
     \<and> op_start V w = op_start V v \<and> op_size V w = op_size V v \<and> op_capacity V w = op_capacity V v
     \<and> contents Q = contents P
     \<and> (\<forall>x. in_range (op_start V v) (op_size V v) x \<longrightarrow> mem_prot Q x = mem_prot P x)"
  using assms
proof (induction ns arbitrary: bs v P as)
  case Nil
  then show ?case by simp
next
  case (Cons n ns)
  obtain a v' P' as' where a: "op_alloc V pg n (v, P) = Inr (a, v', P')"
      and r: "alloc_all V pg ns (v', P') = Inr (as', w, Q)" "as = a # as'"
    using Cons.prems(3) by (auto simp: bindE_eq_Inr_conv)
  have "pg dvd n" "n \<le> ARGO_VM_SIZE div 4" using Cons.prems(2) by auto
  note l = alloc [OF Cons.prems(1) this a]
  have i: "inv ((a, n) # bs) (v', P')" using l by blast
  have ih: "length as' = length ns \<and> (\<forall>a \<in> set as'. pg dvd a) \<and> inv (rev (zip as' ns) @ (a, n) # bs) (w, Q)
     \<and> op_start V w = op_start V v' \<and> op_size V w = op_size V v' \<and> op_capacity V w = op_capacity V v'
     \<and> contents Q = contents P'
     \<and> (\<forall>x. in_range (op_start V v') (op_size V v') x \<longrightarrow> mem_prot Q x = mem_prot P' x)"
    by (rule Cons.IH [OF i _ r(1)]) (use Cons.prems(2) in auto)
  have "mem_prot P' x = mem_prot P x" if "in_range (op_start V v) (op_size V v) x" for x
    using apart_global [OF i, of a n x] l that by auto
  then show ?case using ih l r(2) by auto
qed

lemma map_step:
  assumes "inv bs (v, P)" and "(a, n) \<in> set bs" and "pg dvd a" and "pg dvd n" and "pg dvd off" and "off + n \<le> op_capacity V v"
    and "op_map V a n off PROT_READ_WRITE (v, P) = Inr (w, Q)"
  shows "w = v \<and> inv bs (v, Q) \<and> contents Q = contents P
     \<and> (\<forall>x. \<not> in_range a n x \<longrightarrow> mem_map Q x = mem_map P x \<and> mem_prot Q x = mem_prot P x)
     \<and> (\<forall>i < n. mem_map Q (a + i) = Some (op_object V, op_base V + (off + i)) \<and> mem_prot Q (a + i) = PROT_READ_WRITE)"
  using map [OF assms(1,3-5) disjI1 [OF assms(2)] assms(6,7)] by (auto simp: range_in)

lemma map_all_layout:
  assumes "inv bs (v, P)" and "set ms \<subseteq> set bs" and "pairwise_apart ms" and "\<And>a n. (a, n) \<in> set ms \<Longrightarrow> pg dvd a \<and> pg dvd n"
    and "pg dvd off" and "off + sum_list (map snd ms) \<le> op_capacity V v" and "op_capacity V v \<le> ARGO_VM_SIZE"
    and "map_all V off ms (v, P) = Inr (w, Q)"
  shows "w = v \<and> inv bs (v, Q) \<and> contents Q = contents P
     \<and> (\<forall>x. (\<forall>(a, n) \<in> set ms. \<not> in_range a n x) \<longrightarrow> mem_map Q x = mem_map P x \<and> mem_prot Q x = mem_prot P x)
     \<and> (\<forall>k < length ms. \<forall>i < snd (ms ! k). mem_map Q (fst (ms ! k) + i) =
            Some (op_object V, op_base V + (off + sum_list (map snd (take k ms)) + i))
          \<and> mem_prot Q (fst (ms ! k) + i) = PROT_READ_WRITE)"
  using assms
proof (induction ms arbitrary: P off)
  case Nil
  then show ?case by simp
next
  case (Cons m ms)
  obtain a n where m: "m = (a, n)" by (cases m)
  obtain v1 P1 where s1: "op_map V a n off PROT_READ_WRITE (v, P) = Inr (v1, P1)" and s2: "map_all V (add64 off n) ms (v1, P1) = Inr (w, Q)"
    using Cons.prems(8) by (auto simp: m bindE_eq_Inr_conv)
  have d: "(a, n) \<in> set bs" "pg dvd a" "pg dvd n" "off + n \<le> op_capacity V v" using Cons.prems(2,4,6) by (auto simp: m)
  note f = map_step [OF Cons.prems(1) d(1-3) Cons.prems(5) d(4) s1]
  have o: "add64 off n = off + n" using d(4) Cons.prems(7) by (simp add: add64_id ARGO_VM_SIZE_def)
  have ih: "w = v \<and> inv bs (v, Q) \<and> contents Q = contents P1
     \<and> (\<forall>x. (\<forall>(a, n) \<in> set ms. \<not> in_range a n x) \<longrightarrow> mem_map Q x = mem_map P1 x \<and> mem_prot Q x = mem_prot P1 x)
     \<and> (\<forall>k < length ms. \<forall>i < snd (ms ! k). mem_map Q (fst (ms ! k) + i) =
            Some (op_object V, op_base V + (off + n + sum_list (map snd (take k ms)) + i))
          \<and> mem_prot Q (fst (ms ! k) + i) = PROT_READ_WRITE)"
    by (rule Cons.IH) (use Cons.prems d f s2 o in \<open>auto simp: m\<close>)
  have first: "mem_map Q (a + i) = Some (op_object V, op_base V + (off + i)) \<and> mem_prot Q (a + i) = PROT_READ_WRITE" if "i < n" for i
  proof -
    have "\<forall>(b, k) \<in> set ms. \<not> in_range b k (a + i)" using Cons.prems(3) that by (fastforce simp: m)
    then show ?thesis using ih f that by simp
  qed
  have "\<forall>k < length (m # ms). \<forall>i < snd ((m # ms) ! k). mem_map Q (fst ((m # ms) ! k) + i) =
            Some (op_object V, op_base V + (off + sum_list (map snd (take k (m # ms))) + i))
          \<and> mem_prot Q (fst ((m # ms) ! k) + i) = PROT_READ_WRITE"
    using first ih by (auto simp: m less_Suc_eq_0_disj add.assoc)
  moreover have "\<forall>x. (\<forall>(a, n) \<in> set (m # ms). \<not> in_range a n x) \<longrightarrow> mem_map Q x = mem_map P x \<and> mem_prot Q x = mem_prot P x"
    using ih f by (auto simp: m)
  ultimately show ?case using ih f by simp
qed

lemma vm_fits_cong:
  "op_size V w = op_size V v \<Longrightarrow> op_capacity V w = op_capacity V v \<Longrightarrow> vm_fits V pg c ft w = vm_fits V pg c ft v"
  by (simp add: vm_fits_def)

lemma array_maps_blocks:
  assumes "length as = length (array_sizes c ft)" and "pairwise_apart (rev (zip as (array_sizes c ft)))"
  shows "set (array_maps c ft as) \<subseteq> set (zip as (array_sizes c ft))" and "pairwise_apart (array_maps c ft as)"
    and "map snd (array_maps c ft as) = map snd (array_maps c ft [])"
proof -
  let ?z = "zip as (array_sizes c ft)" and ?is = "[1 :: nat, 2, 0, 4] @ (if ft then [5, 6] else [])"
  have k: "distinct ?is" "set ?is \<subseteq> {..<length ?z}" using assms(1) by (auto simp: array_sizes_def)
  have e: "array_maps c ft as = map ((!) ?z) ?is"
    using assms(1) by (auto simp: array_maps_def array_sizes_def mul64_def mult.commute)
  show "pairwise_apart (array_maps c ft as)" unfolding e by (rule pairwise_apart_select [OF assms(2) k])
  show "set (array_maps c ft as) \<subseteq> set ?z" unfolding e set_map using k(2) nth_mem [of _ ?z] by blast
  show "map snd (array_maps c ft as) = map snd (array_maps c ft [])" by (simp add: array_maps_def)
qed

text \<open>The allocations of start-up leave blocks in which the arrays can be mapped.\<close>

lemma setup_alloc:
  assumes init: "op_init V (vm_vars_init, P0) = Inr (v0, P)" and fit: "vm_fits V pg c ft v0"
    and a: "alloc_all V pg (array_sizes c ft) (v0, P) = Inr (as, v, Q)"
  shows "\<exists>bs. inv bs (v, Q) \<and> set (array_maps c ft as) \<subseteq> set bs \<and> pairwise_apart (array_maps c ft as)
     \<and> (\<forall>(x, n) \<in> set (array_maps c ft as). pg dvd x \<and> pg dvd n) \<and> pg dvd op_start V v \<and> vm_fits V pg c ft v
     \<and> contents Q (op_object V) = (\<lambda>_. 0) \<and> (\<forall>x < size_of_all c. mem_prot Q (op_start V v + x) = PROT_NONE)"
proof -
  note i0 = init [THEN vm_backend.init [OF vm_backend_axioms]]
  have ns: "\<And>n. n \<in> set (array_sizes c ft) \<Longrightarrow> pg dvd n \<and> n \<le> ARGO_VM_SIZE div 4" and sz: "size_of_all c \<le> op_size V v0"
    using fit by (auto simp: vm_fits_def)
  let ?bs = "rev (zip as (array_sizes c ft)) @ []"
  have al: "length as = length (array_sizes c ft) \<and> (\<forall>a \<in> set as. pg dvd a) \<and> inv ?bs (v, Q)
     \<and> op_start V v = op_start V v0 \<and> op_size V v = op_size V v0 \<and> op_capacity V v = op_capacity V v0
     \<and> contents Q = contents P
     \<and> (\<forall>x. in_range (op_start V v0) (op_size V v0) x \<longrightarrow> mem_prot Q x = mem_prot P x)"
    by (rule alloc_all_inv [OF _ ns a]) (use i0 in simp)
  then have i1: "inv ?bs (v, Q)" and len: "length as = length (array_sizes c ft)" by blast+
  have "pairwise_apart (rev (zip as (array_sizes c ft)))" using blocks_apart [OF i1] by simp
  note am = array_maps_blocks [OF len this]
  have dv: "pg dvd x \<and> pg dvd n" if "(x, n) \<in> set (array_maps c ft as)" for x n
  proof -
    have "(x, n) \<in> set (zip as (array_sizes c ft))" using am(1) that by blast
    then have "x \<in> set as" "n \<in> set (array_sizes c ft)" by (rule set_zip_leftD, rule set_zip_rightD)
    then show ?thesis using al ns by blast
  qed
  have "\<forall>x < size_of_all c. mem_prot Q (op_start V v + x) = PROT_NONE" using al i0 sz by simp
  moreover have "vm_fits V pg c ft v" using fit al vm_fits_cong by metis
  moreover have "set (array_maps c ft as) \<subseteq> set ?bs" using am(1) by auto
  ultimately show ?thesis using i1 am(2) dv al i0 by (intro exI [of _ ?bs]) auto
qed

text \<open>The state after start-up is the initial state of a node.\<close>

lemma setup_rel:
  assumes init: "op_init V (vm_vars_init, P0) = Inr (v0, P)" and fit: "vm_fits V pg c ft v0"
    and su: "vm_setup V c ft (v0, P) = Inr (as, v, Q)"
  shows "\<exists>bs. inv bs (v, Q) \<and> (as ! 0, size_of_chunk c) \<in> set bs \<and> (as ! 1, PAGE_SIZE c * cachesize c) \<in> set bs
     \<and> pg dvd op_start V v \<and> vm_fits V pg c ft v \<and> vm_rel V c (as ! 0) (as ! 1) (v, Q) (init_node c touched copy)"
proof -
  let ?ms = "array_maps c ft as"
  obtain v1 P1 where a: "alloc_all V pg (array_sizes c ft) (v0, P) = Inr (as, v1, P1)" and m: "map_all V 0 ?ms (v1, P1) = Inr (v, Q)"
    using su fit by (auto simp: vm_setup_def vm_fits_def bindE_eq_Inr_conv)
  obtain bs where i1: "inv bs (v1, P1)" and sub: "set ?ms \<subseteq> set bs" and ap: "pairwise_apart ?ms"
      and dv: "\<And>x n. (x, n) \<in> set ?ms \<Longrightarrow> pg dvd x \<and> pg dvd n" and st: "pg dvd op_start V v1" and fit1: "vm_fits V pg c ft v1"
      and z: "contents P1 (op_object V) = (\<lambda>_. 0)" and pn: "\<And>x. x < size_of_all c \<Longrightarrow> mem_prot P1 (op_start V v1 + x) = PROT_NONE"
    using setup_alloc [OF init fit a] by blast
  have cap: "sum_list (map snd ?ms) \<le> op_capacity V v1" "op_capacity V v1 \<le> ARGO_VM_SIZE" and sz: "size_of_all c \<le> op_size V v1"
    and k: "?ms ! 0 = (as ! 1, PAGE_SIZE c * cachesize c)" "?ms ! 2 = (as ! 0, size_of_chunk c)" "2 < length ?ms" "?ms \<noteq> []"
      "sum_list (map snd (take 2 ?ms)) = cacheoffset c"
    using fit1 by (auto simp: vm_fits_def array_maps_def mul64_id numeral_2_eq_2)
  note ml = map_all_layout [OF i1 sub ap dv dvd_0_right, simplified, OF cap m]
  then have lay: "mem_map Q (fst (?ms ! k) + i) = Some (op_object V, op_base V + (sum_list (map snd (take k ?ms)) + i))
          \<and> mem_prot Q (fst (?ms ! k) + i) = PROT_READ_WRITE" if "k < length ?ms" "i < snd (?ms ! k)" for k i using that by simp
  have "mem_prot Q (op_start V v1 + x) = PROT_NONE" if x: "x < size_of_all c" for x
  proof -
    have g: "in_range (op_start V v1) (op_size V v1) (op_start V v1 + x)" using x sz by simp
    have "\<not> in_range b n (op_start V v1 + x)" if "(b, n) \<in> set ?ms" for b n
      by (rule apart_global [OF i1 _ g]) (use that sub in auto)
    then have "mem_prot Q (op_start V v1 + x) = mem_prot P1 (op_start V v1 + x)" using ml by blast
    then show ?thesis using pn x by simp
  qed
  then have "vm_rel V c (as ! 0) (as ! 1) (v, Q) (init_node c touched copy)"
    using lay [of 0] lay [of 2] k ml z by (simp add: vm_rel_def init_node_def)
  moreover have "(as ! 0, size_of_chunk c) \<in> set bs \<and> (as ! 1, PAGE_SIZE c * cachesize c) \<in> set bs"
    using nth_mem [of 0 ?ms] nth_mem [OF k(3)] k sub by (auto simp del: nth_mem)
  ultimately show ?thesis using ml st fit1 by metis
qed

end

section \<open>The simulation\<close>

lemma pages_of_range:
  assumes "0 < PAGE_SIZE c" and "PAGE_SIZE c dvd a" and "PAGE_SIZE c dvd n"
  shows "align_backwards x (PAGE_SIZE c) \<in> set (pages_of c a n) \<longleftrightarrow> in_range a n x"
proof -
  let ?g = "PAGE_SIZE c"
  obtain u m where a: "a = u * ?g" and n: "n = m * ?g" using assms(2,3) by (metis dvd_def mult.commute)
  have "m * ?g + ?g - 1 = ?g - 1 + m * ?g" using assms(1) by simp
  also have "\<dots> div ?g = m + (?g - 1) div ?g" using assms(1) by (intro div_mult_self1) simp
  finally have "(m * ?g + ?g - 1) div ?g = m" using assms(1) by simp
  then have s: "set (pages_of c a n) = (\<lambda>k. (u + k) * ?g) ` {..<m}"
    by (auto simp: pages_of_def c_range_def a n add_mult_distrib)
  have "align_backwards x ?g \<in> set (pages_of c a n) \<longleftrightarrow> u \<le> x div ?g \<and> x div ?g < u + m"
    unfolding s align_backwards_def using assms(1)
    by (auto intro!: image_eqI [where x = "x div ?g - u"])
  also have "\<dots> \<longleftrightarrow> in_range a n x"
    using assms(1) by (simp add: a n less_eq_div_iff_mult_less_eq div_less_iff_less_mult add_mult_distrib)
  finally show ?thesis .
qed

lemma page_inside:
  fixes g :: nat
  assumes "0 < g" and "g dvd a" and "g dvd n" and "in_range a n x"
  shows "a \<le> align_backwards x g \<and> align_backwards x g + g \<le> a + n"
proof -
  obtain u m where u: "a = u * g" "n = m * g" using assms(2,3) by (metis dvd_def mult.commute)
  have "u \<le> x div g" "x div g < u + m"
    using assms(1,4) by (simp_all add: u less_eq_div_iff_mult_less_eq div_less_iff_less_mult add_mult_distrib)
  then have "u * g \<le> x div g * g" "(x div g + 1) * g \<le> (u + m) * g" by (simp_all del: mult_Suc)
  then show ?thesis by (simp add: u align_backwards_def add_mult_distrib)
qed

lemma align_backwards_split: "x = align_backwards x g + x mod g" for g :: nat
  by (simp add: align_backwards_def)

lemma fits_area: "vm_fits V pg c ft v \<Longrightarrow> cacheoffset c + size_of_chunk c \<le> op_capacity V v \<and> PAGE_SIZE c * cachesize c \<le> cacheoffset c"
  by (auto simp: vm_fits_def array_maps_def mul64_id)

lemma proc_store_Some:
  assumes "mem_map P x = Some (ob, off)" and "mem_prot P x = PROT_READ_WRITE" and "off < extent P ob"
  shows "proc_store x b P = Some (P\<lparr>contents := (contents P)(ob := (contents P ob)(off := b))\<rparr>)"
  using assms by (simp add: proc_store_def access_def)

lemma vm_relD:
  assumes "vm_rel V c gd cd (v, P) nd"
  shows "i < PAGE_SIZE c * cachesize c \<Longrightarrow> mem_map P (cd + i) = Some (op_object V, op_base V + i) \<and> mem_prot P (cd + i) = PROT_READ_WRITE"
    and "i < size_of_chunk c \<Longrightarrow> mem_map P (gd + i) = Some (op_object V, op_base V + (cacheoffset c + i)) \<and> mem_prot P (gd + i) = PROT_READ_WRITE"
    and "x < size_of_all c \<Longrightarrow> mem_prot P (op_start V v + x) = vprot nd (align_backwards x (PAGE_SIZE c))"
    and "x < size_of_all c \<Longrightarrow> vmap nd (align_backwards x (PAGE_SIZE c)) = None \<Longrightarrow> vprot nd (align_backwards x (PAGE_SIZE c)) = PROT_NONE"
    and "x < size_of_all c \<Longrightarrow> vmap nd (align_backwards x (PAGE_SIZE c)) = Some off \<Longrightarrow>
      off + PAGE_SIZE c \<le> cacheoffset c + size_of_chunk c
      \<and> mem_map P (op_start V v + x) = Some (op_object V, op_base V + (off + x mod PAGE_SIZE c))"
    and "i < cacheoffset c + size_of_chunk c \<Longrightarrow> contents P (op_object V) (op_base V + i) = backing nd i"
  using assms by (auto simp: vm_rel_def split: option.splits)

text \<open>A write to one byte of the memory object, by whatever address, is a write to the backing memory.\<close>

lemma vm_rel_write:
  assumes "vm_rel V c gd cd (v, P) nd"
  shows "vm_rel V c gd cd (v, P\<lparr>contents := (contents P)(op_object V := (contents P (op_object V))(op_base V + i := b))\<rparr>)
     (nd\<lparr>backing := (backing nd)(i := b)\<rparr>)"
  using assms unfolding vm_rel_def prod.case by (simp cong: option.case_cong)

context vm_backend
begin

lemma extent_less:
  assumes "inv bs (v, P)" and "vm_fits V pg c ft v" and "i < cacheoffset c + size_of_chunk c"
  shows "op_base V + i < extent P (op_object V)"
  using capacity [OF assms(1)] fits_area [OF assms(2)] assms(3) by linarith

lemma global_out:
  assumes "inv bs (v, P)" and "vm_fits V pg c ft v" and "(b, k) \<in> set bs" and "j < k" and "a + n \<le> size_of_all c"
  shows "\<not> in_range (op_start V v + a) n (b + j)"
proof
  assume "in_range (op_start V v + a) n (b + j)"
  then have "in_range (op_start V v) (op_size V v) (b + j)" using assms(2,5) by (simp add: vm_fits_def)
  from apart_global [OF assms(1,3) this] show False using assms(4) by simp
qed

lemma rel_map:
  assumes i: "inv bs (v, P)" and fit: "vm_fits V pg c ft v" and st: "pg dvd op_start V v"
    and bs: "(gd, size_of_chunk c) \<in> set bs" "(cd, PAGE_SIZE c * cachesize c) \<in> set bs"
    and r: "vm_rel V c gd cd (v, P) nd" and a: "node_exec c (Vm_map a n off p) nd = Some nd'"
    and m: "op_map V (op_start V v + a) n off p (v, P) = Inr (w, Q)"
  shows "w = v \<and> inv bs (v, Q) \<and> vm_rel V c gd cd (v, Q) nd'"
proof -
  have g: "PAGE_SIZE c = pg" "size_of_all c \<le> op_size V v" using fit by (auto simp: vm_fits_def)
  have d: "pg dvd a" "pg dvd n" "pg dvd off" "a + n \<le> size_of_all c" "off + n \<le> cacheoffset c + size_of_chunk c"
    and nd': "nd' = map_memory c a n off p nd" using a g(1) by (auto split: if_split_asm)
  have "w = v \<and> Q = prot_range (op_start V v + a) n p (map_range (op_start V v + a) n (op_object V) (op_base V + off) P) \<and> inv bs (w, Q)"
    by (rule map [OF i _ d(2,3) _ _ m]) (use st d g fits_area [OF fit] in auto)
  then have w: "w = v" "inv bs (v, Q)"
    and Q: "Q = prot_range (op_start V v + a) n p (map_range (op_start V v + a) n (op_object V) (op_base V + off) P)" by auto
  note out = global_out [OF i fit _ _ d(4)]
  have pg: "align_backwards x pg \<in> set (pages_of c a n) \<longleftrightarrow> in_range a n x" for x
    using pages_of_range [of c a n x] d pg_pos g(1) by simp
  have "off + (align_backwards x pg - a) + pg \<le> cacheoffset c + size_of_chunk c
      \<and> off + (align_backwards x pg - a) + x mod pg = off + (x - a)" if "in_range a n x" for x
  proof -
    have "a \<le> align_backwards x pg \<and> align_backwards x pg + pg \<le> a + n" by (rule page_inside [OF pg_pos d(1,2) that])
    then show ?thesis using d(5) align_backwards_split [of x pg] by linarith
  qed
  then have glob: "mem_prot Q (op_start V v + x) = vprot nd' (align_backwards x pg)
        \<and> (case vmap nd' (align_backwards x pg) of None \<Rightarrow> vprot nd' (align_backwards x pg) = PROT_NONE
           | Some o' \<Rightarrow> o' + pg \<le> cacheoffset c + size_of_chunk c
               \<and> mem_map Q (op_start V v + x) = Some (op_object V, op_base V + (o' + x mod pg)))" if "x < size_of_all c" for x
    using vm_relD(3-5) [OF r that] pg [of x]
    by (auto simp: nd' map_memory_def mprotect_def Q range_in g(1) split: option.splits)
  have "vm_rel V c gd cd (v, Q) nd'"
    unfolding vm_rel_def prod.case g(1)
    using vm_relD(1,2,6) [OF r] out [OF bs(1)] out [OF bs(2)] glob g(1)
    by (auto simp: Q range_in nd')
  then show ?thesis using w by simp
qed

lemma rel_protect:
  assumes i: "inv bs (v, P)" and fit: "vm_fits V pg c ft v"
    and bs: "(gd, size_of_chunk c) \<in> set bs" "(cd, PAGE_SIZE c * cachesize c) \<in> set bs"
    and r: "vm_rel V c gd cd (v, P) nd" and a: "node_exec c (Vm_protect a n p) nd = Some nd'"
  shows "vm_rel V c gd cd (v, prot_range (op_start V v + a) n p P) nd'"
proof -
  have g: "PAGE_SIZE c = pg" "size_of_all c \<le> op_size V v" using fit by (auto simp: vm_fits_def)
  have d: "pg dvd a" "pg dvd n" "a + n \<le> size_of_all c" "p = PROT_NONE \<or> (\<forall>q \<in> set (pages_of c a n). vmap nd q \<noteq> None)"
    and nd': "nd' = mprotect c a n p nd" using a g(1) by (auto split: if_split_asm)
  note out = global_out [OF i fit _ _ d(3)]
  have pg: "align_backwards x pg \<in> set (pages_of c a n) \<longleftrightarrow> in_range a n x" for x
    using pages_of_range [of c a n x] d pg_pos g(1) by simp
  have glob: "mem_prot (prot_range (op_start V v + a) n p P) (op_start V v + x) = vprot nd' (align_backwards x pg)
        \<and> (case vmap nd' (align_backwards x pg) of None \<Rightarrow> vprot nd' (align_backwards x pg) = PROT_NONE
           | Some o' \<Rightarrow> o' + pg \<le> cacheoffset c + size_of_chunk c
               \<and> mem_map (prot_range (op_start V v + a) n p P) (op_start V v + x)
                 = Some (op_object V, op_base V + (o' + x mod pg)))" if "x < size_of_all c" for x
    using vm_relD(3-5) [OF r that] pg [of x] d(4)
    by (auto simp: nd' mprotect_def range_in g(1) split: option.splits)
  show ?thesis
    unfolding vm_rel_def prod.case g(1)
  proof (intro conjI allI impI)
    fix x assume "x < size_of_all c"
    from glob [OF this] show "mem_prot (prot_range (op_start V v + a) n p P) (op_start V v + x) = vprot nd' (align_backwards x pg)"
      "case vmap nd' (align_backwards x pg) of None \<Rightarrow> vprot nd' (align_backwards x pg) = PROT_NONE
           | Some o' \<Rightarrow> o' + pg \<le> cacheoffset c + size_of_chunk c
               \<and> mem_map (prot_range (op_start V v + a) n p P) (op_start V v + x) = Some (op_object V, op_base V + (o' + x mod pg))"
      by blast+
  qed (use vm_relD(1,2,6) [OF r] out [OF bs(1)] out [OF bs(2)] g(1) in \<open>auto simp: range_in nd' mprotect_def\<close>)
qed

lemma rel_store:
  assumes i: "inv bs (v, P)" and fit: "vm_fits V pg c ft v" and r: "vm_rel V c gd cd (v, P) nd"
    and m: "mem_map P x = Some (op_object V, op_base V + j)" "mem_prot P x = PROT_READ_WRITE" "j < cacheoffset c + size_of_chunk c"
    and nd': "nd' = nd\<lparr>backing := (backing nd)(j := b)\<rparr>"
  shows "\<exists>Q. or_fault v (proc_store x b P) = Inr (v, Q) \<and> inv bs (v, Q) \<and> vm_rel V c gd cd (v, Q) nd'"
  using proc_store_Some [OF m(1,2) extent_less [OF i fit m(3)]] store [OF i] vm_rel_write [OF r] nd'
  by (simp add: or_fault_def)

lemma rel_app_store:
  assumes i: "inv bs (v, P)" and fit: "vm_fits V pg c ft v" and r: "vm_rel V c gd cd (v, P) nd"
    and a: "node_exec c (App_store x b) nd = Some nd'"
  shows "\<exists>Q. or_fault v (proc_store (op_start V v + x) b P) = Inr (v, Q) \<and> inv bs (v, Q) \<and> vm_rel V c gd cd (v, Q) nd'"
proof -
  have g: "PAGE_SIZE c = pg" "CACHELINE c = 1" using fit by (auto simp: vm_fits_def)
  from a g obtain off where x: "x < size_of_all c" and off: "vmap nd (align_backwards x pg) = Some off"
      and p: "vprot nd (align_backwards x pg) = PROT_READ_WRITE" and nd': "nd' = nd\<lparr>backing := (backing nd)(off + x mod pg := b)\<rparr>"
    by (auto simp: store_byte_def upd_def split: if_split_asm option.splits)
  note m = vm_relD(5) [OF r x, unfolded g(1), OF off]
  have "off + x mod pg < cacheoffset c + size_of_chunk c" using m pg_pos mod_less_divisor [of pg x] by linarith
  then show ?thesis using rel_store [OF i fit r _ _ _ nd'] m vm_relD(3) [OF r x] p g(1) by simp
qed

lemma rel_home_write:
  assumes i: "inv bs (v, P)" and fit: "vm_fits V pg c ft v" and r: "vm_rel V c gd cd (v, P) nd"
    and a: "node_exec c (Home_write j b) nd = Some nd'"
  shows "\<exists>Q. or_fault v (proc_store (gd + j) b P) = Inr (v, Q) \<and> inv bs (v, Q) \<and> vm_rel V c gd cd (v, Q) nd'"
proof -
  have j: "j < size_of_chunk c" and nd': "nd' = set_data_window c ((data_window c nd)(j := b)) nd"
    using a by (auto split: if_split_asm)
  have "nd' = nd\<lparr>backing := (backing nd)(cacheoffset c + j := b)\<rparr>"
    by (cases nd) (auto simp: nd' set_data_window_def data_window_def fun_eq_iff)
  then show ?thesis using rel_store [OF i fit r] vm_relD(2) [OF r j] j by simp
qed

lemma rel_exec:
  assumes i: "inv bs (v, P)" and fit: "vm_fits V pg c ft v" and st: "pg dvd op_start V v"
    and bs: "(gd, size_of_chunk c) \<in> set bs" "(cd, PAGE_SIZE c * cachesize c) \<in> set bs"
    and r: "vm_rel V c gd cd (v, P) nd" and a: "node_exec c act nd = Some nd'"
  shows "case vm_exec V gd cd act (v, P) of Inl e \<Rightarrow> \<exists>msg. e = System_error msg
     | Inr (w, Q) \<Rightarrow> w = v \<and> inv bs (v, Q) \<and> vm_rel V c gd cd (v, Q) nd'"
proof (cases act)
  case (Vm_map x n off p)
  show ?thesis
  proof (cases "vm_exec V gd cd act (v, P)")
    case (Inl e)
    then show ?thesis using map_error Vm_map by simp
  next
    case (Inr wQ)
    then show ?thesis using rel_map [OF i fit st bs r] a Vm_map by (cases wQ) simp
  qed
next
  case (Vm_protect x n p)
  then show ?thesis using rel_protect [OF i fit bs r] a protect [OF i] by simp
next
  case (App_store x b)
  then show ?thesis using rel_app_store [OF i fit r] a by fastforce
next
  case (Cache_write j b)
  then have j: "j < PAGE_SIZE c * cachesize c" and nd': "nd' = nd\<lparr>backing := (backing nd)(j := b)\<rparr>"
    using a by (auto split: if_split_asm)
  then show ?thesis using rel_store [OF i fit r _ _ _ nd'] vm_relD(1) [OF r j] fits_area [OF fit] Cache_write by fastforce
next
  case (Home_write j b)
  then show ?thesis using rel_home_write [OF i fit r] a by fastforce
qed

lemma rel_run:
  assumes "inv bs (v, P)" and "vm_fits V pg c ft v" and "pg dvd op_start V v"
    and "(gd, size_of_chunk c) \<in> set bs" "(cd, PAGE_SIZE c * cachesize c) \<in> set bs"
    and "vm_rel V c gd cd (v, P) nd" and "node_run c acts nd = Some nd'"
  shows "case vm_run V gd cd acts (v, P) of Inl e \<Rightarrow> \<exists>msg. e = System_error msg
     | Inr (w, Q) \<Rightarrow> w = v \<and> inv bs (v, Q) \<and> vm_rel V c gd cd (v, Q) nd'"
  using assms
proof (induction acts arbitrary: P nd)
  case Nil
  then show ?case by simp
next
  case (Cons act acts)
  from Cons.prems(7) obtain nd1 where n: "node_exec c act nd = Some nd1" "node_run c acts nd1 = Some nd'"
    by (auto simp: bind_eq_Some_conv)
  note e = rel_exec [OF Cons.prems(1-6) n(1)]
  show ?case
  proof (cases "vm_exec V gd cd act (v, P)")
    case (Inl x)
    then show ?thesis using e by simp
  next
    case (Inr wQ)
    then show ?thesis using e Cons.IH [OF _ Cons.prems(2-5) _ n(2), of "snd wQ"] by (cases wQ) simp
  qed
qed

text \<open>What is related reads the same.\<close>

lemma rel_load:
  assumes i: "inv bs (v, P)" and fit: "vm_fits V pg c ft v" and r: "vm_rel V c gd cd (v, P) nd"
  shows "x < size_of_all c \<Longrightarrow> proc_load P (op_start V v + x) = load_byte c n x (\<lambda>_. nd)"
    and "j < PAGE_SIZE c * cachesize c \<Longrightarrow> proc_load P (cd + j) = Some (backing nd j)"
    and "j < size_of_chunk c \<Longrightarrow> proc_load P (gd + j) = Some (data_window c nd j)"
proof -
  have g: "PAGE_SIZE c = pg" "CACHELINE c = 1" using fit by (auto simp: vm_fits_def)
  note ex = extent_less [OF i fit]
  show "proc_load P (op_start V v + x) = load_byte c n x (\<lambda>_. nd)" if x: "x < size_of_all c"
  proof (cases "vmap nd (align_backwards x pg)")
    case None
    then show ?thesis using vm_relD(3,4) [OF r x] g by (simp add: proc_load_def load_byte_def)
  next
    case (Some off)
    note m = vm_relD(5) [OF r x, unfolded g(1), OF Some]
    have "off + x mod pg < cacheoffset c + size_of_chunk c" using m pg_pos mod_less_divisor [of pg x] by linarith
    then show ?thesis
      using m vm_relD(3,6) [OF r] x ex g Some by (simp add: proc_load_def load_byte_def access_def vm_read_def)
  qed
  show "proc_load P (cd + j) = Some (backing nd j)" if "j < PAGE_SIZE c * cachesize c"
    using vm_relD(1,6) [OF r, of j] ex [of j] fits_area [OF fit] that by (simp add: proc_load_def access_def)
  show "proc_load P (gd + j) = Some (data_window c nd j)" if "j < size_of_chunk c"
    using vm_relD(2) [OF r that] vm_relD(6) [OF r, of "cacheoffset c + j"] ex [of "cacheoffset c + j"] that
    by (simp add: proc_load_def access_def data_window_def)
qed

end

section \<open>Property\<close>

text \<open>An operating system that has no failures of its own.\<close>

definition os_seq :: "nat \<Rightarrow> os" where
  "os_seq pg = \<lparr>
     os_memfd_create = (\<lambda>P. Inr (new_object Memory_file 0 P)),
     os_shm_open = (\<lambda>P. Inr (new_object Memory_file 0 P)),
     os_shm_unlink = Inr,
     os_shm_avail = (\<lambda>P. pg * 2 ^ 20),
     os_ftruncate = (\<lambda>fd n P. case fd of None \<Rightarrow> Inl 9 | Some ob \<Rightarrow> Inr (P\<lparr>extent := (extent P)(ob := n)\<rparr>)),
     os_mmap_anonymous = (\<lambda>a n p P.
       Inr (prot_range a n p (map_range a n (Anonymous a) 0 (add_block a n (new_object (Anonymous a) n P))))),
     os_mmap = (\<lambda>a n p fd off P. case fd of None \<Rightarrow> Inl 9 | Some ob \<Rightarrow> Inr (prot_range a n p (map_range a n ob off P))),
     os_mprotect = (\<lambda>a n p P. Inr (prot_range a n p P)),
     os_remap_file_pages = (\<lambda>a n k P. case mem_map P a of None \<Rightarrow> Inl 22 | Some (ob, _) \<Rightarrow> Inr (map_range a n ob (k * pg) P)),
     posix_memalign = (\<lambda>al n P. if al = 0 then Inl 22 else
       let a = al * Suc (sum_list (map (\<lambda>(b, m). b + m) (blocks P)))
       in Inr (a, prot_range a n PROT_READ_WRITE (map_range a n Heap a (add_block a n P))))\<rparr>"

lemma map_range_0 [simp]: "map_range a 0 ob off P = P"
  by (simp add: map_range_def) (intro process.equality ext; auto)

lemma above_blocks:
  assumes "(b, m) \<in> set bs" and "0 < al"
  shows "b + m \<le> al * Suc (sum_list (map (\<lambda>(b, m). b + m) bs))"
proof -
  have "b + m \<le> sum_list (map (\<lambda>(b, m). b + m) bs)" using assms(1) by (intro member_le_sum_list) (force, simp)
  also have "\<dots> \<le> al * Suc (sum_list (map (\<lambda>(b, m). b + m) bs))" using assms(2) by (cases al) simp_all
  finally show ?thesis .
qed

interpretation os_seq: vm_posix "os_seq 4096" 4096
proof
  fix a n k P Q ob
  assume q: "os_remap_file_pages (os_seq 4096) a n k P = Inr Q" and d: "4096 dvd a" "4096 dvd n"
    and m: "\<And>x. in_range a n x \<Longrightarrow> \<exists>off. mem_map P x = Some (ob, off)"
  from q obtain ob' o' where o: "mem_map P a = Some (ob', o')" "Q = map_range a n ob' (k * 4096) P"
    by (auto simp: os_seq_def split: option.splits)
  show "Q = map_range a n ob (k * 4096) P"
  proof (cases "n = 0")
    case False
    then show ?thesis using m [of a] o by auto
  qed (simp add: o)
next
  fix al n P a Q assume q: "posix_memalign (os_seq 4096) al n P = Inr (a, Q)"
  then have al: "0 < al" and a: "a = al * Suc (sum_list (map (\<lambda>(b, m). b + m) (blocks P)))"
    and Q: "Q = prot_range a n PROT_READ_WRITE (map_range a n Heap a (add_block a n P))"
    by (auto simp: os_seq_def Let_def split: if_split_asm)
  have "\<forall>(b, m) \<in> set (blocks P). apart a n b m" using above_blocks [OF _ al] a by (fastforce simp del: mult_Suc_right)
  moreover have "a \<noteq> 0" "al dvd a" using al a by simp_all
  ultimately show "a \<noteq> 0 \<and> al dvd a \<and> (\<forall>(b, m) \<in> set (blocks P). apart a n b m)
      \<and> Q = prot_range a n PROT_READ_WRITE (map_range a n Heap a (add_block a n P))" using Q by simp
qed (auto simp: os_seq_def ARGO_VM_START_def ARGO_VM_SIZE_def split: option.splits)

context vm_posix
begin

lemma all_backends:
  assumes "V \<in> {memfd_ops os, shm_ops os, anonymous_ops os pg}"
  shows "\<exists>inv. vm_backend V pg inv"
  using assms memfd.vm_backend_axioms shm.vm_backend_axioms anonymous.vm_backend_axioms by blast

end

text \<open>
  Claim C13. The virtual memory refines the memory of a node: with each of the three implementations, once
  \<^verbatim>\<open>init\<close> and the start-up code have run and whatever sequence of mappings, protections, stores and
  transfers follows, the process reads at every address of the global memory what the model of the
  node says, faults included, and finds the same bytes in \<^verbatim>\<open>cacheData\<close> and \<^verbatim>\<open>globalData\<close>. Only an error of the
  operating system, reported as \<^verbatim>\<open>std::system_error\<close>, stops the sequence.
\<close>

theorem vm_refines_node:
  assumes "vm_posix os (PAGE_SIZE c)" and V: "V \<in> {memfd_ops os, shm_ops os, anonymous_ops os (PAGE_SIZE c)}"
    and "op_init V (vm_vars_init, P0) = Inr (v0, P)" and "vm_fits V (PAGE_SIZE c) c ft v0"
    and "vm_setup V c ft (v0, P) = Inr (as, v, Q)" and "node_run c acts (init_node c touched copy) = Some nd"
  shows "case vm_run V (as ! 0) (as ! 1) acts (v, Q) of Inl e \<Rightarrow> \<exists>msg. e = System_error msg
     | Inr (w, R) \<Rightarrow> (\<forall>x < size_of_all c. proc_load R (op_start V w + x) = load_byte c 0 x (\<lambda>_. nd))
         \<and> (\<forall>j < PAGE_SIZE c * cachesize c. proc_load R (as ! 1 + j) = Some (backing nd j))
         \<and> (\<forall>j < size_of_chunk c. proc_load R (as ! 0 + j) = Some (data_window c nd j))"
proof -
  obtain inv where b: "vm_backend V (PAGE_SIZE c) inv"
    using vm_posix.all_backends [OF assms(1) V] by blast
  obtain bs where i: "inv bs (v, Q)" and r: "(as ! 0, size_of_chunk c) \<in> set bs" "(as ! 1, PAGE_SIZE c * cachesize c) \<in> set bs"
      "PAGE_SIZE c dvd op_start V v" "vm_fits V (PAGE_SIZE c) c ft v" "vm_rel V c (as ! 0) (as ! 1) (v, Q) (init_node c touched copy)"
    using vm_backend.setup_rel [OF b assms(3-5)] by blast
  note run = vm_backend.rel_run [OF b i r(4,3,1,2,5) assms(6)]
  show ?thesis
  proof (cases "vm_run V (as ! 0) (as ! 1) acts (v, Q)")
    case (Inl e)
    then show ?thesis using run by simp
  next
    case (Inr wR)
    then show ?thesis using run vm_backend.rel_load [OF b _ r(4)] by (cases wR) auto
  qed
qed

definition vm_demo_config :: swdsm_config where
  "vm_demo_config = \<lparr>PAGE_SIZE = 4096, CACHELINE = 1, numtasks = 2, startAddr = ARGO_VM_START, size_of_all = 16384,
     size_of_chunk = 8192, cachesize = 2, load_size = 1, cacheoffset = 12288, classificationSize = 8, mpi_windows = 8,
     GLOBAL_NULL = 16385, wb_max_size = 1, wb_write_back_size = 1, policy = plain_ops (\<lambda>_. Inr 0) (\<lambda>_. Inr 0)\<rparr>"

definition empty_process :: process where
  "empty_process = \<lparr>mem_map = (\<lambda>_. None), mem_prot = (\<lambda>_. PROT_NONE), contents = (\<lambda>_ _. 0), extent = (\<lambda>_. 0), blocks = []\<rparr>"

text \<open>A page is mapped to the second page of the cache; what the application stores is found in \<^verbatim>\<open>cacheData\<close>.\<close>

lemma vm_demo_ops:
  "\<exists>v P. memfd_init (os_seq 4096) (vm_vars_init, empty_process) = Inr (v, P) \<and> fd v = Some Memory_file"
  "\<exists>a P'. file_allocate_mappable (os_seq 4096) 4096 n (v, P) = Inr (a, v, P')"
  "fd v = Some Memory_file \<Longrightarrow> \<exists>P'. file_map_memory (os_seq 4096) a n off p (v, P) = Inr (v, P')"
  by (simp_all add: memfd_init_def open_file_def or_throw_def file_allocate_mappable_def file_map_memory_def os_seq_def Let_def)

lemma vm_demo_alloc: "\<exists>as P'. alloc_all (memfd_ops (os_seq 4096)) 4096 ns (v, P) = Inr (as, v, P')"
proof (induction ns arbitrary: P)
  case (Cons n ns)
  obtain a P1 where "file_allocate_mappable (os_seq 4096) 4096 n (v, P) = Inr (a, v, P1)" using vm_demo_ops(2) by blast
  then show ?case using Cons.IH [of P1] by (auto simp: memfd_ops_def)
qed simp

lemma vm_demo_map:
  assumes "fd v = Some Memory_file"
  shows "\<exists>P'. map_all (memfd_ops (os_seq 4096)) off ms (v, P) = Inr (v, P')"
proof (induction ms arbitrary: off P)
  case (Cons m ms)
  obtain a n where m: "m = (a, n)" by (cases m)
  obtain P1 where "file_map_memory (os_seq 4096) a n off PROT_READ_WRITE (v, P) = Inr (v, P1)" using vm_demo_ops(3) [OF assms] by blast
  then show ?case using Cons.IH [of "add64 off n" P1] by (auto simp: m memfd_ops_def)
qed simp

lemma vm_demo_fits: "vm_fits (memfd_ops os) 4096 vm_demo_config False v"
  by (simp add: vm_fits_def vm_demo_config_def array_sizes_def array_maps_def memfd_ops_def memfd_size_def ARGO_VM_SIZE_def
      cacheControlSize_def gwritersize_def sizeof_control_data_def align_forwards_def mul64_def add64_def wrap64_def)

lemma vm_demo_node:
  defines "c \<equiv> vm_demo_config"
  shows "\<exists>nd. node_run c [Vm_map 8192 4096 4096 PROT_READ_WRITE, App_store 8197 7] (init_node c (\<lambda>_. False) (\<lambda>_. 0)) = Some nd
     \<and> backing nd 4101 = 7 \<and> load_byte c 0 8197 (\<lambda>_. nd) = Some 7"
  by (simp add: c_def vm_demo_config_def map_memory_def mprotect_def pages_of_def c_range_def store_byte_def align_backwards_def
      init_node_def upd_def load_byte_def vm_read_def)

theorem vm_refines_node_witness:
  "\<exists>v0 P as v Q w R. memfd_init (os_seq 4096) (vm_vars_init, empty_process) = Inr (v0, P)
     \<and> vm_setup (memfd_ops (os_seq 4096)) vm_demo_config False (v0, P) = Inr (as, v, Q)
     \<and> vm_run (memfd_ops (os_seq 4096)) (as ! 0) (as ! 1) [Vm_map 8192 4096 4096 PROT_READ_WRITE, App_store 8197 7] (v, Q) = Inr (w, R)
     \<and> proc_load R (start_addr w + 8197) = Some 7 \<and> proc_load R (as ! 1 + 4101) = Some 7"
proof -
  let ?V = "memfd_ops (os_seq 4096)" and ?c = vm_demo_config and ?acts = "[Vm_map 8192 4096 4096 PROT_READ_WRITE, App_store 8197 7]"
  have pg: "PAGE_SIZE ?c = 4096" by (simp add: vm_demo_config_def)
  obtain v0 P where i: "memfd_init (os_seq 4096) (vm_vars_init, empty_process) = Inr (v0, P)" and f: "fd v0 = Some Memory_file"
    using vm_demo_ops(1) by blast
  obtain as P1 where a: "alloc_all ?V 4096 (array_sizes ?c False) (v0, P) = Inr (as, v0, P1)" using vm_demo_alloc by blast
  obtain Q where m: "map_all ?V 0 (array_maps ?c False as) (v0, P1) = Inr (v0, Q)" using vm_demo_map [OF f] by blast
  have su: "vm_setup ?V ?c False (v0, P) = Inr (as, v0, Q)" using a m by (simp add: vm_setup_def pg)
  obtain nd where nd: "node_run ?c ?acts (init_node ?c (\<lambda>_. False) (\<lambda>_. 0)) = Some nd" "backing nd 4101 = 7"
      "load_byte ?c 0 8197 (\<lambda>_. nd) = Some 7" using vm_demo_node by blast
  have oi: "op_init ?V (vm_vars_init, empty_process) = Inr (v0, P)" using i by (simp add: memfd_ops_def)
  have V: "?V \<in> {memfd_ops (os_seq 4096), shm_ops (os_seq 4096), anonymous_ops (os_seq 4096) 4096}" by simp
  note r = vm_refines_node [where c = ?c, unfolded pg, OF os_seq.vm_posix_axioms V oi vm_demo_fits su nd(1)]
  obtain Q1 where "file_map_memory (os_seq 4096) (start_addr v0 + 8192) 4096 4096 PROT_READ_WRITE (v0, Q) = Inr (v0, Q1)"
    using vm_demo_ops(3) [OF f] by blast
  then have run: "vm_run ?V (as ! 0) (as ! 1) ?acts (v0, Q) = or_fault v0 (proc_store (start_addr v0 + 8197) 7 Q1)"
    by (cases "proc_store (start_addr v0 + 8197) 7 Q1") (simp_all add: memfd_ops_def or_fault_def)
  then obtain R where R: "vm_run ?V (as ! 0) (as ! 1) ?acts (v0, Q) = Inr (v0, R)"
    using r by (auto simp: or_fault_def split: option.splits)
  have "proc_load R (op_start ?V v0 + 8197) = load_byte ?c 0 8197 (\<lambda>_. nd)" "proc_load R (as ! 1 + 4101) = Some (backing nd 4101)"
    using r unfolding R by (auto simp: vm_demo_config_def)
  then show ?thesis using i su R nd by (auto simp: memfd_ops_def)
qed

end
