(* ===== verification/Mempools.thy ===== *)
theory Mempools
  imports Data_Distribution
begin

text \<open>
  The memory pools of \<^verbatim>\<open>src/mempools\<close>: the pool of the global memory, the growing pool that takes
  its chunks from an allocator, and the pool for tests. An operation returns its result or exception
  together with the new state of the pool, because a pool may have changed when it throws. Addresses
  are natural numbers and \<^verbatim>\<open>nullptr\<close> is \<open>0\<close>.

  The locale \<open>mempool\<close> is the contract the generic allocator relies on, stated with two sets of
  addresses: \<open>base\<close>, the bytes of the global memory taken by anybody, and \<open>owned\<close>, the bytes the pool
  holds and has not handed out.
\<close>

section \<open>The interface of a pool\<close>

record 'p pool_ops =
  op_reserve :: "nat \<Rightarrow> 'p \<Rightarrow> (argo_error + nat) \<times> 'p"
  op_grow :: "nat \<Rightarrow> 'p \<Rightarrow> (argo_error + unit) \<times> 'p"
  op_available :: "'p \<Rightarrow> nat"

section \<open>global\_mempool.hpp\<close>

text \<open>
  \<^verbatim>\<open>*offset\<close> is a word of the reserved last page of the global memory, shared by the nodes and
  accessed under the global lock of the pool; here it is a field. The lock makes every operation
  atomic.
\<close>

record global_memory_pool =
  gm_memory :: nat
  gm_max_size :: nat
  gm_offset :: nat

definition reserved :: nat where
  "reserved = granularity"

definition global_memory_pool_new :: "nat \<Rightarrow> nat \<Rightarrow> global_memory_pool" where
  "global_memory_pool_new global_base global_size =
     \<lparr>gm_memory = global_base, gm_max_size = sub64 global_size reserved, gm_offset = 0\<rparr>"

definition gm_reset :: "nat \<Rightarrow> nat \<Rightarrow> global_memory_pool \<Rightarrow> global_memory_pool" where
  "gm_reset global_base global_size mp =
     mp\<lparr>gm_memory := global_base, gm_max_size := sub64 global_size reserved, gm_offset := 0\<rparr>"

definition gm_reserve :: "nat \<Rightarrow> global_memory_pool \<Rightarrow> (argo_error + nat) \<times> global_memory_pool" where
  "gm_reserve sz mp =
     (if add64 (gm_offset mp) sz > gm_max_size mp then (Inl Bad_alloc, mp)
      else (Inr (add64 (gm_memory mp) (gm_offset mp)), mp\<lparr>gm_offset := add64 (gm_offset mp) sz\<rparr>))"

definition gm_grow :: "nat \<Rightarrow> global_memory_pool \<Rightarrow> (argo_error + unit) \<times> global_memory_pool" where
  "gm_grow sz mp = (Inl Bad_alloc, mp)"

definition gm_available :: "global_memory_pool \<Rightarrow> nat" where
  "gm_available mp = sub64 (gm_max_size mp) (gm_offset mp)"

definition gm_ops :: "global_memory_pool pool_ops" where
  "gm_ops = \<lparr>op_reserve = gm_reserve, op_grow = gm_grow, op_available = gm_available\<rparr>"

section \<open>dynamic\_mempool.hpp\<close>

datatype growth_mode = ALWAYS | NODE_ZERO_ONLY

record dynamic_memory_pool =
  dp_memory :: nat
  dp_max_size :: nat
  dp_offset :: nat

definition chunk_size :: nat where
  "chunk_size = granularity"

definition do_grow :: "growth_mode \<Rightarrow> nat \<Rightarrow> bool" where
  "do_grow g nid = (case g of ALWAYS \<Rightarrow> True | NODE_ZERO_ONLY \<Rightarrow> nid = 0)"

text \<open>
  \<open>synchronize g bcast m\<close> gives the result and the new \<^verbatim>\<open>*m\<close>; \<open>bcast m\<close> is the value
  \<^verbatim>\<open>broadcast(0, *m)\<close> returns on the calling node, the \<^verbatim>\<open>*m\<close> of node 0.
\<close>

definition synchronize :: "growth_mode \<Rightarrow> (nat \<Rightarrow> nat) \<Rightarrow> nat \<Rightarrow> (argo_error + unit) \<times> nat" where
  "synchronize g bcast m =
     (case g of
        ALWAYS \<Rightarrow> if m = 0 then (Inl Bad_alloc, m) else (Inr (), m)
      | NODE_ZERO_ONLY \<Rightarrow>
          (let memory_ptr = bcast m
           in if memory_ptr = 0 then (Inl Bad_alloc, m) else (Inr (), memory_ptr)))"

definition dynamic_memory_pool_new :: dynamic_memory_pool where
  "dynamic_memory_pool_new = \<lparr>dp_memory = 0, dp_max_size = 0, dp_offset = 0\<rparr>"

definition dp_reserve :: "nat \<Rightarrow> dynamic_memory_pool \<Rightarrow> (argo_error + nat) \<times> dynamic_memory_pool" where
  "dp_reserve sz mp =
     (if add64 (dp_offset mp) sz > dp_max_size mp then (Inl Bad_alloc, mp)
      else (Inr (add64 (dp_memory mp) (dp_offset mp)), mp\<lparr>dp_offset := add64 (dp_offset mp) sz\<rparr>))"

definition chunks_for :: "nat \<Rightarrow> nat" where
  "chunks_for sz =
     mul64 (sub64 (add64 (if sz = 0 then 1 else sz) chunk_size) 1 div chunk_size) chunk_size"

text \<open>
  \<^verbatim>\<open>grow\<close> on node \<open>nid\<close>, where \<open>alloc\<close> is the allocator the pool points to and \<open>g\<close> its state. The
  new \<^verbatim>\<open>max_size\<close> and \<^verbatim>\<open>offset\<close> are set before the allocation is tried.
\<close>

definition dp_grow ::
  "(nat \<Rightarrow> 'g \<Rightarrow> (argo_error + nat) \<times> 'g) \<Rightarrow> growth_mode \<Rightarrow> nat \<Rightarrow> (nat \<Rightarrow> nat) \<Rightarrow> nat
     \<Rightarrow> 'g \<times> dynamic_memory_pool \<Rightarrow> (argo_error + unit) \<times> 'g \<times> dynamic_memory_pool" where
  "dp_grow alloc mode nid bcast sz st =
     (let (g, mp) = st;
          alloc_size = chunks_for sz;
          mp1 = mp\<lparr>dp_max_size := alloc_size, dp_offset := 0\<rparr>;
          (r, g1) = (if do_grow mode nid then alloc alloc_size g else (Inr (dp_memory mp1), g));
          r1 = (case r of Inl Bad_alloc \<Rightarrow> Inr 0 | _ \<Rightarrow> r)
      in case r1 of
           Inl e \<Rightarrow> (Inl e, g1, mp1)
         | Inr m \<Rightarrow> (let (res, m') = synchronize mode bcast m in (res, g1, mp1\<lparr>dp_memory := m'\<rparr>)))"

definition dp_available :: "dynamic_memory_pool \<Rightarrow> nat" where
  "dp_available mp = sub64 (dp_max_size mp) (dp_offset mp)"

definition dp_ops ::
  "(nat \<Rightarrow> 'g \<Rightarrow> (argo_error + nat) \<times> 'g) \<Rightarrow> growth_mode \<Rightarrow> nat \<Rightarrow> (nat \<Rightarrow> nat)
     \<Rightarrow> ('g \<times> dynamic_memory_pool) pool_ops" where
  "dp_ops alloc mode nid bcast =
     \<lparr>op_reserve = (\<lambda>n (g, mp). let (r, mp') = dp_reserve n mp in (r, g, mp')),
      op_grow = dp_grow alloc mode nid bcast,
      op_available = (\<lambda>(g, mp). dp_available mp)\<rparr>"

section \<open>dummy\_mempool.hpp\<close>

record memory_pool =
  mp_memory :: nat
  mp_max_size :: nat
  mp_offset :: nat

text \<open>The constructor; \<open>p\<close> is the address \<^verbatim>\<open>new char[size]\<close> returns.\<close>

definition memory_pool_new :: "nat \<Rightarrow> nat \<Rightarrow> memory_pool" where
  "memory_pool_new p sz = \<lparr>mp_memory = p, mp_max_size = sz, mp_offset = 0\<rparr>"

definition mp_reserve :: "nat \<Rightarrow> memory_pool \<Rightarrow> (argo_error + nat) \<times> memory_pool" where
  "mp_reserve sz mp =
     (if add64 (mp_offset mp) sz > mp_max_size mp then (Inl Bad_alloc, mp)
      else (Inr (add64 (mp_memory mp) (mp_offset mp)), mp\<lparr>mp_offset := add64 (mp_offset mp) sz\<rparr>))"

definition mp_grow :: "nat \<Rightarrow> memory_pool \<Rightarrow> (argo_error + unit) \<times> memory_pool" where
  "mp_grow sz mp = (Inl Bad_alloc, mp)"

definition mp_available :: "memory_pool \<Rightarrow> nat" where
  "mp_available mp = sub64 (mp_max_size mp) (mp_offset mp)"

definition mp_ops :: "memory_pool pool_ops" where
  "mp_ops = \<lparr>op_reserve = mp_reserve, op_grow = mp_grow, op_available = mp_available\<rparr>"

section \<open>The contract of a pool\<close>

text \<open>
  \<open>takes base owned s s' B\<close>: between \<open>s\<close> and \<open>s'\<close> the block \<open>B\<close> was handed out, from bytes held before or
  newly taken from the global memory, and is no longer held.
\<close>

definition takes :: "('s \<Rightarrow> nat set) \<Rightarrow> ('s \<Rightarrow> nat set) \<Rightarrow> 's \<Rightarrow> 's \<Rightarrow> nat set \<Rightarrow> bool" where
  "takes base owned s s' B \<longleftrightarrow> base s \<subseteq> base s' \<and> B \<union> owned s' \<subseteq> owned s \<union> (base s' - base s)
     \<and> B \<inter> owned s' = {}"

lemma takes_trans:
  assumes "takes base owned s s' B" and "takes base owned s' s'' C" and "owned s \<subseteq> base s"
  shows "takes base owned s s'' (B \<union> C)" and "B \<inter> C = {}"
  using assms unfolding takes_def by blast+

lemma takes_refl: "takes base owned s s {}"
  by (simp add: takes_def)

lemma takes_sub: "takes base owned s s' B \<Longrightarrow> C \<subseteq> B \<Longrightarrow> takes base owned s s' C"
  unfolding takes_def by blast

lemma takes_owned: "takes base owned s s' B \<Longrightarrow> owned s \<subseteq> base s \<Longrightarrow> owned s' \<subseteq> base s' \<and> B \<subseteq> base s'"
  unfolding takes_def by blast

text \<open>Requests are bounded: a size near \<open>2\<^sup>6\<^sup>4\<close> wraps around in the size checks.\<close>

definition size_bound :: nat where
  "size_bound = 2 ^ 62"

locale mempool =
  fixes P :: "'p pool_ops"
    and base owned :: "'p \<Rightarrow> nat set"
    and inv :: "'p \<Rightarrow> bool"
    and bound :: nat
  assumes owned_base: "inv mp \<Longrightarrow> owned mp \<subseteq> base mp"
    and base_range: "inv mp \<Longrightarrow> base mp \<subseteq> {0 <..< 2 * size_bound}"
    and bound_size: "bound \<le> size_bound"
    and reserve: "inv mp \<Longrightarrow> n < bound \<Longrightarrow> op_reserve P n mp = (Inr a, mp') \<Longrightarrow>
      inv mp' \<and> takes base owned mp mp' {a..<a + n}"
    and reserve_fail: "inv mp \<Longrightarrow> op_reserve P n mp = (Inl e, mp') \<Longrightarrow> e = Bad_alloc \<and> mp' = mp"
    and grow: "inv mp \<Longrightarrow> n < bound \<Longrightarrow> op_grow P n mp = (Inr u, mp') \<Longrightarrow>
      inv mp' \<and> takes base owned mp mp' {} \<and> (\<exists>a mp''. op_reserve P n mp' = (Inr a, mp''))"
    and available: "inv mp \<Longrightarrow> \<exists>a mp'. op_reserve P (op_available P mp) mp = (Inr a, mp')
      \<and> inv mp' \<and> takes base owned mp mp' {a..<a + op_available P mp}"

section \<open>The pools fulfil the contract\<close>

text \<open>All three pools hand out memory from the front of one range.\<close>

definition bump_ok :: "nat \<Rightarrow> nat \<Rightarrow> nat \<Rightarrow> bool" where
  "bump_ok memory max_size offset \<longleftrightarrow> offset \<le> max_size \<and> max_size < size_bound
     \<and> 0 < memory \<and> memory < size_bound"

lemma bump_reserve:
  assumes "bump_ok m k ofs" and "n < size_bound"
  shows "add64 ofs n = ofs + n" and "add64 m ofs = m + ofs"
  using assms by (simp_all add: bump_ok_def size_bound_def add64_def wrap64_def)

lemma bump_available:
  assumes "bump_ok m k ofs"
  shows "sub64 k ofs = k - ofs" and "k - ofs < size_bound"
proof -
  show "k - ofs < size_bound" using assms unfolding bump_ok_def by linarith
  then have "k - ofs < 2 ^ 64" by (simp add: size_bound_def)
  then show "sub64 k ofs = k - ofs" using assms by (simp add: bump_ok_def sub64_def wrap64_def)
qed

definition gm_inv :: "nat \<Rightarrow> nat \<Rightarrow> global_memory_pool \<Rightarrow> bool" where
  "gm_inv b k mp \<longleftrightarrow> gm_memory mp = b \<and> gm_max_size mp = k \<and> bump_ok b k (gm_offset mp)"

definition gm_base :: "global_memory_pool \<Rightarrow> nat set" where
  "gm_base mp = {gm_memory mp ..< gm_memory mp + gm_offset mp}"

lemma gm_reserve_eq:
  assumes "gm_inv b k mp" and "n < size_bound"
  shows "gm_reserve n mp = (if n \<le> gm_max_size mp - gm_offset mp
     then (Inr (gm_memory mp + gm_offset mp), mp\<lparr>gm_offset := gm_offset mp + n\<rparr>) else (Inl Bad_alloc, mp))"
proof -
  have b: "bump_ok (gm_memory mp) (gm_max_size mp) (gm_offset mp)" using assms(1) by (simp add: gm_inv_def)
  show ?thesis using bump_reserve [OF b assms(2)] b by (auto simp: gm_reserve_def bump_ok_def)
qed

lemma gm_available_eq:
  "gm_inv b k mp \<Longrightarrow> gm_available mp = gm_max_size mp - gm_offset mp"
  "gm_inv b k mp \<Longrightarrow> gm_max_size mp - gm_offset mp < size_bound"
  using bump_available [of b k "gm_offset mp"] by (auto simp: gm_available_def gm_inv_def)

lemma gm_reserve_law:
  assumes "gm_inv b k mp" and "n < size_bound" and "gm_reserve n mp = (Inr a, mp')"
  shows "gm_inv b k mp' \<and> takes gm_base (\<lambda>_. {}) mp mp' {a..<a + n}"
  using assms
  by (auto simp: gm_reserve_eq takes_def gm_base_def gm_inv_def bump_ok_def split: if_splits)

interpretation gm: mempool gm_ops gm_base "\<lambda>_. {}" "gm_inv b k" size_bound for b k
proof
  fix mp mp' n e assume "gm_inv b k mp" "op_reserve gm_ops n mp = (Inl e, mp')"
  then show "e = Bad_alloc \<and> mp' = mp" by (auto simp: gm_ops_def gm_reserve_def split: if_splits)
next
  fix mp assume i: "gm_inv b k mp"
  then have b: "gm_available mp < size_bound" by (simp add: gm_available_eq)
  then obtain a mp' where r: "gm_reserve (gm_available mp) mp = (Inr a, mp')"
    using i by (simp add: gm_reserve_eq) (simp add: gm_available_eq)
  then show "\<exists>a mp'. op_reserve gm_ops (op_available gm_ops mp) mp = (Inr a, mp')
      \<and> gm_inv b k mp' \<and> takes gm_base (\<lambda>_. {}) mp mp' {a..<a + op_available gm_ops mp}"
    using gm_reserve_law [OF i b r] by (simp add: gm_ops_def)
next
  fix mp mp' n a assume "gm_inv b k mp" "n < size_bound" "op_reserve gm_ops n mp = (Inr a, mp')"
  then show "gm_inv b k mp' \<and> takes gm_base (\<lambda>_. {}) mp mp' {a..<a + n}"
    by (simp add: gm_ops_def gm_reserve_law)
next
  show "gm_base mp \<subseteq> {0 <..< 2 * size_bound}" if "gm_inv b k mp" for mp
    using that by (auto simp: gm_base_def gm_inv_def bump_ok_def)
qed (simp_all add: gm_ops_def gm_grow_def)

definition mp_inv :: "memory_pool \<Rightarrow> bool" where
  "mp_inv mp \<longleftrightarrow> bump_ok (mp_memory mp) (mp_max_size mp) (mp_offset mp)"

definition mp_base :: "memory_pool \<Rightarrow> nat set" where
  "mp_base mp = {mp_memory mp ..< mp_memory mp + mp_offset mp}"

lemma mp_reserve_eq:
  assumes "mp_inv mp" and "n < size_bound"
  shows "mp_reserve n mp = (if n \<le> mp_max_size mp - mp_offset mp
     then (Inr (mp_memory mp + mp_offset mp), mp\<lparr>mp_offset := mp_offset mp + n\<rparr>) else (Inl Bad_alloc, mp))"
proof -
  have b: "bump_ok (mp_memory mp) (mp_max_size mp) (mp_offset mp)" using assms(1) by (simp add: mp_inv_def)
  show ?thesis using bump_reserve [OF b assms(2)] b by (auto simp: mp_reserve_def bump_ok_def)
qed

lemma mp_available_eq:
  "mp_inv mp \<Longrightarrow> mp_available mp = mp_max_size mp - mp_offset mp"
  "mp_inv mp \<Longrightarrow> mp_max_size mp - mp_offset mp < size_bound"
  using bump_available by (simp_all add: mp_available_def mp_inv_def)

lemma mp_reserve_law:
  assumes "mp_inv mp" and "n < size_bound" and "mp_reserve n mp = (Inr a, mp')"
  shows "mp_inv mp' \<and> takes mp_base (\<lambda>_. {}) mp mp' {a..<a + n}"
  using assms
  by (auto simp: mp_reserve_eq takes_def mp_base_def mp_inv_def bump_ok_def split: if_splits)

interpretation dummy: mempool mp_ops mp_base "\<lambda>_. {}" mp_inv size_bound
proof
  fix mp mp' n e assume "mp_inv mp" "op_reserve mp_ops n mp = (Inl e, mp')"
  then show "e = Bad_alloc \<and> mp' = mp" by (auto simp: mp_ops_def mp_reserve_def split: if_splits)
next
  fix mp assume i: "mp_inv mp"
  then have b: "mp_available mp < size_bound" by (simp add: mp_available_eq)
  then obtain a mp' where r: "mp_reserve (mp_available mp) mp = (Inr a, mp')"
    using i by (simp add: mp_reserve_eq) (simp add: mp_available_eq)
  then show "\<exists>a mp'. op_reserve mp_ops (op_available mp_ops mp) mp = (Inr a, mp')
      \<and> mp_inv mp' \<and> takes mp_base (\<lambda>_. {}) mp mp' {a..<a + op_available mp_ops mp}"
    using mp_reserve_law [OF i b r] by (simp add: mp_ops_def)
next
  fix mp mp' n a assume "mp_inv mp" "n < size_bound" "op_reserve mp_ops n mp = (Inr a, mp')"
  then show "mp_inv mp' \<and> takes mp_base (\<lambda>_. {}) mp mp' {a..<a + n}"
    by (simp add: mp_ops_def mp_reserve_law)
next
  show "mp_base mp \<subseteq> {0 <..< 2 * size_bound}" if "mp_inv mp" for mp
    using that by (auto simp: mp_base_def mp_inv_def bump_ok_def)
qed (simp_all add: mp_ops_def mp_grow_def)

end
