(* ===== verification/Allocators.thy ===== *)
theory Allocators
  imports Mempools
begin

text \<open>
  The generic allocator of \<^verbatim>\<open>generic_allocator.hpp\<close>. An allocator and the pool it points to are passed
  together. An allocator on a pool that fulfils the contract \<open>mempool\<close> fulfils the contract
  \<open>allocator\<close>, and a growing pool that takes its chunks from such an allocator fulfils \<open>mempool\<close>
  again: the two sublocales carry the proof through the levels of the allocation hierarchy.
\<close>

section \<open>generic\_allocator.hpp\<close>

text \<open>
  \<^verbatim>\<open>allocation_size\<close> and \<^verbatim>\<open>freelist\<close> are the two maps; a missing free list is an empty stack, the top
  of a stack is the head of its list. \<open>alloc_lock\<close> is the state of a \<^verbatim>\<open>std::mutex\<close>, \<open>has_mempool\<close> says
  that the pool pointer was set.
\<close>

record generic_allocator =
  has_mempool :: bool
  alloc_lock :: bool
  allocation_size :: "nat \<Rightarrow> nat option"
  freelist :: "nat \<Rightarrow> nat list"

definition generic_allocator_new :: generic_allocator where
  "generic_allocator_new =
     \<lparr>has_mempool = False, alloc_lock = False, allocation_size = Map.empty, freelist = \<lambda>_. []\<rparr>"

definition set_mempool :: "generic_allocator \<Rightarrow> generic_allocator" where
  "set_mempool A = A\<lparr>has_mempool := True\<rparr>"

definition max_align :: nat where
  "max_align = 16"

definition align_up :: "nat \<Rightarrow> nat \<Rightarrow> nat" where
  "align_up num alignment = mul64 (sub64 (add64 num alignment) 1 div alignment) alignment"

definition deallocate_nosync :: "nat \<Rightarrow> nat \<Rightarrow> generic_allocator \<Rightarrow> generic_allocator" where
  "deallocate_nosync ptr sz A = A\<lparr>freelist := (freelist A)(sz := ptr # freelist A sz)\<rparr>"

text \<open>\<^verbatim>\<open>std::map::insert\<close> keeps an entry that is there already.\<close>

definition insert_size :: "nat \<Rightarrow> nat \<Rightarrow> generic_allocator \<Rightarrow> generic_allocator" where
  "insert_size ptr n A =
     (if allocation_size A ptr = None
      then A\<lparr>allocation_size := (allocation_size A)(ptr \<mapsto> n)\<rparr> else A)"

text \<open>\<open>guarded\<close> is true for \<^verbatim>\<open>std::mutex\<close> and false for \<^verbatim>\<open>null_lock\<close>.\<close>

definition lock_op :: "bool \<Rightarrow> generic_allocator \<Rightarrow> generic_allocator" where
  "lock_op guarded A = (if guarded then A\<lparr>alloc_lock := True\<rparr> else A)"

definition unlock_op :: "bool \<Rightarrow> generic_allocator \<Rightarrow> generic_allocator" where
  "unlock_op guarded A = (if guarded then A\<lparr>alloc_lock := False\<rparr> else A)"

text \<open>The handler of the first failed \<^verbatim>\<open>reserve\<close>: keep the rest of the pool, grow, reserve again.\<close>

definition keep_leftover ::
  "'p pool_ops \<Rightarrow> nat \<Rightarrow> generic_allocator \<times> 'p \<Rightarrow> (argo_error + unit) \<times> generic_allocator \<times> 'p" where
  "keep_leftover P aligned_n st =
     (let (A, mp) = st; avail = op_available P mp
      in if avail > 0
         then case op_reserve P avail mp of
                (Inr a, mp') \<Rightarrow> (Inr (), insert_size a aligned_n (deallocate_nosync a avail A), mp')
              | (Inl e, mp') \<Rightarrow> (Inl e, A, mp')
         else (Inr (), A, mp))"

definition allocate_more ::
  "'p pool_ops \<Rightarrow> bool \<Rightarrow> nat \<Rightarrow> nat \<Rightarrow> generic_allocator \<times> 'p
     \<Rightarrow> (argo_error + nat) \<times> generic_allocator \<times> 'p" where
  "allocate_more P guarded aligned_alloc_size aligned_n st =
     (case keep_leftover P aligned_n st of
        (Inl e, A1, mp1) \<Rightarrow> (Inl e, A1, mp1)
      | (Inr _, A1, mp1) \<Rightarrow>
         (case op_grow P aligned_alloc_size mp1 of
            (Inl e, mp2) \<Rightarrow> (Inl e, if e = Bad_alloc then unlock_op guarded A1 else A1, mp2)
          | (Inr _, mp2) \<Rightarrow>
             (case op_reserve P aligned_alloc_size mp2 of
                (Inl e, mp3) \<Rightarrow> (Inl e, A1, mp3)
              | (Inr a, mp3) \<Rightarrow> (Inr a, unlock_op guarded (insert_size a aligned_n A1), mp3))))"

definition allocate ::
  "'p pool_ops \<Rightarrow> bool \<Rightarrow> nat \<Rightarrow> nat \<Rightarrow> generic_allocator \<times> 'p
     \<Rightarrow> (argo_error + nat) \<times> generic_allocator \<times> 'p" where
  "allocate P guarded sizeof_T n st =
     (let (A0, mp) = st;
          aligned_alloc_size = align_up (mul64 n sizeof_T) max_align;
          aligned_n = aligned_alloc_size div sizeof_T;
          A = lock_op guarded A0
      in if guarded \<and> alloc_lock A0 then (Inl Diverges, st)
         else case freelist A aligned_n of
           p # ps \<Rightarrow> (Inr p, unlock_op guarded (A\<lparr>freelist := (freelist A)(aligned_n := ps)\<rparr>), mp)
         | [] \<Rightarrow>
             if \<not> has_mempool A then (Inl (Undefined_behaviour ''mempool is null''), A, mp)
             else case op_reserve P aligned_alloc_size mp of
                 (Inr a, mp1) \<Rightarrow> (Inr a, unlock_op guarded (insert_size a aligned_n A), mp1)
               | (Inl e, mp1) \<Rightarrow>
                   if e = Bad_alloc then allocate_more P guarded aligned_alloc_size aligned_n (A, mp1)
                   else (Inl e, A, mp1))"

text \<open>\<^verbatim>\<open>free\<close> reads \<^verbatim>\<open>allocation_size[ptr]\<close>, which adds the entry \<open>0\<close> for an unknown pointer.\<close>

definition alloc_free :: "bool \<Rightarrow> nat \<Rightarrow> generic_allocator \<Rightarrow> (argo_error + unit) \<times> generic_allocator" where
  "alloc_free guarded ptr A0 =
     (if guarded \<and> alloc_lock A0 then (Inl Diverges, A0)
      else let A = insert_size ptr 0 (lock_op guarded A0);
               sz = the (allocation_size A ptr)
           in (Inr (), unlock_op guarded (deallocate_nosync ptr sz A)))"

definition deallocate :: "bool \<Rightarrow> nat \<Rightarrow> nat \<Rightarrow> nat \<Rightarrow> generic_allocator \<Rightarrow> (argo_error + unit) \<times> generic_allocator" where
  "deallocate guarded sizeof_T ptr n A =
     (let aligned_alloc_size = align_up (mul64 n sizeof_T) max_align;
          aligned_n = aligned_alloc_size div sizeof_T
      in if guarded \<and> alloc_lock A then (Inl Diverges, A)
         else (Inr (), unlock_op guarded (deallocate_nosync ptr aligned_n (lock_op guarded A))))"

definition allocated_space :: "nat \<Rightarrow> generic_allocator \<Rightarrow> argo_error + nat" where
  "allocated_space ptr A = (case allocation_size A ptr of None \<Rightarrow> Inl Out_of_range | Some n \<Rightarrow> Inr n)"

section \<open>The free lists of an allocator\<close>

definition free_blocks :: "generic_allocator \<Rightarrow> nat \<Rightarrow> nat \<Rightarrow> nat set" where
  "free_blocks A s i = (if i < length (freelist A s) then {freelist A s ! i ..< freelist A s ! i + s} else {})"

definition free_bytes :: "generic_allocator \<Rightarrow> nat set" where
  "free_bytes A = (\<Union>s. \<Union>p \<in> set (freelist A s). {p..<p + s})"

definition free_disjoint :: "generic_allocator \<Rightarrow> bool" where
  "free_disjoint A \<longleftrightarrow> (\<forall>s i t j. (s, i) \<noteq> (t, j) \<longrightarrow> free_blocks A s i \<inter> free_blocks A t j = {})"

lemma free_bytes_blocks: "free_bytes A = (\<Union>s i. free_blocks A s i)"
  by (fastforce simp: free_bytes_def free_blocks_def in_set_conv_nth split: if_splits)

lemma free_blocks_push:
  "free_blocks (deallocate_nosync p s A) t i =
     (if t = s then case i of 0 \<Rightarrow> {p..<p + s} | Suc j \<Rightarrow> free_blocks A s j else free_blocks A t i)"
  by (cases i) (auto simp: free_blocks_def deallocate_nosync_def)

lemma free_bytes_push: "free_bytes (deallocate_nosync p s A) = {p..<p + s} \<union> free_bytes A"
  by (fastforce simp: free_bytes_def deallocate_nosync_def split: if_splits)

lemma free_disjoint_push:
  assumes "free_disjoint A" and "{p..<p + s} \<inter> free_bytes A = {}"
  shows "free_disjoint (deallocate_nosync p s A)"
  unfolding free_disjoint_def
proof (intro allI impI)
  fix a i b j :: nat assume ne: "(a, i) \<noteq> (b, j)"
  have d: "{p..<p + s} \<inter> free_blocks A t k = {}" for t k using assms(2) by (auto simp: free_bytes_blocks)
  have A: "free_blocks A t k \<inter> free_blocks A u l = {}" if "(t, k) \<noteq> (u, l)" for t k u l
    using assms(1) that by (simp add: free_disjoint_def)
  show "free_blocks (deallocate_nosync p s A) a i \<inter> free_blocks (deallocate_nosync p s A) b j = {}"
    using ne d [unfolded Int_commute [of "{p..<p + s}"]]
    by (simp add: free_blocks_push d A split: nat.split) (metis A prod.inject)
qed

lemma free_disjoint_push_eq:
  "A = deallocate_nosync p s B \<Longrightarrow> free_disjoint A \<Longrightarrow> {p..<p + s} \<inter> free_bytes B = {} \<and> free_disjoint B"
proof -
  assume A: "A = deallocate_nosync p s B" and d: "free_disjoint A"
  have f: "free_blocks A t i \<inter> free_blocks A u j = {}" if "(t, i) \<noteq> (u, j)" for t i u j
    using d that by (simp add: free_disjoint_def)
  have sh: "free_blocks B t i = free_blocks A t (if t = s then Suc i else i)" for t i
    by (simp add: A free_blocks_push)
  have "free_blocks A s 0 = {p..<p + s}" by (simp add: A free_blocks_push)
  then have "{p..<p + s} \<inter> free_blocks B t i = {}" for t i
    using f [of s 0 t "if t = s then Suc i else i"] by (simp add: sh)
  moreover have "free_blocks B t i \<inter> free_blocks B u j = {}" if "(t, i) \<noteq> (u, j)" for t i u j
    unfolding sh by (rule f) (use that in auto)
  ultimately show ?thesis unfolding free_disjoint_def free_bytes_blocks by blast
qed

lemma free_frames [simp]:
  "freelist (insert_size p n A) = freelist A" "freelist (lock_op g A) = freelist A"
  "freelist (unlock_op g A) = freelist A" "has_mempool (lock_op g A) = has_mempool A"
  by (simp_all add: insert_size_def lock_op_def unlock_op_def)

lemma free_cong:
  assumes "freelist A = freelist B"
  shows "free_bytes A = free_bytes B" and "free_disjoint A = free_disjoint B"
  using assms by (simp_all add: free_bytes_def free_disjoint_def free_blocks_def)

lemma free_pop:
  assumes "freelist A s = p # ps" and "B = A\<lparr>freelist := (freelist A)(s := ps)\<rparr>"
  shows "freelist A = freelist (deallocate_nosync p s B)"
  using assms by (auto simp: deallocate_nosync_def)

section \<open>An allocator on a pool that fulfils its contract\<close>

lemma align_up_eq:
  assumes "n < size_bound"
  shows "align_up n max_align = (n + 15) div 16 * 16" and "n \<le> align_up n max_align"
    and "align_up n max_align < n + 16"
proof -
  have e: "align_up n max_align = (n + 15) div 16 * 16"
    using assms by (simp add: align_up_def max_align_def size_bound_def add64_def sub64_def mul64_def wrap64_def)
  then show "align_up n max_align = (n + 15) div 16 * 16" .
  show "n \<le> align_up n max_align" and "align_up n max_align < n + 16" unfolding e by presburger+
qed

context mempool
begin

definition held :: "generic_allocator \<times> 'p \<Rightarrow> nat set" where
  "held st = owned (snd st) \<union> free_bytes (fst st)"

definition taken :: "generic_allocator \<times> 'p \<Rightarrow> nat set" where
  "taken st = base (snd st)"

definition good :: "generic_allocator \<times> 'p \<Rightarrow> bool" where
  "good st \<longleftrightarrow> inv (snd st) \<and> free_bytes (fst st) \<subseteq> base (snd st)
     \<and> free_bytes (fst st) \<inter> owned (snd st) = {} \<and> free_disjoint (fst st)"

lemma good_held: "good st \<Longrightarrow> held st \<subseteq> taken st"
  using owned_base by (auto simp: good_def held_def taken_def)

lemma good_cong: "freelist A = freelist B \<Longrightarrow> good (A, mp) = good (B, mp)"
  "freelist A = freelist B \<Longrightarrow> held (A, mp) = held (B, mp)"
  by (simp_all add: good_def held_def free_cong [of A B])

text \<open>Bytes taken from the pool by \<^verbatim>\<open>reserve\<close>.\<close>

lemma pool_step:
  assumes "good (A, mp)" and "inv mp'" and "takes base owned mp mp' B"
  shows "good (A, mp')" and "takes taken held (A, mp) (A, mp') B" and "B \<inter> free_bytes A = {}"
    and "B \<subseteq> base mp'" and "B \<inter> owned mp' = {}"
proof -
  have o: "owned mp \<subseteq> base mp" using owned_base assms(1) by (simp add: good_def)
  show "good (A, mp')" and "takes taken held (A, mp) (A, mp') B" and "B \<inter> free_bytes A = {}"
    and "B \<subseteq> base mp'" and "B \<inter> owned mp' = {}"
    using assms o unfolding good_def takes_def held_def taken_def fst_conv snd_conv by blast+
qed

lemma push_step:
  assumes "good (A, mp)" and "{p..<p + s} \<inter> held (A, mp) = {}" and "{p..<p + s} \<subseteq> taken (A, mp)"
  shows "good (deallocate_nosync p s A, mp)" and "held (deallocate_nosync p s A, mp) = {p..<p + s} \<union> held (A, mp)"
  using assms free_disjoint_push [of A p s] by (auto simp: good_def held_def taken_def free_bytes_push)

lemma leftover_step:
  assumes "good (A, mp)"
  shows "\<exists>A' mp'. keep_leftover P n (A, mp) = (Inr (), A', mp') \<and> good (A', mp')
     \<and> takes taken held (A, mp) (A', mp') {} \<and> has_mempool A' = has_mempool A"
proof (cases "op_available P mp > 0")
  case True
  obtain a mp' where r: "op_reserve P (op_available P mp) mp = (Inr a, mp')" "inv mp'"
      "takes base owned mp mp' {a..<a + op_available P mp}"
    using available [of mp] assms unfolding good_def by auto
  let ?B = "{a..<a + op_available P mp}" and ?A = "insert_size a n (deallocate_nosync a (op_available P mp) A)"
  note s = pool_step [OF assms r(2,3)]
  have "?B \<inter> held (A, mp') = {}" using s(3,5) by (auto simp: held_def)
  then have p: "good (deallocate_nosync a (op_available P mp) A, mp')"
    "held (deallocate_nosync a (op_available P mp) A, mp') = ?B \<union> held (A, mp')"
    using push_step [OF s(1)] s(4) by (auto simp: taken_def)
  have f: "freelist ?A = freelist (deallocate_nosync a (op_available P mp) A)" by simp
  have "good (?A, mp')" "held (?A, mp') = ?B \<union> held (A, mp')" using p good_cong [OF f] by simp_all
  moreover from this s(2) have "takes taken held (A, mp) (?A, mp') {}"
    by (auto simp: takes_def taken_def)
  moreover have "keep_leftover P n (A, mp) = (Inr (), ?A, mp')"
    using True r(1) by (simp add: keep_leftover_def)
  moreover have "has_mempool ?A = has_mempool A" by (simp add: insert_size_def deallocate_nosync_def)
  ultimately show ?thesis by blast
qed (use assms in \<open>simp add: keep_leftover_def takes_refl\<close>)

text \<open>A reservation that succeeds.\<close>

lemma reserve_step:
  assumes "good (A, mp)" and "k < bound" and "op_reserve P k mp = (Inr a, mp')"
    and "freelist A' = freelist A"
  shows "good (A', mp') \<and> takes taken held (A, mp) (A', mp') {a..<a + k}"
proof -
  have r: "inv mp'" "takes base owned mp mp' {a..<a + k}"
    using reserve assms(1-3) by (auto simp: good_def)
  note s = pool_step [OF assms(1) r]
  show ?thesis using s(1,2) good_cong [OF assms(4), of mp'] by (simp add: takes_def taken_def)
qed

lemma more_step:
  assumes g: "good (A, mp)" and k: "k < bound"
    and res: "allocate_more P guarded k n (A, mp) = (Inr a, st')"
  shows "good st' \<and> takes taken held (A, mp) st' {a..<a + k}"
proof -
  obtain A1 mp1 where l: "keep_leftover P n (A, mp) = (Inr (), A1, mp1)" "good (A1, mp1)"
      "takes taken held (A, mp) (A1, mp1) {}"
    using leftover_step [OF g] by blast
  obtain u mp2 where gr: "op_grow P k mp1 = (Inr u, mp2)"
    using res l(1) by (cases "op_grow P k mp1"; cases "fst (op_grow P k mp1)") (auto simp: allocate_more_def)
  have g2: "inv mp2" "takes base owned mp1 mp2 {}" using grow [OF _ k gr] l(2) by (auto simp: good_def)
  note s = pool_step [OF l(2) g2]
  obtain mp3 where r: "op_reserve P k mp2 = (Inr a, mp3)" and st: "st' = (unlock_op guarded (insert_size a n A1), mp3)"
    using res l(1) gr by (cases "op_reserve P k mp2"; cases "fst (op_reserve P k mp2)") (auto simp: allocate_more_def)
  have f: "freelist (unlock_op guarded (insert_size a n A1)) = freelist A1" by simp
  have r3: "good st'" "takes taken held (A1, mp2) st' {a..<a + k}"
    using reserve_step [OF s(1) k r f] unfolding st by blast+
  have "takes taken held (A, mp) (A1, mp2) {}"
    using takes_trans(1) [OF l(3) s(2) good_held [OF g]] by simp
  from takes_trans(1) [OF this r3(2) good_held [OF g]] r3(1) show ?thesis by simp
qed

lemma allocate_step:
  assumes g: "good st" and n: "n + 16 \<le> bound" and res: "allocate P guarded 1 n st = (Inr a, st')"
  shows "good st' \<and> takes taken held st st' {a..<a + align_up n max_align}"
proof -
  obtain A mp where st: "st = (A, mp)" by fastforce
  have nb: "n < size_bound" using n bound_size by simp
  have m: "mul64 n (Suc 0) = n" using nb by (simp add: mul64_def wrap64_def size_bound_def)
  let ?k = "align_up n max_align"
  have k: "?k < bound" using align_up_eq(3) [OF nb] n by simp
  have nl: "\<not> (guarded \<and> alloc_lock A)" using res by (auto simp: allocate_def st)
  have gA: "good (lock_op guarded A, mp)" and hA: "held (lock_op guarded A, mp) = held st"
    using g good_cong [of "lock_op guarded A" A mp] by (simp_all add: st)
  show ?thesis
  proof (cases "freelist A ?k")
    case (Cons p ps)
    let ?B = "lock_op guarded A\<lparr>freelist := (freelist A)(?k := ps)\<rparr>"
    have a: "a = p" and st': "st' = (unlock_op guarded ?B, mp)"
      using res nl Cons by (simp_all add: allocate_def Let_def st m)
    have f: "freelist A = freelist (deallocate_nosync p ?k ?B)" using Cons by (auto simp: deallocate_nosync_def)
    have "free_disjoint (deallocate_nosync p ?k ?B)" using free_cong(2) [OF f] g by (simp add: good_def st)
    from free_disjoint_push_eq [OF refl this]
    have d: "{p..<p + ?k} \<inter> free_bytes ?B = {}" "free_disjoint ?B" by simp_all
    have b: "free_bytes A = {p..<p + ?k} \<union> free_bytes ?B" using free_cong(1) [OF f] free_bytes_push by simp
    have f': "freelist (unlock_op guarded ?B) = freelist ?B" by simp
    show ?thesis using g d b free_cong [OF f'] unfolding st st' a good_def takes_def held_def taken_def by auto
  next
    case Nil
    have hm: "has_mempool A" using res nl Nil by (auto simp: allocate_def Let_def st m split: if_splits)
    show ?thesis
    proof (cases "op_reserve P ?k mp")
      case (Pair r mp1)
      show ?thesis
      proof (cases r)
        case (Inr b)
        then have "b = a" and st': "st' = (unlock_op guarded (insert_size a ?k (lock_op guarded A)), mp1)"
          using res nl Nil hm Pair by (auto simp: allocate_def Let_def st m)
        then show ?thesis
          using reserve_step [of A mp ?k a mp1 "unlock_op guarded (insert_size a ?k (lock_op guarded A))"] g k Pair Inr
          by (simp add: st)
      next
        case (Inl e)
        then have e: "e = Bad_alloc" "mp1 = mp" using reserve_fail [of mp ?k e mp1] g Pair by (auto simp: good_def st)
        have "allocate_more P guarded ?k ?k (lock_op guarded A, mp) = (Inr a, st')"
          using res nl Nil hm Pair Inl e by (simp add: allocate_def Let_def st m)
        from more_step [OF gA k this] show ?thesis using hA by (simp add: takes_def taken_def st)
      qed
    qed
  qed
qed

text \<open>Giving a block back to the free list of its size.\<close>

lemma deallocate_step:
  assumes g: "good (A, mp)" and n: "n + 16 \<le> bound"
    and blk: "{p..<p + align_up n max_align} \<inter> held (A, mp) = {}" "{p..<p + align_up n max_align} \<subseteq> taken (A, mp)"
    and res: "deallocate guarded 1 p n A = (Inr u, A')"
  shows "good (A', mp) \<and> held (A', mp) = {p..<p + align_up n max_align} \<union> held (A, mp)"
proof -
  have "n < size_bound" using n bound_size by simp
  then have "mul64 n (Suc 0) = n" by (simp add: mul64_def wrap64_def size_bound_def)
  then have A': "A' = unlock_op guarded (deallocate_nosync p (align_up n max_align) (lock_op guarded A))"
    using res by (auto simp: deallocate_def Let_def split: if_splits)
  have f: "freelist A' = freelist (deallocate_nosync p (align_up n max_align) A)"
    by (simp add: A' deallocate_nosync_def)
  show ?thesis using push_step [OF g blk] good_cong [OF f, of mp] by simp
qed

end

section \<open>The contract of an allocator and the pools that grow from one\<close>

locale allocator =
  fixes alloc :: "nat \<Rightarrow> 'g \<Rightarrow> (argo_error + nat) \<times> 'g"
    and base owned :: "'g \<Rightarrow> nat set"
    and inv :: "'g \<Rightarrow> bool"
    and bound :: nat
  assumes owned_base: "inv g \<Longrightarrow> owned g \<subseteq> base g"
    and base_range: "inv g \<Longrightarrow> base g \<subseteq> {0 <..< 2 * size_bound}"
    and bound_size: "bound \<le> size_bound"
    and alloc: "inv g \<Longrightarrow> n < bound \<Longrightarrow> alloc n g = (Inr a, g') \<Longrightarrow>
      inv g' \<and> takes base owned g g' {a..<a + n}"

sublocale mempool \<subseteq> plain: allocator "allocate P False 1" taken held good "bound - 16"
proof
  show "good g \<Longrightarrow> held g \<subseteq> taken g" for g by (rule good_held)
  show "good g \<Longrightarrow> taken g \<subseteq> {0 <..< 2 * size_bound}" for g
    using base_range by (simp add: good_def taken_def)
  fix g n a g' assume g: "good g" "n < bound - 16" "allocate P False 1 n g = (Inr a, g')"
  have "n + 16 \<le> bound" "n < size_bound" using g(2) bound_size by simp_all
  then show "good g' \<and> takes taken held g g' {a..<a + n}"
    using allocate_step [OF g(1) _ g(3)] align_up_eq(2) [of n] by (auto elim: takes_sub)
qed (use bound_size in simp)

sublocale mempool \<subseteq> guarded: allocator "allocate P True 1" taken held good "bound - 16"
proof
  show "good g \<Longrightarrow> held g \<subseteq> taken g" for g by (rule good_held)
  show "good g \<Longrightarrow> taken g \<subseteq> {0 <..< 2 * size_bound}" for g
    using base_range by (simp add: good_def taken_def)
  fix g n a g' assume g: "good g" "n < bound - 16" "allocate P True 1 n g = (Inr a, g')"
  have "n + 16 \<le> bound" "n < size_bound" using g(2) bound_size by simp_all
  then show "good g' \<and> takes taken held g g' {a..<a + n}"
    using allocate_step [OF g(1) _ g(3)] align_up_eq(2) [of n] by (auto elim: takes_sub)
qed (use bound_size in simp)

lemma chunks_for_eq:
  assumes "n + 4096 \<le> size_bound"
  shows "chunks_for n = (max n 1 + 4095) div 4096 * 4096" and "n \<le> chunks_for n"
    and "chunks_for n < n + 4097" and "0 < chunks_for n"
proof -
  have e: "chunks_for n = (max n 1 + 4095) div 4096 * 4096"
    using assms
    by (auto simp: chunks_for_def chunk_size_def granularity_def size_bound_def add64_def sub64_def mul64_def wrap64_def)
  then show "chunks_for n = (max n 1 + 4095) div 4096 * 4096" .
  have "(max n 1 + 4095) div 4096 * 4096 + (max n 1 + 4095) mod 4096 = max n 1 + 4095"
    "(max n 1 + 4095) mod 4096 < 4096" by simp_all
  then have "max n 1 \<le> chunks_for n" "chunks_for n < max n 1 + 4096" unfolding e by linarith+
  then show "n \<le> chunks_for n" and "chunks_for n < n + 4097" and "0 < chunks_for n" by auto
qed

text \<open>On node 0 the collective pool grows like a pool of its own.\<close>

lemma dp_grow_node_zero: "dp_grow alloc NODE_ZERO_ONLY 0 id = dp_grow alloc ALWAYS nid bcast"
  by (intro ext) (simp add: dp_grow_def do_grow_def synchronize_def Let_def split: prod.split sum.split)

definition rest :: "dynamic_memory_pool \<Rightarrow> nat set" where
  "rest d = {dp_memory d + dp_offset d ..< dp_memory d + dp_max_size d}"

lemma dp_reserve_eq:
  assumes "dp_offset d \<le> dp_max_size d" and "dp_memory d + dp_max_size d \<le> 2 * size_bound" and "n < 2 * size_bound"
  shows "dp_reserve n d = (if n \<le> dp_max_size d - dp_offset d
     then (Inr (dp_memory d + dp_offset d), d\<lparr>dp_offset := dp_offset d + n\<rparr>) else (Inl Bad_alloc, d))"
proof -
  have "dp_offset d + n < 2 ^ 64" using assms by (simp add: size_bound_def)
  moreover have "dp_memory d + dp_offset d < 2 ^ 64" using assms by (simp add: size_bound_def)
  ultimately show ?thesis using assms by (auto simp: dp_reserve_def wrap_simps)
qed

locale growing = allocator +
  fixes nid :: nat
    and bcast :: "nat \<Rightarrow> nat"
begin

definition dp_good :: "'a \<times> dynamic_memory_pool \<Rightarrow> bool" where
  "dp_good st \<longleftrightarrow> inv (fst st) \<and> dp_offset (snd st) \<le> dp_max_size (snd st) \<and> dp_max_size (snd st) < 2 * size_bound
     \<and> dp_memory (snd st) + dp_max_size (snd st) \<le> 2 * size_bound
     \<and> rest (snd st) \<subseteq> base (fst st) \<and> rest (snd st) \<inter> owned (fst st) = {}"

definition dp_base :: "'a \<times> dynamic_memory_pool \<Rightarrow> nat set" where
  "dp_base st = base (fst st)"

definition dp_owned :: "'a \<times> dynamic_memory_pool \<Rightarrow> nat set" where
  "dp_owned st = owned (fst st) \<union> rest (snd st)"

lemma dp_reserve_law:
  assumes "dp_good (g, d)" and "n < 2 * size_bound" and "dp_reserve n d = (Inr a, d')"
  shows "dp_good (g, d') \<and> takes dp_base dp_owned (g, d) (g, d') {a..<a + n}"
proof -
  have n: "n \<le> dp_max_size d - dp_offset d" and a: "a = dp_memory d + dp_offset d"
    and d': "d' = d\<lparr>dp_offset := dp_offset d + n\<rparr>"
    using assms dp_reserve_eq [of d n] by (auto simp: dp_good_def split: if_splits)
  have r: "{a..<a + n} \<union> rest d' = rest d" "{a..<a + n} \<inter> rest d' = {}"
    using n assms(1) by (auto simp: rest_def d' a dp_good_def)
  show ?thesis using assms(1) n r unfolding dp_good_def takes_def dp_base_def dp_owned_def d'
    by (auto simp: d'[symmetric]) (auto simp: d')
qed

lemma dp_grow_law:
  assumes "dp_good (g, d)" and "n < bound - 4112" and "dp_grow alloc ALWAYS nid bcast n (g, d) = (Inr u, g', d')"
  shows "dp_good (g', d') \<and> takes dp_base dp_owned (g, d) (g', d') {} \<and> (\<exists>a d''. dp_reserve n d' = (Inr a, d''))"
proof -
  let ?k = "chunks_for n"
  have n: "n + 4096 \<le> size_bound" using assms(2) bound_size by simp
  note c = chunks_for_eq [OF n]
  obtain a where al: "alloc ?k g = (Inr a, g')" and a: "a \<noteq> 0" and d': "d' = d\<lparr>dp_max_size := ?k, dp_offset := 0, dp_memory := a\<rparr>"
    using assms(3) by (auto simp: dp_grow_def do_grow_def synchronize_def Let_def split: prod.splits sum.splits if_splits argo_error.splits)
  have l: "inv g'" "takes base owned g g' {a..<a + ?k}"
    using alloc [OF _ _ al] assms(1,2) c(3) by (auto simp: dp_good_def)
  have o: "owned g \<subseteq> base g" using owned_base assms(1) by (simp add: dp_good_def)
  have b: "{a..<a + ?k} \<subseteq> base g'" using takes_owned [OF l(2) o] by blast
  then have "a + ?k - 1 \<in> base g'" using c(4) by auto
  then have "a + ?k - 1 < 2 * size_bound" using base_range [OF l(1)] by auto
  then have "a + ?k \<le> 2 * size_bound" using c(4) by linarith
  moreover have r: "rest d' = {a..<a + ?k}" by (simp add: rest_def d')
  ultimately have g': "dp_good (g', d')" using l b a by (auto simp: dp_good_def d' takes_def)
  moreover have "takes dp_base dp_owned (g, d) (g', d') {}"
    using l(2) unfolding takes_def dp_base_def dp_owned_def by (auto simp: r)
  moreover have "\<exists>a d''. dp_reserve n d' = (Inr a, d'')"
    using dp_reserve_eq [of d' n] g' c(2) n by (auto simp: dp_good_def d' size_bound_def)
  ultimately show ?thesis by blast
qed

end

sublocale growing \<subseteq> pool: mempool "dp_ops alloc ALWAYS nid bcast" dp_base dp_owned dp_good "bound - 4112"
proof
  fix mp assume g: "dp_good mp"
  show "dp_owned mp \<subseteq> dp_base mp" using g owned_base by (auto simp: dp_good_def dp_owned_def dp_base_def)
  show "dp_base mp \<subseteq> {0 <..< 2 * size_bound}" using g base_range by (simp add: dp_good_def dp_base_def)
  obtain s d where mp: "mp = (s, d)" by fastforce
  have a: "dp_available d = dp_max_size d - dp_offset d" "dp_available d < 2 * size_bound"
    using g by (auto simp: dp_available_def mp dp_good_def sub64_def wrap64_def size_bound_def)
  then obtain p d' where r: "dp_reserve (dp_available d) d = (Inr p, d')"
    using dp_reserve_eq [of d "dp_available d"] g by (auto simp: mp dp_good_def)
  then show "\<exists>a mp'. op_reserve (dp_ops alloc ALWAYS nid bcast) (op_available (dp_ops alloc ALWAYS nid bcast) mp) mp = (Inr a, mp')
      \<and> dp_good mp' \<and> takes dp_base dp_owned mp mp' {a..<a + op_available (dp_ops alloc ALWAYS nid bcast) mp}"
    using dp_reserve_law [OF g[unfolded mp] a(2) r] by (simp add: mp dp_ops_def)
next
  fix mp n a mp' assume g: "dp_good mp" "n < bound - 4112" "op_reserve (dp_ops alloc ALWAYS nid bcast) n mp = (Inr a, mp')"
  obtain s d where mp: "mp = (s, d)" by fastforce
  have "n < 2 * size_bound" using g(2) bound_size by simp
  then show "dp_good mp' \<and> takes dp_base dp_owned mp mp' {a..<a + n}"
    using g dp_reserve_law [of s d n a] by (auto simp: mp dp_ops_def Let_def split: prod.splits)
next
  fix mp n e mp' assume "op_reserve (dp_ops alloc ALWAYS nid bcast) n mp = (Inl e, mp')"
  then show "e = Bad_alloc \<and> mp' = mp"
    by (cases mp) (auto simp: dp_ops_def dp_reserve_def Let_def split: prod.splits if_splits)
next
  fix mp n u mp' assume g: "dp_good mp" "n < bound - 4112" "op_grow (dp_ops alloc ALWAYS nid bcast) n mp = (Inr u, mp')"
  obtain s d s' d' where mp: "mp = (s, d)" "mp' = (s', d')" by fastforce
  show "dp_good mp' \<and> takes dp_base dp_owned mp mp' {}
      \<and> (\<exists>a mp''. op_reserve (dp_ops alloc ALWAYS nid bcast) n mp' = (Inr a, mp''))"
    using dp_grow_law [of s d n u s' d'] g by (auto simp: mp dp_ops_def)
qed (use bound_size in simp)

end
