(* ===== verification/Allocation.thy ===== *)
theory Allocation
  imports Allocators
begin

text \<open>
  The allocators of a running system: \<^verbatim>\<open>allocators.cpp\<close> and \<^verbatim>\<open>reset_allocators\<close> of \<^verbatim>\<open>argo.cpp\<close> for one
  node, the collective call of all nodes, and what holds of any sequence of allocations and
  deallocations by the nodes. The contract of a pool carries the argument: no block is handed out
  twice, across the three levels of allocators and across the nodes that share the global pool.
\<close>

section \<open>allocators.cpp\<close>

text \<open>
  The allocator objects of one node: the global allocator, the dynamic and the collective allocator
  with their pools (\<^verbatim>\<open>argo.cpp\<close>). The global pool is shared by the nodes.
\<close>

record allocators =
  default_global_allocator :: generic_allocator
  default_dynamic_allocator :: generic_allocator
  default_collective_allocator :: generic_allocator
  dynamic_prepool :: dynamic_memory_pool
  collective_prepool :: dynamic_memory_pool

definition global_allocate ::
  "nat \<Rightarrow> generic_allocator \<times> global_memory_pool \<Rightarrow> (argo_error + nat) \<times> generic_allocator \<times> global_memory_pool" where
  "global_allocate = allocate gm_ops False 1"

definition dynamic_alloc ::
  "nat \<Rightarrow> nat \<Rightarrow> allocators \<times> global_memory_pool \<Rightarrow> (argo_error + nat) \<times> allocators \<times> global_memory_pool" where
  "dynamic_alloc nid sz st =
     (let (N, gm) = st;
          (r, A, (G, gm'), d) =
             allocate (dp_ops global_allocate ALWAYS nid id) True 1 sz
               (default_dynamic_allocator N, (default_global_allocator N, gm), dynamic_prepool N)
      in (r, N\<lparr>default_dynamic_allocator := A, default_global_allocator := G, dynamic_prepool := d\<rparr>, gm'))"

definition dynamic_free :: "nat \<Rightarrow> allocators \<Rightarrow> (argo_error + unit) \<times> allocators" where
  "dynamic_free ptr N =
     (if ptr = 0 then (Inr (), N)
      else let (r, A) = alloc_free True ptr (default_dynamic_allocator N)
           in (r, N\<lparr>default_dynamic_allocator := A\<rparr>))"

text \<open>
  \<^verbatim>\<open>collective_alloc\<close> on one node; \<open>bcast\<close> is the broadcast from node 0. The barrier it starts with does
  not touch the allocators.
\<close>

definition collective_alloc ::
  "nat \<Rightarrow> (nat \<Rightarrow> nat) \<Rightarrow> nat \<Rightarrow> allocators \<times> global_memory_pool
     \<Rightarrow> (argo_error + nat) \<times> allocators \<times> global_memory_pool" where
  "collective_alloc nid bcast sz st =
     (let (N, gm) = st;
          (r, A, (G, gm'), d) =
             allocate (dp_ops global_allocate NODE_ZERO_ONLY nid bcast) False 1 sz
               (default_collective_allocator N, (default_global_allocator N, gm), collective_prepool N)
      in (r, N\<lparr>default_collective_allocator := A, default_global_allocator := G, collective_prepool := d\<rparr>, gm'))"

definition collective_free :: "nat \<Rightarrow> allocators \<Rightarrow> (argo_error + unit) \<times> allocators" where
  "collective_free ptr N =
     (if ptr = 0 then (Inr (), N)
      else let (r, A) = alloc_free False ptr (default_collective_allocator N)
           in (r, N\<lparr>default_collective_allocator := A\<rparr>))"

text \<open>\<^verbatim>\<open>reset_allocators\<close> of \<^verbatim>\<open>argo.cpp\<close> on one node, and on the shared pool.\<close>

definition reset_allocators :: "nat \<Rightarrow> nat \<Rightarrow> global_memory_pool \<Rightarrow> allocators \<times> global_memory_pool" where
  "reset_allocators global_base global_size gm =
     (\<lparr>default_global_allocator = set_mempool generic_allocator_new,
       default_dynamic_allocator = set_mempool generic_allocator_new,
       default_collective_allocator = set_mempool generic_allocator_new,
       dynamic_prepool = dynamic_memory_pool_new, collective_prepool = dynamic_memory_pool_new\<rparr>,
      gm_reset global_base global_size gm)"

text \<open>
  The collective call of all nodes: node 0 runs with its own pointer, the others receive the pointer
  node 0 broadcasts, which is the \<^verbatim>\<open>memory\<close> of its pool after the call.
\<close>

definition collective_alloc_all ::
  "nat \<Rightarrow> (nat \<Rightarrow> allocators) \<times> global_memory_pool
     \<Rightarrow> (nat \<Rightarrow> argo_error + nat) \<times> (nat \<Rightarrow> allocators) \<times> global_memory_pool" where
  "collective_alloc_all sz st =
     (let (N, gm) = st;
          (r0, N0, gm') = collective_alloc 0 id sz (N 0, gm);
          root = dp_memory (collective_prepool N0);
          other = (\<lambda>k. collective_alloc k (\<lambda>_. root) sz (N k, gm'))
      in (\<lambda>k. if k = 0 then r0 else fst (other k),
          \<lambda>k. if k = 0 then N0 else fst (snd (other k)), gm'))"

section \<open>The dynamic allocator of a node\<close>

interpretation node_pool: growing "allocate gm_ops False 1" gm.taken gm.held "gm.good lo cap" "size_bound - 16" nid bcast
  for lo cap nid :: nat and bcast :: "nat \<Rightarrow> nat"
  by (intro growing.intro gm.plain.allocator_axioms)

definition node_bound :: nat where
  "node_bound = size_bound - 4144"

text \<open>What a node holds and has not handed out, and the invariant of its allocators.\<close>

definition node_held :: "allocators \<Rightarrow> nat set" where
  "node_held N = free_bytes (default_global_allocator N) \<union> rest (dynamic_prepool N)
     \<union> free_bytes (default_dynamic_allocator N)"

definition node_good :: "nat \<Rightarrow> nat \<Rightarrow> allocators \<Rightarrow> global_memory_pool \<Rightarrow> bool" where
  "node_good lo cap N gm \<longleftrightarrow> gm_inv lo cap gm \<and> node_held N \<subseteq> gm_base gm
     \<and> free_disjoint (default_global_allocator N) \<and> free_disjoint (default_dynamic_allocator N)
     \<and> free_bytes (default_global_allocator N) \<inter> rest (dynamic_prepool N) = {}
     \<and> free_bytes (default_dynamic_allocator N) \<inter> (free_bytes (default_global_allocator N) \<union> rest (dynamic_prepool N)) = {}
     \<and> dp_offset (dynamic_prepool N) \<le> dp_max_size (dynamic_prepool N)
     \<and> dp_max_size (dynamic_prepool N) < 2 * size_bound
     \<and> dp_memory (dynamic_prepool N) + dp_max_size (dynamic_prepool N) \<le> 2 * size_bound"

definition node_state where
  "node_state N gm = (default_dynamic_allocator N, (default_global_allocator N, gm), dynamic_prepool N)"

lemma node_good_pool: "node_good lo cap N gm = node_pool.pool.good lo cap (node_state N gm)"
  by (auto simp: node_good_def node_held_def node_state_def node_pool.pool.good_def node_pool.dp_good_def gm.good_def
      gm.taken_def gm.held_def node_pool.dp_base_def node_pool.dp_owned_def)





section \<open>Dynamic allocation by all nodes\<close>

text \<open>
  The nodes allocate and free in any order. A live block is its owner, address and size. A block is
  freed by its owner; the step asks that the size on record is the size of the block, which
  \<open>keep_leftover\<close> does not guarantee.
\<close>

type_synonym heap_state = "(nat \<Rightarrow> allocators) \<times> global_memory_pool \<times> (nat \<times> nat \<times> nat) set"


definition block :: "nat \<times> nat \<times> nat \<Rightarrow> nat set" where
  "block b = (case b of (r, a, k) \<Rightarrow> {a..<a + k})"

definition heap_inv :: "nat \<Rightarrow> nat \<Rightarrow> heap_state \<Rightarrow> bool" where
  "heap_inv lo cap st \<longleftrightarrow> (case st of (N, gm, L) \<Rightarrow> (\<forall>r. node_good lo cap (N r) gm)
     \<and> (\<forall>r s. r \<noteq> s \<longrightarrow> node_held (N r) \<inter> node_held (N s) = {})
     \<and> (\<forall>b \<in> L. block b \<subseteq> gm_base gm \<and> (\<forall>r. block b \<inter> node_held (N r) = {}))
     \<and> (\<forall>b \<in> L. \<forall>c \<in> L. b \<noteq> c \<longrightarrow> block b \<inter> block c = {}))"




text \<open>The state after \<^verbatim>\<open>argo::init\<close>.\<close>

lemma reset_heap_inv:
  assumes "0 < b" and "b < size_bound" and "reserved \<le> sz" and "sz < size_bound"
    and "reset_allocators b sz gm0 = (N, gm)"
  shows "heap_inv b (sz - reserved) (\<lambda>_. N, gm, {})"
proof -
  have "sub64 sz reserved = sz - reserved" using assms(3,4) by (intro sub64_id) (simp_all add: size_bound_def)
  then have gm: "gm = gm0\<lparr>gm_memory := b, gm_max_size := sz - reserved, gm_offset := 0\<rparr>"
    and N: "free_bytes (default_global_allocator N) = {}" "free_bytes (default_dynamic_allocator N) = {}"
    "free_disjoint (default_global_allocator N)" "free_disjoint (default_dynamic_allocator N)"
    "dynamic_prepool N = dynamic_memory_pool_new"
    using assms(5) by (auto simp: reset_allocators_def gm_reset_def free_bytes_def free_disjoint_def free_blocks_def
        set_mempool_def generic_allocator_new_def)
  have "node_held N = {}" by (simp add: node_held_def N rest_def dynamic_memory_pool_new_def)
  then show ?thesis
    using assms(1,2,4) by (simp add: heap_inv_def node_good_def gm_inv_def bump_ok_def gm gm_base_def N rest_def dynamic_memory_pool_new_def)
qed

section \<open>Runs of allocator calls\<close>



text \<open>A system with a global memory of three pages and the reserved one, and one with a single page.\<close>

definition small_heap :: "nat \<Rightarrow> allocators \<times> global_memory_pool" where
  "small_heap pages = reset_allocators 4096 ((pages + 1) * 4096) (global_memory_pool_new 4096 ((pages + 1) * 4096))"

lemmas alloc_eval = dynamic_alloc_def dynamic_free_def global_allocate_def allocate_def allocate_more_def
  keep_leftover_def deallocate_nosync_def insert_size_def lock_op_def unlock_op_def alloc_free_def
  align_up_def max_align_def dp_ops_def dp_reserve_def dp_grow_def dp_available_def do_grow_def synchronize_def
  chunks_for_def chunk_size_def granularity_def gm_ops_def gm_reserve_def gm_grow_def gm_available_def
  small_heap_def reset_allocators_def gm_reset_def global_memory_pool_new_def generic_allocator_new_def
  set_mempool_def dynamic_memory_pool_new_def reserved_def
  add64_def sub64_def mul64_def wrap64_def Let_def

section \<open>Allocation failure\<close>

lemma global_allocate_fail:
  assumes g: "gm.good lo cap (G, gm)" and m: "has_mempool G" and n: "n < size_bound - 16"
    and res: "allocate gm_ops False 1 n (G, gm) = (Inl e, G', gm')"
  shows "e = Bad_alloc \<and> gm_available gm' = 0"
proof -
  have nb: "n < size_bound" using n by simp
  have m1: "mul64 n (Suc 0) = n" using nb by (simp add: mul64_def wrap64_def size_bound_def)
  have fl: "freelist G (align_up n max_align) = []"
    using res by (cases "freelist G (align_up n max_align)") (auto simp: allocate_def lock_op_def m1)
  obtain e1 gm1 where r: "gm_reserve (align_up n max_align) gm = (Inl e1, gm1)"
    using res m fl by (cases "gm_reserve (align_up n max_align) gm"; cases "fst (gm_reserve (align_up n max_align) gm)")
      (auto simp: allocate_def lock_op_def gm_ops_def m1)
  have "e1 = Bad_alloc" "gm1 = gm" using r by (auto simp: gm_reserve_def split: if_splits)
  then have more: "allocate_more gm_ops False (align_up n max_align) (align_up n max_align) (G, gm) = (Inl e, G', gm')"
    using res m fl r by (simp add: allocate_def Let_def lock_op_def gm_ops_def m1)
  obtain G1 gm2 where k: "keep_leftover gm_ops (align_up n max_align) (G, gm) = (Inr (), G1, gm2)"
    using gm.leftover_step [OF g] by blast
  have e: "e = Bad_alloc" and gm': "gm' = gm2" using more k by (auto simp: allocate_more_def gm_ops_def gm_grow_def)
  have i: "gm_inv lo cap gm" using g by (simp add: gm.good_def)
  have "gm_available gm2 = 0"
  proof (cases "gm_available gm > 0")
    case True
    have b: "gm_available gm < size_bound" using gm_available_eq [OF i] by simp
    have "gm_reserve (gm_available gm) gm
        = (Inr (gm_memory gm + gm_offset gm), gm\<lparr>gm_offset := gm_offset gm + gm_available gm\<rparr>)"
      using gm_reserve_eq [OF i b] gm_available_eq(1) [OF i] by simp
    then have "gm2 = gm\<lparr>gm_offset := gm_offset gm + gm_available gm\<rparr>"
      using k True by (auto simp: keep_leftover_def Let_def gm_ops_def)
    then show ?thesis using gm_available_eq(1) [OF i] i by (simp add: gm_available_def sub64_def wrap64_def gm_inv_def bump_ok_def)
  next
    case False
    then show ?thesis using k by (simp add: keep_leftover_def gm_ops_def)
  qed
  with e gm' show ?thesis by simp
qed

text \<open>The dynamic pool after a failed \<^verbatim>\<open>grow\<close>: an empty chunk at the null pointer.\<close>

lemma dp_grow_fail:
  assumes g: "gm.good lo cap (G, gm)" and m: "has_mempool G" and n: "n < size_bound - 4128"
    and res: "dp_grow global_allocate ALWAYS nid id n ((G, gm), d) = (Inl e, (G', gm'), d')"
  shows "e = Bad_alloc \<and> gm_available gm' = 0 \<and> d' = d\<lparr>dp_max_size := chunks_for n, dp_offset := 0, dp_memory := 0\<rparr>"
proof -
  let ?k = "chunks_for n"
  have c: "?k < size_bound - 16" and c0: "0 < ?k" using chunks_for_eq(3,4) [of n] n by (simp_all add: size_bound_def)
  show ?thesis
  proof (cases "global_allocate ?k (G, gm)")
    case (fields r G1 gm1)
    show ?thesis
    proof (cases r)
      case (Inl e1)
      have "e1 = Bad_alloc" "gm_available gm1 = 0"
        using global_allocate_fail [OF g m c, of e1 G1 gm1] fields Inl by (simp_all add: global_allocate_def)
      then show ?thesis using res fields Inl by (auto simp: dp_grow_def do_grow_def synchronize_def Let_def)
    next
      case (Inr a)
      have al: "allocate gm_ops False 1 ?k (G, gm) = (Inr a, G1, gm1)" using fields Inr by (simp add: global_allocate_def)
      have l: "gm.good lo cap (G1, gm1)" "takes gm.taken gm.held (G, gm) (G1, gm1) {a..<a + ?k}"
        using gm.plain.alloc [OF g c al] by simp_all
      have "{a..<a + ?k} \<subseteq> gm.taken (G1, gm1)"
        using takes_owned [OF l(2) gm.good_held [OF g]] by blast
      then have "a \<in> {0 <..< 2 * size_bound}"
        using gm.plain.base_range [OF l(1)] c0 by (meson atLeastLessThan_iff less_add_same_cancel1 order_refl subsetD)
      then show ?thesis using res fields Inr by (auto simp: dp_grow_def do_grow_def synchronize_def Let_def)
    qed
  qed
qed

lemma dynamic_alloc_fail:
  assumes g: "node_good lo cap N gm" and n: "n < node_bound"
    and mp: "has_mempool (default_dynamic_allocator N)" "has_mempool (default_global_allocator N)"
    and nl: "\<not> alloc_lock (default_dynamic_allocator N)"
    and res: "dynamic_alloc nid n (N, gm) = (Inl e, N', gm')"
  shows "e = Bad_alloc" and "gm_available gm' = 0" and "\<not> alloc_lock (default_dynamic_allocator N')"
    and "has_mempool (default_dynamic_allocator N')" and "dp_memory (dynamic_prepool N') = 0"
    and "dp_offset (dynamic_prepool N') = 0" and "4096 \<le> dp_max_size (dynamic_prepool N')"
proof -
  let ?P = "dp_ops global_allocate ALWAYS nid id" and ?k = "align_up n max_align"
  let ?A = "lock_op True (default_dynamic_allocator N)" and ?mp = "((default_global_allocator N, gm), dynamic_prepool N)"
  have P: "?P = dp_ops (allocate gm_ops False 1) ALWAYS nid id" by (simp add: global_allocate_def [abs_def])
  have pg: "node_pool.pool.good lo cap (?A, ?mp)"
    using g node_pool.pool.good_cong(1) [of ?A "default_dynamic_allocator N"] by (simp add: node_good_pool node_state_def)
  obtain A G d where al: "allocate ?P True 1 n (default_dynamic_allocator N, ?mp) = (Inl e, A, (G, gm'), d)"
    and N': "N' = N\<lparr>default_dynamic_allocator := A, default_global_allocator := G, dynamic_prepool := d\<rparr>"
    using res by (auto simp: dynamic_alloc_def Let_def split: prod.splits)
  have nb: "n < size_bound" using n by (simp add: node_bound_def)
  have m1: "mul64 n (Suc 0) = n" using nb by (simp add: mul64_def wrap64_def size_bound_def)
  have k: "?k < size_bound - 4128" using align_up_eq(3) [OF nb] n by (simp add: node_bound_def size_bound_def)
  have fl: "freelist (default_dynamic_allocator N) ?k = []"
    using al nl by (cases "freelist (default_dynamic_allocator N) ?k") (auto simp: allocate_def lock_op_def m1)
  obtain e1 where r: "dp_reserve ?k (dynamic_prepool N) = (Inl e1, dynamic_prepool N)"
    using al mp nl fl by (auto simp: allocate_def Let_def lock_op_def dp_ops_def m1 dp_reserve_def split: if_splits)
  then have "e1 = Bad_alloc" by (auto simp: dp_reserve_def split: if_splits)
  then have more: "allocate_more ?P True ?k ?k (?A, ?mp) = (Inl e, A, (G, gm'), d)"
    using al mp nl fl r by (simp add: allocate_def Let_def lock_op_def dp_ops_def m1)
  obtain A1 mp1 where l: "keep_leftover ?P ?k (?A, ?mp) = (Inr (), A1, mp1)" "node_pool.pool.good lo cap (A1, mp1)"
      "has_mempool A1"
    using node_pool.pool.leftover_step [OF pg] mp(1) unfolding P by (fastforce simp: lock_op_def)
  have G1: "fst mp1 = (default_global_allocator N, gm)"
    using l(1) by (auto simp: keep_leftover_def dp_ops_def Let_def split: if_splits prod.splits sum.splits)
  obtain d1 where mp1: "mp1 = ((default_global_allocator N, gm), d1)" using G1 by (cases mp1) auto
  have gg: "gm.good lo cap (default_global_allocator N, gm)"
    using l(2) by (simp add: mp1 node_pool.pool.good_def node_pool.dp_good_def)
  show "e = Bad_alloc" "gm_available gm' = 0" "\<not> alloc_lock (default_dynamic_allocator N')"
    "has_mempool (default_dynamic_allocator N')" "dp_memory (dynamic_prepool N') = 0"
    "dp_offset (dynamic_prepool N') = 0" "4096 \<le> dp_max_size (dynamic_prepool N')"
  proof -
    obtain rr G2 gm2 d2 where gr: "op_grow ?P ?k mp1 = (rr, (G2, gm2), d2)" by (metis prod_cases3 surj_pair)
    obtain e2 where rr: "rr = Inl e2"
    proof (cases rr)
      case (Inr u)
      have "\<exists>a mp''. op_reserve ?P ?k ((G2, gm2), d2) = (Inr a, mp'')"
        using node_pool.pool.grow [of lo cap mp1 ?k nid id u] l(2) k gr Inr
        by (simp add: P node_pool.pool.good_def size_bound_def)
      then show ?thesis using more l(1) gr Inr by (auto simp: allocate_more_def)
    qed
    have f: "e2 = Bad_alloc" "gm_available gm2 = 0" "d2 = d1\<lparr>dp_max_size := chunks_for ?k, dp_offset := 0, dp_memory := 0\<rparr>"
      using dp_grow_fail [OF gg mp(2) k, of nid d1 e2 G2 gm2 d2] gr rr by (simp_all add: mp1 dp_ops_def)
    have o: "e = Bad_alloc" "A = unlock_op True A1" "gm' = gm2" "d = d2"
      using more l(1) gr rr f(1) by (auto simp: allocate_more_def)
    have "?k + 4096 \<le> size_bound" using k by (simp add: size_bound_def)
    from chunks_for_eq(1,4) [OF this] have "4096 \<le> chunks_for ?k" by simp
    then show "e = Bad_alloc" "gm_available gm' = 0" "\<not> alloc_lock (default_dynamic_allocator N')"
      "has_mempool (default_dynamic_allocator N')" "dp_memory (dynamic_prepool N') = 0"
      "dp_offset (dynamic_prepool N') = 0" "4096 \<le> dp_max_size (dynamic_prepool N')"
      using o f l(3) by (simp_all add: N' unlock_op_def)
  qed
qed

section \<open>Agreement of the nodes on collective allocations\<close>

definition same_collective :: "(nat \<Rightarrow> allocators) \<Rightarrow> bool" where
  "same_collective N \<longleftrightarrow> (\<forall>k. default_collective_allocator (N k) = default_collective_allocator (N 0)
     \<and> collective_prepool (N k) = collective_prepool (N 0))"

lemma collective_follows:
  assumes "allocate (dp_ops alloc NODE_ZERO_ONLY 0 id) False 1 sz (A, g, d) = (Inr a, A', g', d')" and "k \<noteq> 0"
  shows "allocate (dp_ops alloc NODE_ZERO_ONLY k (\<lambda>_. dp_memory d')) False 1 sz (A, h, d) = (Inr a, A', h, d')"
  using assms
  by (auto simp: allocate_def allocate_more_def keep_leftover_def dp_ops_def dp_grow_def dp_reserve_def do_grow_def
      synchronize_def Let_def split: list.splits if_splits sum.splits prod.splits argo_error.splits)

lemma collective_agreement_all:
  assumes "same_collective N" and "collective_alloc_all sz (N, gm) = (r, N', gm')" and "r 0 = Inr a"
  shows "r k = Inr a \<and> same_collective N'"
proof -
  let ?d = "collective_prepool (N 0)" and ?A = "default_collective_allocator (N 0)"
  obtain A G d where al: "allocate (dp_ops global_allocate NODE_ZERO_ONLY 0 id) False 1 sz
        (?A, (default_global_allocator (N 0), gm), ?d) = (Inr a, A, (G, gm'), d)"
    and N0: "default_collective_allocator (N' 0) = A" "collective_prepool (N' 0) = d"
    using assms(2,3) by (auto simp: collective_alloc_all_def collective_alloc_def Let_def split: prod.splits)
  have f: "collective_alloc k (\<lambda>_. dp_memory d) sz (N k, gm')
      = (Inr a, (N k)\<lparr>default_collective_allocator := A, collective_prepool := d\<rparr>, gm')" if "k \<noteq> 0" for k
  proof -
    have "default_collective_allocator (N k) = ?A" "collective_prepool (N k) = ?d"
      using assms(1) by (simp_all add: same_collective_def)
    then show ?thesis using collective_follows [OF al that, of "(default_global_allocator (N k), gm')"]
      by (simp add: collective_alloc_def Let_def)
  qed
  have "r k = (if k = 0 then Inr a else fst (collective_alloc k (\<lambda>_. dp_memory d) sz (N k, gm')))"
    "k \<noteq> 0 \<Longrightarrow> N' k = fst (snd (collective_alloc k (\<lambda>_. dp_memory d) sz (N k, gm')))" for k
    using assms(2,3) N0(2) by (auto simp: collective_alloc_all_def Let_def split: prod.splits)
  then have r: "\<And>k. r k = (if k = 0 then Inr a else fst (collective_alloc k (\<lambda>_. dp_memory d) sz (N k, gm')))"
    and n: "\<And>k. k \<noteq> 0 \<Longrightarrow> N' k = fst (snd (collective_alloc k (\<lambda>_. dp_memory d) sz (N k, gm')))" by auto
  have "r k = Inr a" using r [of k] f [of k] by (cases "k = 0") simp_all
  moreover have "same_collective N'" unfolding same_collective_def
  proof (intro allI)
    fix k
    show "default_collective_allocator (N' k) = default_collective_allocator (N' 0)
        \<and> collective_prepool (N' k) = collective_prepool (N' 0)"
      using n [of k] f [of k] N0 by (cases "k = 0") simp_all
  qed
  ultimately show ?thesis by blast
qed

section \<open>Properties\<close>

lemma small_heap_inv: "pages < 2 ^ 40 \<Longrightarrow> small_heap pages = (N, gm) \<Longrightarrow> heap_inv 4096 (pages * 4096) (\<lambda>_. N, gm, {})"
  using reset_heap_inv [of 4096 "(pages + 1) * 4096" _ N gm]
  by (simp add: small_heap_def size_bound_def reserved_def granularity_def)





text \<open>
  When the memory runs out, \<^verbatim>\<open>dynamic_alloc\<close> throws \<^verbatim>\<open>std::bad_alloc\<close>, the global pool has
  nothing left, whatever its rest was before, and the node's pool is left with a chunk at the null
  pointer: the next request that finds no free block of its size returns the null pointer as an
  ordinary result.
\<close>

lemma failed_alloc_leaves_null_chunk:
  assumes "node_good lo cap N gm" and "n < node_bound"
    and "has_mempool (default_dynamic_allocator N)" and "has_mempool (default_global_allocator N)"
    and "\<not> alloc_lock (default_dynamic_allocator N)"
    and "dynamic_alloc nid n (N, gm) = (Inl e, N', gm')"
    and "m \<le> 4080" and "freelist (default_dynamic_allocator N') (align_up m max_align) = []"
  shows "e = Bad_alloc \<and> gm_available gm' = 0 \<and> fst (dynamic_alloc nid m (N', gm')) = Inr 0"
proof -
  note f = dynamic_alloc_fail [OF assms(1-6)]
  have m: "m < size_bound" "mul64 m (Suc 0) = m" using assms(7) by (simp_all add: mul64_def wrap64_def size_bound_def)
  have k: "align_up m max_align \<le> 4096" using align_up_eq(3) [OF m(1)] assms(7) by simp
  have "dp_reserve (align_up m max_align) (dynamic_prepool N')
      = (Inr 0, dynamic_prepool N'\<lparr>dp_offset := add64 0 (align_up m max_align)\<rparr>)"
    using k f(5-7) by (simp add: dp_reserve_def add64_def wrap64_def)
  then have "fst (dynamic_alloc nid m (N', gm')) = Inr 0"
    using f(3,4) assms(8) m(2) by (simp add: dynamic_alloc_def allocate_def lock_op_def dp_ops_def Let_def)
  with f(1,2) show ?thesis by blast
qed

lemma failed_alloc_leaves_null_chunk_example:
  "\<exists>N gm. fst (dynamic_alloc 0 5000 (small_heap 1)) = Inl Bad_alloc \<and> snd (dynamic_alloc 0 5000 (small_heap 1)) = (N, gm)
     \<and> gm_available gm = 0 \<and> fst (dynamic_alloc 0 16 (N, gm)) = Inr 0"
proof -
  obtain N0 gm0 where s: "small_heap 1 = (N0, gm0)" by fastforce
  have N0: "has_mempool (default_dynamic_allocator N0)" "has_mempool (default_global_allocator N0)"
    "\<not> alloc_lock (default_dynamic_allocator N0)"
    using s by (auto simp: alloc_eval)
  have g: "node_good 4096 4096 N0 gm0" using small_heap_inv [OF _ s] by (simp add: heap_inv_def)
  have al: "align_up 16 max_align = 16" by (simp add: alloc_eval)
  obtain N gm where r: "dynamic_alloc 0 5000 (N0, gm0) = (Inl Bad_alloc, N, gm)"
    and f: "freelist (default_dynamic_allocator N) 16 = []"
    unfolding s [symmetric] by (simp add: alloc_eval cong: let_weak_cong)
  note w = failed_alloc_leaves_null_chunk [OF g _ N0 r, of 16]
  have "gm_available gm = 0" "fst (dynamic_alloc 0 16 (N, gm)) = Inr 0"
    using w f by (simp_all add: al node_bound_def size_bound_def)
  then show ?thesis using r unfolding s by auto
qed

text \<open>
  Claim C17. The nodes agree on collective allocations: if every node has the same collective
  allocator and pool, and node 0's call succeeds, then the collective call returns the same pointer on
  every node and leaves the nodes in agreement.
\<close>

theorem collective_agreement:
  assumes "same_collective N" and "collective_alloc_all sz (N, gm) = (r, N', gm')" and "r 0 = Inr a"
  shows "r k = Inr a \<and> same_collective N'"
  by (rule collective_agreement_all [OF assms])

theorem collective_agreement_witness:
  "\<exists>r N gm. collective_alloc_all 100 (\<lambda>_. fst (small_heap 3), snd (small_heap 3)) = (r, N, gm)
     \<and> r 7 = Inr 4096 \<and> same_collective N"
proof -
  obtain r N gm where c: "collective_alloc_all 100 (\<lambda>_. fst (small_heap 3), snd (small_heap 3)) = (r, N, gm)"
    by (metis prod_cases3)
  have s: "same_collective (\<lambda>_. fst (small_heap 3))" by (simp add: same_collective_def)
  have "fst (collective_alloc_all 100 (\<lambda>_. fst (small_heap 3), snd (small_heap 3))) 0 = Inr 4096"
    by (simp add: collective_alloc_all_def collective_alloc_def alloc_eval cong: let_weak_cong)
  then have "r 0 = Inr 4096" by (simp add: c)
  from collective_agreement [OF s c this] show ?thesis using c by blast
qed



end
