(* ===== verification/Argo_Api.thy ===== *)
theory Argo_Api
  imports Virtual_Memory Allocation
begin

text \<open>
  The interface to the application, \<^verbatim>\<open>src/argo.cpp\<close> and \<^verbatim>\<open>src/argo.hpp\<close>: \<^verbatim>\<open>argo::init\<close> with its checks of
  the environment, \<^verbatim>\<open>argo::reset\<close> and \<^verbatim>\<open>argo::finalize\<close>, the queries on addresses, and the dispatch of
  signals in \<^verbatim>\<open>src/signal/signal.hpp\<close>. Here the environment, the backend and the allocators meet.
\<close>

section \<open>Initialisation\<close>

text \<open>The sizes \<^verbatim>\<open>argo::init\<close> asks the backend for, and the checks it makes before.\<close>

definition init_request :: "env \<Rightarrow> nat \<Rightarrow> nat \<Rightarrow> argo_error + nat \<times> nat" where
  "init_request e argo_size cache_size =
     bindE (if argo_size = 0 then env_memory_size e else Inr argo_size) (\<lambda>requested_argo_size.
     let requested_argo_size = add64 requested_argo_size reserved in
     bindE (if cache_size = 0 then env_cache_size e else Inr cache_size) (\<lambda>requested_cache_size.
     bindE (env_allocation_policy e) (\<lambda>policy.
       if \<not> policy \<le> 4 then Inl (Invalid_argument ''Invalid policy (must be a number between 0 and 4)'') else
     bindE (env_allocation_block_size e) (\<lambda>block_size.
       if block_size = 0 then Inl (Invalid_argument ''Invalid page block size (must be a number bigger than 0)'') else
     bindE (env_load_size e) (\<lambda>load_size.
       if load_size = 0 then Inl (Invalid_argument ''Invalid load size (must be a number bigger than 0)'') else
     bindE (env_mpi_windows_per_node e) (\<lambda>windows.
       if windows = 0 then Inl (Invalid_argument ''Invalid number of MPI windows (must be a number bigger than 0)'') else
     bindE (env_print_statistics e) (\<lambda>level.
       if level > 3 then Inl (Invalid_argument ''Invalid statistics level (must be a number between 0 and 3)'') else
       Inr (requested_argo_size, requested_cache_size))))))))"

text \<open>
  The running system: the configuration and the state of the backend, the allocators of every node and
  the global pool. \<^verbatim>\<open>reset\<close> is the collective call of all nodes; the two barriers in the middle are those
  of the reset of the global pool.
\<close>

type_synonym argo_system = "swdsm_config \<times> cluster \<times> (nat \<Rightarrow> allocators) \<times> global_memory_pool"

definition argo_reset ::
  "ext \<Rightarrow> swdsm_config \<Rightarrow> nat list \<Rightarrow> cluster \<times> global_memory_pool
     \<Rightarrow> argo_error + cluster \<times> (nat \<Rightarrow> allocators) \<times> global_memory_pool" where
  "argo_reset E c ns st =
     (let (s, gm) = st in
      bindE (argo_reset_coherence E c ns s) (\<lambda>s.
      bindE (swdsm_argo_barrier E c ns upgrade_none s) (\<lambda>s.
      bindE (swdsm_argo_barrier E c ns upgrade_none s) (\<lambda>s.
      let (N, gm) = reset_allocators (startAddr c) (size_of_all c) gm in
      bindE (swdsm_argo_barrier E c ns upgrade_none s) (\<lambda>s. Inr (s, (\<lambda>_. N), gm))))))"

text \<open>\<^verbatim>\<open>vm::init\<close> on every node; \<open>procs\<close> are the processes before.\<close>

fun vm_init_all :: "vm_ops \<Rightarrow> nat list \<Rightarrow> (nat \<Rightarrow> process) \<Rightarrow> argo_error + (nat \<Rightarrow> vm_state)" where
  "vm_init_all V [] procs = Inr (\<lambda>n. (vm_vars_init, procs n))"
| "vm_init_all V (n # ns) procs =
     bindE (op_init V (vm_vars_init, procs n)) (\<lambda>st. bindE (vm_init_all V ns procs) (\<lambda>f. Inr (f(n := st))))"

text \<open>
  \<open>argo_init\<close> is the collective call of all nodes. \<open>P\<close> holds what the build and the machine decide;
  its environment and start address are replaced by what is read here. \<open>pol\<close> is the policy object of
  the configuration and \<open>touched\<close>, \<open>copy\<close> are the contents of fresh allocations; the mappings that
  \<^verbatim>\<open>argo_initialize\<close> makes are those of \<open>vm_setup\<close>. The constructor of the global pool ends with a barrier.
\<close>

definition argo_init ::
  "ext \<Rightarrow> vm_ops \<Rightarrow> (nat \<Rightarrow> process) \<Rightarrow> init_params \<Rightarrow> (init_params \<Rightarrow> nat \<Rightarrow> dist_ops) \<Rightarrow> (nat \<Rightarrow> nat \<Rightarrow> bool)
     \<Rightarrow> (nat \<Rightarrow> nat \<Rightarrow> byte) \<Rightarrow> (string \<Rightarrow> string option) \<Rightarrow> nat \<Rightarrow> nat \<Rightarrow> argo_error + argo_system" where
  "argo_init E V procs P pol touched copy getenv argo_size cache_size =
     bindE (env_init getenv) (\<lambda>e.
     bindE (vm_init_all V [0..<p_numtasks P] procs) (\<lambda>vms.
     bindE (init_request e argo_size cache_size) (\<lambda>(asz, csz).
     let P = P\<lparr>p_env := e, p_start := op_start V (fst (vms 0))\<rparr> in
     bindE (argo_initialize E P (pol P asz) touched copy asz csz) (\<lambda>(c, s).
     bindE (swdsm_argo_barrier E c [0..<numtasks c] upgrade_none s) (\<lambda>s.
     bindE (argo_reset E c [0..<numtasks c] (s, global_memory_pool_new (startAddr c) (size_of_all c)))
       (\<lambda>(s, N, gm). Inr (c, s, N, gm)))))))"

text \<open>\<^verbatim>\<open>finalize\<close> deletes the global pool, whose destructor finalizes the backend.\<close>

definition api_finalize :: "ext \<Rightarrow> argo_system \<Rightarrow> argo_error + cluster" where
  "api_finalize E sys = (case sys of (c, s, N, gm) \<Rightarrow> argo_finalize E c [0..<numtasks c] s)"

section \<open>Queries\<close>

definition is_argo_address :: "swdsm_config \<Rightarrow> nat \<Rightarrow> bool" where
  "is_argo_address c addr \<longleftrightarrow> (let argo_end = add64 (startAddr c) (size_of_all c) in addr \<ge> startAddr c \<and> addr < argo_end)"

definition api_get_homenode :: "dist_ops \<Rightarrow> nat \<Rightarrow> argo_error + nat" where
  "api_get_homenode pol addr =
     bindE (global_ptr_new pol addr False False) (\<lambda>gptr. bindE (gp_peek_node pol gptr) (\<lambda>(h, _). Inr h))"

definition get_block_size :: "env \<Rightarrow> base_distribution \<Rightarrow> argo_error + nat" where
  "get_block_size e D =
     bindE (env_allocation_policy e) (\<lambda>pol. bindE (env_allocation_block_size e) (\<lambda>bs. Inr (policy_block_size pol bs D)))"

section \<open>signal.hpp\<close>

text \<open>
  A \<^verbatim>\<open>struct sigaction\<close>: the two special values of \<^verbatim>\<open>sa_handler\<close>, a handler of one or of three arguments
  (\<^verbatim>\<open>SA_SIGINFO\<close>), and \<^verbatim>\<open>argo_signal_handler\<close> itself. A static object of this type is all zero, which is
  \<open>SIG_DFL\<close>. The state is the action the operating system has for the signal and the two static
  members of the class.
\<close>

datatype 'h sig_handler = SIG_DFL | SIG_IGN | Sa_handler 'h | Sa_sigaction 'h | Argo_dispatch

record 'h signal_state =
  os_handler :: "'h sig_handler"
  argo_handler :: "'h option"
  application_handler :: "'h sig_handler"

definition msg_argo_unitialized :: string where
  "msg_argo_unitialized =
     ''ArgoDSM must be configured to capture a signal before application handlers can be installed''"

definition install_argo_handler :: "'h \<Rightarrow> 'h signal_state \<Rightarrow> 'h signal_state" where
  "install_argo_handler h s =
     s\<lparr>argo_handler := Some h, application_handler := os_handler s, os_handler := Argo_dispatch\<rparr>"

definition install_application_handler ::
  "'h sig_handler \<Rightarrow> 'h signal_state \<Rightarrow> argo_error + 'h sig_handler \<times> 'h signal_state" where
  "install_application_handler h s =
     (if argo_handler s = None then Inl (Runtime_error msg_argo_unitialized)
      else Inr (application_handler s, s\<lparr>application_handler := h\<rparr>))"

text \<open>
  \<^verbatim>\<open>argo_signal_handler\<close>: the handler that is called for a signal at the address \<open>addr\<close>. The special
  values are called like functions, and the dispatcher as handler of the application calls itself
  with the same arguments for ever.
\<close>

definition argo_signal_handler :: "nat \<Rightarrow> nat \<Rightarrow> nat \<Rightarrow> 'h signal_state \<Rightarrow> argo_error + 'h sig_handler" where
  "argo_signal_handler start sz addr s =
     (if addr < start \<or> addr \<ge> add64 start sz then
        (case application_handler s of
           Sa_sigaction h \<Rightarrow> Inr (Sa_sigaction h)
         | Argo_dispatch \<Rightarrow> Inl Diverges
         | Sa_handler h \<Rightarrow> Inr (Sa_handler h)
         | _ \<Rightarrow> Inl (Undefined_behaviour ''call of SIG_DFL or SIG_IGN''))
      else (case argo_handler s of
              Some h \<Rightarrow> Inr (Sa_sigaction h)
            | None \<Rightarrow> Inl (Undefined_behaviour ''call of a null pointer'')))"

section \<open>What initialisation establishes\<close>

lemma init_request_ok:
  assumes "is_initialized e" and "value_allocation_policy e \<le> 4" and "value_allocation_block_size e \<noteq> 0"
    and "value_load_size e \<noteq> 0" and "value_mpi_windows_per_node e \<noteq> 0" and "value_print_statistics e \<le> 3"
  shows "init_request e a b = Inr (add64 (if a = 0 then value_memory_size e else a) reserved,
      if b = 0 then value_cache_size e else b)"
  using assms by (simp add: init_request_def env_memory_size_def env_cache_size_def env_allocation_policy_def
      env_allocation_block_size_def env_load_size_def env_mpi_windows_per_node_def env_print_statistics_def
      assert_initialized_def Let_def)




lemma env_init_initialized: "env_init getenv = Inr e \<Longrightarrow> is_initialized e"
  by (auto simp: env_init_def bindE_eq_Inr_conv)

section \<open>Properties\<close>


definition default_env :: env where
  "default_env = \<lparr>value_memory_size = default_memory_size, value_cache_size = default_cache_size,
     value_write_buffer_size = default_write_buffer_size,
     value_write_buffer_write_back_size = default_write_buffer_write_back_size,
     value_allocation_policy = default_allocation_policy, value_allocation_block_size = default_allocation_block_size,
     value_load_size = default_load_size, value_mpi_windows_per_node = default_mpi_windows_per_node,
     value_print_statistics = default_print_statistics, is_initialized = True\<rparr>"

definition two_nodes :: init_params where
  "two_nodes = \<lparr>p_PAGE_SIZE = 4096, p_CACHELINE = 1, p_numtasks = 2, p_start = ARGO_VM_START, p_env = default_env\<rparr>"


lemma demo_vm_init:
  "\<exists>vms. vm_init_all (memfd_ops (os_seq 4096)) [0..<2] (\<lambda>_. empty_process) = Inr vms
     \<and> op_start (memfd_ops (os_seq 4096)) (fst (vms 0)) = ARGO_VM_START"
  by (simp add: memfd_ops_def memfd_init_def open_file_def or_throw_def os_seq_def upt_conv_Cons)


text \<open>
  Claim C23. \<^verbatim>\<open>argo::init\<close> refuses a bad environment: with a policy above 4, a block size, load size or
  number of windows of zero, or a statistics level above 3, it throws \<^verbatim>\<open>std::invalid_argument\<close>, and
  otherwise only the backend can fail.
\<close>

theorem argo_init_rejects:
  assumes "env_init getenv = Inr e" and "vm_init_all V [0..<p_numtasks P] procs = Inr vms"
  shows "(\<exists>msg. init_request e argo_size cache_size = Inl (Invalid_argument msg)
            \<and> argo_init E V procs P pol touched copy getenv argo_size cache_size = Inl (Invalid_argument msg))
     \<longleftrightarrow> value_allocation_policy e > 4 \<or> value_allocation_block_size e = 0 \<or> value_load_size e = 0
         \<or> value_mpi_windows_per_node e = 0 \<or> value_print_statistics e > 3"
    (is "?l \<longleftrightarrow> ?r")
proof
  assume ?l
  then show ?r using init_request_ok [OF env_init_initialized [OF assms(1)], of argo_size cache_size] by force
next
  assume ?r
  then have "\<exists>msg. init_request e argo_size cache_size = Inl (Invalid_argument msg)"
    using env_init_initialized [OF assms(1)]
    by (auto simp: init_request_def env_memory_size_def env_cache_size_def env_allocation_policy_def
        env_allocation_block_size_def env_load_size_def env_mpi_windows_per_node_def env_print_statistics_def
        assert_initialized_def Let_def)
  then show ?l by (auto simp: argo_init_def assms)
qed

theorem argo_init_rejects_witness:
  "\<exists>msg. argo_init ext_seq (memfd_ops (os_seq 4096)) (\<lambda>_. empty_process) two_nodes (\<lambda>P n. the (init_policy P n)) (\<lambda>_ _. True)
       (\<lambda>_ _. 7) (\<lambda>name. if name = ''ARGO_LOAD_SIZE'' then Some ''0'' else None) 12288 0 = Inl (Invalid_argument msg)"
proof -
  let ?g = "\<lambda>name. if name = ''ARGO_LOAD_SIZE'' then Some ''0'' else None"
  have e: "env_init ?g = Inr (default_env\<lparr>value_load_size := 0\<rparr>)"
    by (simp add: env_init_def env_value_def parse_env_def extract_size_t_def default_env_def default_write_buffer_size_def
        default_write_buffer_write_back_size_def is_space_def is_digit_def digits_value_def digit_value_def size_max_def)
  obtain vms where "vm_init_all (memfd_ops (os_seq 4096)) [0..<2] (\<lambda>_. empty_process) = Inr vms" using demo_vm_init by blast
  then have v: "vm_init_all (memfd_ops (os_seq 4096)) [0..<p_numtasks two_nodes] (\<lambda>_. empty_process) = Inr vms"
    by (simp add: two_nodes_def)
  from argo_init_rejects [OF e v, of 12288 0 ext_seq "\<lambda>P n. the (init_policy P n)" "\<lambda>_ _. True" "\<lambda>_ _. 7"]
  show ?thesis by auto
qed

text \<open>
  The dispatch of signals: after \<^verbatim>\<open>install_argo_handler\<close> a fault at an address of the global memory
  is handled by the runtime, whatever the application installs afterwards, and a fault outside the
  reserved address space goes to the handler the application has installed. When the application had
  none, the dispatcher calls \<^verbatim>\<open>SIG_DFL\<close> as if it were a function.
\<close>

lemma signal_dispatch:
  assumes "startAddr c = ARGO_VM_START" and "size_of_all c \<le> memfd_size"
    and "install_application_handler a (install_argo_handler h s) = Inr (old, t)"
    and "out < ARGO_VM_START \<or> ARGO_VM_START + memfd_size \<le> out"
  shows "old = os_handler s
     \<and> (is_argo_address c addr \<longrightarrow> argo_signal_handler ARGO_VM_START memfd_size addr t = Inr (Sa_sigaction h))
     \<and> (a = Sa_handler k \<or> a = Sa_sigaction k \<longrightarrow> argo_signal_handler ARGO_VM_START memfd_size out t = Inr a)
     \<and> (os_handler s = SIG_DFL \<longrightarrow> argo_signal_handler ARGO_VM_START memfd_size out (install_argo_handler h s)
           = Inl (Undefined_behaviour ''call of SIG_DFL or SIG_IGN''))"
  using assms
  by (auto simp: is_argo_address_def argo_signal_handler_def install_argo_handler_def install_application_handler_def
      add64_def wrap64_def ARGO_VM_START_def ARGO_VM_SIZE_def memfd_size_def)

end
