(* ===== verification/Local_Locks.thy ===== *)
theory Local_Locks
  imports Argo_Prelude
begin

text \<open>
  The two intranode locks, \<^verbatim>\<open>ticket_lock.hpp\<close> and \<^verbatim>\<open>mcs_lock.hpp\<close>/\<^verbatim>\<open>mcs_lock.cpp\<close>, as step
  relations on the shared atomics and the program counters of the threads; a step is one atomic
  access. The contract is a queue: the locale \<open>queue_lock\<close> asks for a simulation by the abstract
  FIFO queue of threads and gives mutual exclusion and the order of service. Both locks are
  interpretations of it.
\<close>

section \<open>The abstract queue lock\<close>

inductive queue_step :: "nat list \<Rightarrow> nat list \<Rightarrow> bool" where
  stay: "queue_step q q"
| enqueue: "t \<notin> set q \<Longrightarrow> queue_step q (q @ [t])"
| dequeue: "queue_step (t # q) q"

inductive_cases queue_stepE: "queue_step q q'"

text \<open>The queue is served in order: whoever is in front of a waiting thread stays in front of it.\<close>

lemma queue_fifo:
  assumes "queue_step\<^sup>*\<^sup>* q q'" and "distinct q"
  shows "distinct q'" and "\<exists>k xs. q' = drop k q @ xs"
proof -
  have "distinct q' \<and> (\<exists>k xs. q' = drop k q @ xs)"
    using assms
  proof (induction rule: rtranclp_induct)
    case base
    then show ?case by (metis append_Nil2 drop0)
  next
    case (step p p')
    then obtain k xs where d: "distinct p" and p: "p = drop k q @ xs" by blast
    show ?case
      using step.hyps(2)
    proof cases
      case stay
      then show ?thesis using d p by blast
    next
      case (enqueue t)
      then show ?thesis using d p by auto
    next
      case (dequeue t)
      then have p': "p' = tl (drop k q @ xs)" using p by simp
      have "\<exists>k xs. p' = drop k q @ xs"
      proof (cases "drop k q")
        case Nil
        then have "p' = drop (length q) q @ tl xs" using p' by simp
        then show ?thesis by blast
      next
        case (Cons y ys)
        then have "p' = drop (Suc k) q @ xs" using p' by (simp add: drop_Suc tl_drop [symmetric])
        then show ?thesis by blast
      qed
      moreover have "distinct p'" using d dequeue by simp
      ultimately show ?thesis by blast
    qed
  qed
  then show "distinct q'" and "\<exists>k xs. q' = drop k q @ xs" by blast+
qed

locale queue_lock =
  fixes init :: "'s \<Rightarrow> bool"
    and step :: "'s \<Rightarrow> 's \<Rightarrow> bool"
    and crit :: "'s \<Rightarrow> nat \<Rightarrow> bool"
    and rel :: "'s \<Rightarrow> nat list \<Rightarrow> bool"
  assumes init_rel: "init s \<Longrightarrow> rel s []"
    and simulation: "rel s q \<Longrightarrow> step s s' \<Longrightarrow> \<exists>q'. rel s' q' \<and> queue_step q q'"
    and crit_head: "rel s q \<Longrightarrow> crit s t \<Longrightarrow> q \<noteq> [] \<and> hd q = t"
begin

lemma simulation_steps: "step\<^sup>*\<^sup>* s s' \<Longrightarrow> rel s q \<Longrightarrow> \<exists>q'. rel s' q' \<and> queue_step\<^sup>*\<^sup>* q q'"
proof (induction rule: rtranclp_induct)
  case base
  then show ?case by blast
next
  case (step t u)
  then obtain q' where "rel t q'" "queue_step\<^sup>*\<^sup>* q q'" by blast
  moreover from simulation [OF this(1) step.hyps(2)] obtain q'' where "rel u q''" "queue_step q' q''" by blast
  ultimately show ?case by (meson rtranclp.rtrancl_into_rtrancl)
qed

lemma mutual_exclusion:
  assumes "init s0" and "step\<^sup>*\<^sup>* s0 s" and "crit s t" and "crit s u"
  shows "t = u"
  using simulation_steps [OF assms(2) init_rel [OF assms(1)]] crit_head assms(3,4) by metis

text \<open>Between two states of a run the queue loses threads at its front only.\<close>

lemma served_in_order:
  assumes "init s0" and "step\<^sup>*\<^sup>* s0 s" and "step\<^sup>*\<^sup>* s s'"
  shows "\<exists>q q' k new. rel s q \<and> rel s' q' \<and> q' = drop k q @ new \<and> distinct q'"
proof -
  obtain q where q: "rel s q" "queue_step\<^sup>*\<^sup>* [] q"
    using simulation_steps [OF assms(2) init_rel [OF assms(1)]] by blast
  then have d: "distinct q" using queue_fifo(1) [OF q(2)] by simp
  obtain q' where "rel s' q'" "queue_step\<^sup>*\<^sup>* q q'" using simulation_steps [OF assms(3) q(1)] by blast
  with q(1) show ?thesis using queue_fifo [OF _ d] by blast
qed

end

section \<open>ticket\_lock.hpp\<close>

text \<open>
  The counters are 32-bit integers whose \<^verbatim>\<open>fetch_add\<close> wraps. A thread outside the lock is
  \<open>T_idle\<close>, one that spins with its ticket \<open>T_wait\<close>, one in the critical section \<open>T_crit\<close>.
\<close>

datatype ticket_pc = T_idle | T_wait "32 word" | T_crit

record ticket_lock =
  in_counter :: "32 word"
  out_counter :: "32 word"
  t_pc :: "nat \<Rightarrow> ticket_pc"

definition ticket_init :: "ticket_lock \<Rightarrow> bool" where
  "ticket_init s \<longleftrightarrow> in_counter s = 0 \<and> out_counter s = 0 \<and> t_pc s = (\<lambda>_. T_idle)"

definition ticket_take :: "nat \<Rightarrow> ticket_lock \<Rightarrow> ticket_lock" where
  "ticket_take t s = s\<lparr>in_counter := in_counter s + 1, t_pc := (t_pc s)(t := T_wait (in_counter s))\<rparr>"

text \<open>One evaluation of the loop condition \<^verbatim>\<open>out_counter != ticket\<close>.\<close>

definition ticket_spin :: "nat \<Rightarrow> 32 word \<Rightarrow> ticket_lock \<Rightarrow> ticket_lock" where
  "ticket_spin t ticket s = (if out_counter s \<noteq> ticket then s else s\<lparr>t_pc := (t_pc s)(t := T_crit)\<rparr>)"

definition ticket_unlock :: "nat \<Rightarrow> ticket_lock \<Rightarrow> ticket_lock" where
  "ticket_unlock t s = s\<lparr>out_counter := out_counter s + 1, t_pc := (t_pc s)(t := T_idle)\<rparr>"

inductive ticket_step :: "nat \<Rightarrow> ticket_lock \<Rightarrow> ticket_lock \<Rightarrow> bool" for N where
  take: "t < N \<Longrightarrow> t_pc s t = T_idle \<Longrightarrow> ticket_step N s (ticket_take t s)"
| spin: "t_pc s t = T_wait k \<Longrightarrow> ticket_step N s (ticket_spin t k s)"
| unlock: "t_pc s t = T_crit \<Longrightarrow> ticket_step N s (ticket_unlock t s)"

text \<open>
  \<^verbatim>\<open>(local_in - local_out) > 1\<close> in \<^verbatim>\<open>int\<close>, where an overflowing subtraction is undefined.
\<close>

definition ticket_is_contended :: "ticket_lock \<Rightarrow> argo_error + bool" where
  "ticket_is_contended s =
     (let d = sint (in_counter s) - sint (out_counter s)
      in if d < - (2 ^ 31) \<or> 2 ^ 31 \<le> d then Inl (Undefined_behaviour ''local_in - local_out'')
         else Inr (d > 1))"

text \<open>The thread at position \<open>i\<close> of the queue holds ticket \<open>out_counter + i\<close>.\<close>

definition ticket_rel :: "nat \<Rightarrow> ticket_lock \<Rightarrow> nat list \<Rightarrow> bool" where
  "ticket_rel N s q \<longleftrightarrow> distinct q \<and> set q \<subseteq> {..<N}
     \<and> in_counter s = out_counter s + word_of_nat (length q)
     \<and> (\<forall>t. t \<notin> set q \<longrightarrow> t_pc s t = T_idle)
     \<and> (\<forall>i < length q. t_pc s (q ! i) = T_wait (out_counter s + word_of_nat i)
          \<or> i = 0 \<and> t_pc s (q ! i) = T_crit)"

lemma ticket_queue_short:
  assumes "ticket_rel N s q" and "N < 2 ^ 32"
  shows "length q < 2 ^ 32"
proof -
  have "length q \<le> N"
    using assms(1) card_mono [of "{..<N}" "set q"] by (simp add: ticket_rel_def distinct_card)
  with assms(2) show ?thesis by simp
qed

lemma ticket_simulation:
  assumes rel: "ticket_rel N s q" and N: "N < 2 ^ 32" and st: "ticket_step N s s'"
  shows "\<exists>q'. ticket_rel N s' q' \<and> queue_step q q'"
proof -
  have d: "distinct q" and sub: "set q \<subseteq> {..<N}" and cnt: "in_counter s = out_counter s + word_of_nat (length q)"
    and out: "\<And>t. t \<notin> set q \<Longrightarrow> t_pc s t = T_idle"
    and pos: "\<And>i. i < length q \<Longrightarrow> t_pc s (q ! i) = T_wait (out_counter s + word_of_nat i)
          \<or> i = 0 \<and> t_pc s (q ! i) = T_crit"
    using rel by (auto simp: ticket_rel_def)
  have inq: "\<exists>i < length q. q ! i = t" if "t_pc s t \<noteq> T_idle" for t
    using out that by (metis in_set_conv_nth)
  show ?thesis
    using st
  proof cases
    case (take t)
    then have "t \<notin> set q" using pos inq by (metis in_set_conv_nth ticket_pc.distinct(1,3))
    moreover from this have "ticket_rel N s' (q @ [t])"
      using take d sub cnt out pos
      by (auto simp: ticket_rel_def ticket_take_def nth_append less_Suc_eq in_set_conv_nth)
    ultimately show ?thesis using queue_step.enqueue by blast
  next
    case (spin t k)
    obtain i where i: "i < length q" "q ! i = t" using inq spin(2) by force
    then have k: "k = out_counter s + word_of_nat i" using pos [OF i(1)] spin(2) by auto
    have "i = 0" if "out_counter s = k"
    proof -
      from that k have "(word_of_nat i :: 32 word) = 0" by simp
      moreover have "i < 2 ^ 32" using i(1) ticket_queue_short [OF rel N] by simp
      ultimately have "2 ^ 32 dvd i" and "i < 2 ^ 32" by (simp_all add: word_of_nat_eq_0_iff)
      then show ?thesis using dvd_imp_le not_le by blast
    qed
    then have "ticket_rel N s' q"
      using spin i rel d by (auto simp: ticket_rel_def ticket_spin_def nth_eq_iff_index_eq)
    then show ?thesis using queue_step.stay by blast
  next
    case (unlock t)
    obtain i where i: "i < length q" "q ! i = t" using inq unlock(2) by force
    then have "i = 0" using pos [OF i(1)] unlock(2) by auto
    then obtain qs where q: "q = t # qs" using i by (cases q) auto
    have "t_pc s (qs ! i) = T_wait (out_counter s + 1 + word_of_nat i)" if "i < length qs" for i
      using pos [of "Suc i"] that by (simp add: q add.assoc)
    then have "ticket_rel N s' qs"
      using unlock d sub cnt out unfolding q
      by (auto simp: ticket_rel_def ticket_unlock_def add.assoc)
    then show ?thesis using queue_step.dequeue q by blast
  qed
qed

text \<open>A ticket lock used by fewer than \<open>2\<^sup>3\<^sup>2\<close> threads is a queue lock.\<close>

definition ticket_ready :: "nat \<Rightarrow> ticket_lock \<Rightarrow> bool" where
  "ticket_ready N s \<longleftrightarrow> N < 2 ^ 32 \<and> ticket_init s"

definition ticket_queued :: "nat \<Rightarrow> ticket_lock \<Rightarrow> nat list \<Rightarrow> bool" where
  "ticket_queued N s q \<longleftrightarrow> N < 2 ^ 32 \<and> ticket_rel N s q"

interpretation ticket: queue_lock "ticket_ready N" "ticket_step N" "\<lambda>s t. t_pc s t = T_crit" "ticket_queued N" for N
proof
  show "ticket_ready N s \<Longrightarrow> ticket_queued N s []" for s
    by (simp add: ticket_ready_def ticket_init_def ticket_queued_def ticket_rel_def)
  show "\<exists>q'. ticket_queued N s' q' \<and> queue_step q q'" if "ticket_queued N s q" "ticket_step N s s'" for s s' q
    using ticket_simulation [of N s q s'] that by (simp add: ticket_queued_def)
  show "q \<noteq> [] \<and> hd q = t" if "ticket_queued N s q" "t_pc s t = T_crit" for s q t
  proof -
    have "t \<in> set q" using that by (auto simp: ticket_queued_def ticket_rel_def)
    then obtain i where "i < length q" "q ! i = t" by (auto simp: in_set_conv_nth)
    then show ?thesis using that by (cases q) (auto simp: ticket_queued_def ticket_rel_def)
  qed
qed

lemma sint_small: "n < 2 ^ 31 \<Longrightarrow> sint (word_of_nat n :: 32 word) = int n"
  by (simp add: signed_of_nat signed_take_bit_int_eq_self)

text \<open>While fewer than \<open>2\<^sup>3\<^sup>1\<close> tickets have been drawn, contention means a second thread in the queue.\<close>

lemma ticket_contended:
  assumes rel: "ticket_rel N s q" and N: "N < 2 ^ 31"
    and small: "unat (out_counter s) + length q < 2 ^ 31"
  shows "ticket_is_contended s = Inr (length q > 1)"
proof -
  have e: "in_counter s = word_of_nat (unat (out_counter s) + length q)" using rel by (simp add: ticket_rel_def)
  have i: "sint (in_counter s) = int (unat (out_counter s) + length q)"
    unfolding e by (rule sint_small [OF small])
  have "sint (word_of_nat (unat (out_counter s)) :: 32 word) = int (unat (out_counter s))"
    using small by (intro sint_small) simp
  then have "sint (out_counter s) = int (unat (out_counter s))" by simp
  with i small show ?thesis by (simp add: ticket_is_contended_def Let_def)
qed

section \<open>mcs\_lock.cpp\<close>

text \<open>
  A thread's node has the fields \<^verbatim>\<open>next\<close> and \<^verbatim>\<open>locked\<close>; nodes are named by their threads. The
  program counters follow the statements of \<^verbatim>\<open>lock\<close> and \<^verbatim>\<open>unlock\<close>: \<open>M_cleared\<close> has reset its
  \<^verbatim>\<open>next\<close>, \<open>M_queued p\<close> found predecessor \<open>p\<close>, \<open>M_marked p\<close> has set \<^verbatim>\<open>locked\<close>, \<open>M_spin\<close> is
  linked; \<open>M_release\<close> saw no successor, \<open>M_await\<close> failed to reset the tail, \<open>M_notify\<close> knows
  its successor.
\<close>

datatype mcs_pc = M_idle | M_cleared | M_queued nat | M_marked nat | M_spin
  | M_crit | M_release | M_await | M_notify

record mcs_lock =
  m_tail :: "nat option"
  m_next :: "nat \<Rightarrow> nat option"
  m_locked :: "nat \<Rightarrow> bool"
  m_pc :: "nat \<Rightarrow> mcs_pc"

abbreviation set_pc :: "nat \<Rightarrow> mcs_pc \<Rightarrow> mcs_lock \<Rightarrow> mcs_lock" where
  "set_pc t p s \<equiv> s\<lparr>m_pc := (m_pc s)(t := p)\<rparr>"

definition mcs_init :: "mcs_lock \<Rightarrow> bool" where
  "mcs_init s \<longleftrightarrow> m_tail s = None \<and> m_pc s = (\<lambda>_. M_idle)"

definition mcs_clear :: "nat \<Rightarrow> mcs_lock \<Rightarrow> mcs_lock" where
  "mcs_clear t s = set_pc t M_cleared (s\<lparr>m_next := (m_next s)(t := None)\<rparr>)"

definition mcs_exchange :: "nat \<Rightarrow> mcs_lock \<Rightarrow> mcs_lock" where
  "mcs_exchange t s =
     set_pc t (case m_tail s of None \<Rightarrow> M_crit | Some p \<Rightarrow> M_queued p) (s\<lparr>m_tail := Some t\<rparr>)"

definition mcs_mark :: "nat \<Rightarrow> nat \<Rightarrow> mcs_lock \<Rightarrow> mcs_lock" where
  "mcs_mark t p s = set_pc t (M_marked p) (s\<lparr>m_locked := (m_locked s)(t := True)\<rparr>)"

definition mcs_link :: "nat \<Rightarrow> nat \<Rightarrow> mcs_lock \<Rightarrow> mcs_lock" where
  "mcs_link t p s = set_pc t M_spin (s\<lparr>m_next := (m_next s)(p := Some t)\<rparr>)"

definition mcs_spin :: "nat \<Rightarrow> mcs_lock \<Rightarrow> mcs_lock" where
  "mcs_spin t s = (if m_locked s t then s else set_pc t M_crit s)"

definition mcs_unlock_check :: "nat \<Rightarrow> mcs_lock \<Rightarrow> mcs_lock" where
  "mcs_unlock_check t s = set_pc t (if m_next s t = None then M_release else M_notify) s"

definition mcs_unlock_cas :: "nat \<Rightarrow> mcs_lock \<Rightarrow> mcs_lock" where
  "mcs_unlock_cas t s =
     (if m_tail s = Some t then set_pc t M_idle (s\<lparr>m_tail := None\<rparr>) else set_pc t M_await s)"

definition mcs_unlock_await :: "nat \<Rightarrow> mcs_lock \<Rightarrow> mcs_lock" where
  "mcs_unlock_await t s = (if m_next s t = None then s else set_pc t M_notify s)"

text \<open>\<^verbatim>\<open>self->next.load()->locked.store(false)\<close>, undefined when \<^verbatim>\<open>next\<close> is null.\<close>

definition mcs_unlock_notify :: "nat \<Rightarrow> mcs_lock \<Rightarrow> argo_error + mcs_lock" where
  "mcs_unlock_notify t s =
     (case m_next s t of
        None \<Rightarrow> Inl (Undefined_behaviour ''self->next is null'')
      | Some n \<Rightarrow> Inr (set_pc t M_idle (s\<lparr>m_locked := (m_locked s)(n := False)\<rparr>)))"

inductive mcs_step :: "mcs_lock \<Rightarrow> mcs_lock \<Rightarrow> bool" where
  clear: "m_pc s t = M_idle \<Longrightarrow> mcs_step s (mcs_clear t s)"
| exchange: "m_pc s t = M_cleared \<Longrightarrow> mcs_step s (mcs_exchange t s)"
| mark: "m_pc s t = M_queued p \<Longrightarrow> mcs_step s (mcs_mark t p s)"
| link: "m_pc s t = M_marked p \<Longrightarrow> mcs_step s (mcs_link t p s)"
| spin: "m_pc s t = M_spin \<Longrightarrow> mcs_step s (mcs_spin t s)"
| check: "m_pc s t = M_crit \<Longrightarrow> mcs_step s (mcs_unlock_check t s)"
| cas: "m_pc s t = M_release \<Longrightarrow> mcs_step s (mcs_unlock_cas t s)"
| await: "m_pc s t = M_await \<Longrightarrow> mcs_step s (mcs_unlock_await t s)"
| notify: "m_pc s t = M_notify \<Longrightarrow> mcs_unlock_notify t s = Inr s' \<Longrightarrow> mcs_step s s'"

text \<open>
  \<^verbatim>\<open>try_lock\<close> loads the tail and, when it is null, runs \<^verbatim>\<open>_tail.compare_exchange_strong(self, nullptr)\<close>:
  the tail is expected to be \<^verbatim>\<open>self\<close> and set to null. The tail may change in between, so the value
  the compare-exchange finds is a second argument. The result is the returned flag and the tail.
\<close>

definition mcs_try_lock :: "nat \<Rightarrow> nat option \<Rightarrow> nat option \<Rightarrow> bool \<times> nat option" where
  "mcs_try_lock self tail_loaded tail_found =
     (if tail_loaded \<noteq> None then (False, tail_found)
      else if tail_found = Some self then (True, None)
      else (False, tail_found))"

definition mcs_is_contended :: "nat \<Rightarrow> mcs_lock \<Rightarrow> bool" where
  "mcs_is_contended self s \<longleftrightarrow> m_next s self \<noteq> None"

section \<open>The queue of an MCS lock\<close>

definition mcs_linked :: "mcs_lock \<Rightarrow> nat \<Rightarrow> nat \<Rightarrow> bool" where
  "mcs_linked s p t \<longleftrightarrow>
     m_pc s t = M_queued p \<and> m_next s p = None
   \<or> m_pc s t = M_marked p \<and> m_locked s t \<and> m_next s p = None
   \<or> m_pc s t = M_spin \<and> m_locked s t \<and> m_next s p = Some t"

fun mcs_chain :: "mcs_lock \<Rightarrow> nat \<Rightarrow> nat list \<Rightarrow> bool" where
  "mcs_chain s p [] \<longleftrightarrow> m_next s p = None"
| "mcs_chain s p (t # ts) \<longleftrightarrow> mcs_linked s p t \<and> mcs_chain s t ts"

definition mcs_head :: "mcs_lock \<Rightarrow> nat \<Rightarrow> nat list \<Rightarrow> bool" where
  "mcs_head s h ts \<longleftrightarrow> m_pc s h = M_crit \<or> m_pc s h = M_release \<or> m_pc s h = M_await \<and> ts \<noteq> []
     \<or> m_pc s h = M_notify \<and> m_next s h \<noteq> None \<or> m_pc s h = M_spin \<and> \<not> m_locked s h"

definition mcs_rel :: "mcs_lock \<Rightarrow> nat list \<Rightarrow> bool" where
  "mcs_rel s q \<longleftrightarrow> distinct q \<and> m_tail s = (if q = [] then None else Some (last q))
     \<and> (\<forall>t. t \<notin> set q \<longrightarrow> m_pc s t = M_idle \<or> m_pc s t = M_cleared \<and> m_next s t = None)
     \<and> (case q of [] \<Rightarrow> True | h # ts \<Rightarrow> mcs_head s h ts \<and> mcs_chain s h ts)"

lemma mcs_chain_cong:
  assumes "mcs_chain s p ts" and "\<forall>x \<in> set (p # ts). m_next s' x = m_next s x"
    and "\<forall>x \<in> set ts. m_pc s' x = m_pc s x \<and> m_locked s' x = m_locked s x"
  shows "mcs_chain s' p ts"
  using assms by (induction ts arbitrary: p) (auto simp: mcs_linked_def)

lemma mcs_chain_pc:
  assumes "mcs_chain s p ts" and "t \<in> set ts"
  shows "(\<exists>r. m_pc s t = M_queued r) \<or> (\<exists>r. m_pc s t = M_marked r) \<or> m_pc s t = M_spin \<and> m_locked s t"
  using assms by (induction ts arbitrary: p) (auto simp: mcs_linked_def)

lemma mcs_chain_append:
  "mcs_chain s p ts \<Longrightarrow> m_next s t = None \<Longrightarrow> m_pc s t = M_queued (last (p # ts)) \<Longrightarrow>
     m_next s (last (p # ts)) = None \<Longrightarrow> mcs_chain s p (ts @ [t])"
  by (induction ts arbitrary: p) (auto simp: mcs_linked_def split: if_splits)

lemma mcs_chain_last: "mcs_chain s p ts \<Longrightarrow> m_next s (last (p # ts)) = None"
  by (induction ts arbitrary: p) auto

lemma mcs_chain_mark:
  assumes "mcs_chain s p ts" and "distinct (p # ts)" and "m_pc s t = M_queued r" and "t \<in> set ts"
  shows "mcs_chain (mcs_mark t r s) p ts"
  using assms
proof (induction ts arbitrary: p)
  case (Cons x xs)
  show ?case
  proof (cases "x = t")
    case True
    have lk: "mcs_linked s p t" "mcs_chain s t xs" and nt: "t \<notin> set xs" using Cons.prems(1,2) True by simp_all
    have "mcs_linked (mcs_mark t r s) p t" using lk(1) Cons.prems(3) by (simp add: mcs_linked_def mcs_mark_def)
    moreover have "mcs_chain (mcs_mark t r s) t xs"
      by (rule mcs_chain_cong [OF lk(2)]) (use nt in \<open>auto simp: mcs_mark_def\<close>)
    ultimately show ?thesis unfolding True by simp
  next
    case False
    with Cons show ?thesis by (auto simp: mcs_linked_def mcs_mark_def)
  qed
qed simp

lemma mcs_chain_link:
  assumes "mcs_chain s p ts" and "distinct (p # ts)" and "m_pc s t = M_marked r" and "t \<in> set ts"
  shows "mcs_chain (mcs_link t r s) p ts \<and> r \<in> set (p # ts)"
  using assms
proof (induction ts arbitrary: p)
  case (Cons x xs)
  show ?case
  proof (cases "x = t")
    case True
    have lk: "mcs_linked s p t" "mcs_chain s t xs" and nt: "t \<notin> set xs" "p \<notin> set xs" "p \<noteq> t"
      using Cons.prems(1,2) True by auto
    have r: "r = p" and l: "m_locked s t" using lk(1) Cons.prems(3) by (simp_all add: mcs_linked_def)
    have "mcs_linked (mcs_link t r s) p t" using l by (simp add: r mcs_linked_def mcs_link_def)
    moreover have "mcs_chain (mcs_link t r s) t xs"
      by (rule mcs_chain_cong [OF lk(2)]) (use nt in \<open>auto simp: r mcs_link_def\<close>)
    ultimately show ?thesis unfolding True by (simp add: r)
  next
    case False
    with Cons have IH: "mcs_chain (mcs_link t r s) x xs" "r \<in> set (x # xs)" by auto
    moreover have "p \<noteq> r" using IH(2) Cons.prems(2) by auto
    ultimately show ?thesis using False Cons.prems by (auto simp: mcs_linked_def mcs_link_def)
  qed
qed simp

lemma mcs_rel_cases:
  assumes "mcs_rel s q" and "m_pc s t \<noteq> M_idle" and "m_pc s t \<noteq> M_cleared"
  obtains h ts where "q = h # ts" and "mcs_head s h ts" and "mcs_chain s h ts" and "distinct (h # ts)"
    and "m_tail s = Some (last (h # ts))"
    and "\<forall>u. u \<notin> set (h # ts) \<longrightarrow> m_pc s u = M_idle \<or> m_pc s u = M_cleared \<and> m_next s u = None"
    and "t = h \<or> t \<in> set ts"
proof (cases q)
  case Nil
  with assms show thesis by (auto simp: mcs_rel_def)
next
  case (Cons h ts)
  with assms have "t \<in> set (h # ts)" unfolding mcs_rel_def by blast
  with assms(1) Cons show thesis by (intro that) (auto simp: mcs_rel_def)
qed

lemma mcs_head_only:
  assumes "mcs_chain s h ts" and "t = h \<or> t \<in> set ts"
    and "m_pc s t \<in> {M_crit, M_release, M_await, M_notify} \<or> m_pc s t = M_spin \<and> \<not> m_locked s t"
  shows "t = h"
  using mcs_chain_pc [OF assms(1)] assms(2,3) by fastforce

lemma mcs_waiting_only:
  assumes "mcs_head s h ts" and "t = h \<or> t \<in> set ts" and "m_pc s t = M_queued r \<or> m_pc s t = M_marked r"
  shows "t \<noteq> h" and "t \<in> set ts"
  using assms by (auto simp: mcs_head_def)

text \<open>A step of the thread at the head that leaves it at the head.\<close>

lemma mcs_head_step:
  assumes "q = h # ts" and "mcs_chain s h ts" and "distinct (h # ts)" and "m_tail s = Some (last (h # ts))"
    and "\<forall>u. u \<notin> set (h # ts) \<longrightarrow> m_pc s u = M_idle \<or> m_pc s u = M_cleared \<and> m_next s u = None"
    and "mcs_head (set_pc h p s) h ts"
  shows "mcs_rel (set_pc h p s) q"
proof -
  have "mcs_chain (set_pc h p s) h ts"
    by (rule mcs_chain_cong [OF assms(2)]) (use assms(3) in auto)
  with assms show ?thesis by (auto simp: mcs_rel_def)
qed

lemma mcs_clear_rel:
  assumes "mcs_rel s q" and "m_pc s t = M_idle"
  shows "mcs_rel (mcs_clear t s) q"
proof -
  have nt: "t \<notin> set q"
  proof (cases q)
    case (Cons h ts)
    then have "mcs_head s h ts" "mcs_chain s h ts" using assms(1) by (simp_all add: mcs_rel_def)
    then show ?thesis using mcs_chain_pc assms(2) Cons by (fastforce simp: mcs_head_def)
  qed simp
  show ?thesis
  proof (cases q)
    case (Cons h ts)
    have "mcs_chain (mcs_clear t s) h ts"
      by (rule mcs_chain_cong [of s]) (use assms(1) nt Cons in \<open>auto simp: mcs_rel_def mcs_clear_def\<close>)
    moreover have "mcs_head (mcs_clear t s) h ts"
      using assms(1) nt Cons by (auto simp: mcs_rel_def mcs_head_def mcs_clear_def)
    ultimately show ?thesis using assms Cons by (auto simp: mcs_rel_def mcs_clear_def)
  qed (use assms in \<open>auto simp: mcs_rel_def mcs_clear_def\<close>)
qed

lemma mcs_exchange_rel:
  assumes "mcs_rel s q" and "m_pc s t = M_cleared"
  shows "mcs_rel (mcs_exchange t s) (q @ [t])" and "t \<notin> set q"
proof -
  show nt: "t \<notin> set q"
  proof (cases q)
    case (Cons h ts)
    then have "mcs_head s h ts" "mcs_chain s h ts" using assms(1) by (simp_all add: mcs_rel_def)
    then show ?thesis using mcs_chain_pc assms(2) Cons by (fastforce simp: mcs_head_def)
  qed simp
  have tn: "m_next s t = None" using assms nt unfolding mcs_rel_def by force
  show "mcs_rel (mcs_exchange t s) (q @ [t])"
  proof (cases q)
    case Nil
    then show ?thesis using assms tn by (auto simp: mcs_rel_def mcs_exchange_def mcs_head_def)
  next
    case (Cons h ts)
    have ch: "mcs_chain s h ts" and hd: "mcs_head s h ts" and tl: "m_tail s = Some (last (h # ts))"
      using assms(1) Cons by (simp_all add: mcs_rel_def)
    have "mcs_chain (mcs_exchange t s) h ts"
      by (rule mcs_chain_cong [OF ch]) (use nt Cons in \<open>auto simp: mcs_exchange_def\<close>)
    moreover have "m_next (mcs_exchange t s) (last (h # ts)) = None"
      using mcs_chain_last [OF ch] by (simp add: mcs_exchange_def)
    moreover have "m_pc (mcs_exchange t s) t = M_queued (last (h # ts))" "m_next (mcs_exchange t s) t = None"
      using tl tn by (simp_all add: mcs_exchange_def)
    ultimately have "mcs_chain (mcs_exchange t s) h (ts @ [t])" by (intro mcs_chain_append)
    moreover have "mcs_head (mcs_exchange t s) h (ts @ [t])"
      using hd nt Cons by (auto simp: mcs_head_def mcs_exchange_def)
    ultimately show ?thesis using assms(1) nt Cons by (auto simp: mcs_rel_def mcs_exchange_def)
  qed
qed

lemma mcs_owner:
  assumes rel: "mcs_rel s q"
    and pc: "m_pc s t \<in> {M_crit, M_release, M_await, M_notify} \<or> m_pc s t = M_spin \<and> \<not> m_locked s t"
  obtains ts where "q = t # ts" and "mcs_chain s t ts" and "distinct (t # ts)"
    and "m_tail s = Some (last (t # ts))"
    and "\<forall>u. u \<notin> set (t # ts) \<longrightarrow> m_pc s u = M_idle \<or> m_pc s u = M_cleared \<and> m_next s u = None"
    and "mcs_head s t ts"
proof -
  have "m_pc s t \<noteq> M_idle" "m_pc s t \<noteq> M_cleared" using pc by auto
  from rel this show thesis by (rule mcs_rel_cases) (use mcs_head_only [OF _ _ pc] that in metis)
qed

lemma mcs_waiter:
  assumes rel: "mcs_rel s q" and pc: "m_pc s t = M_queued r \<or> m_pc s t = M_marked r"
  obtains h ts where "q = h # ts" and "mcs_head s h ts" and "mcs_chain s h ts" and "distinct (h # ts)"
    and "m_tail s = Some (last (h # ts))"
    and "\<forall>u. u \<notin> set (h # ts) \<longrightarrow> m_pc s u = M_idle \<or> m_pc s u = M_cleared \<and> m_next s u = None"
    and "t \<noteq> h" and "t \<in> set ts"
proof -
  have "m_pc s t \<noteq> M_idle" "m_pc s t \<noteq> M_cleared" using pc by auto
  from rel this show thesis by (rule mcs_rel_cases) (use mcs_waiting_only [OF _ _ pc] that in metis)
qed

lemma mcs_owner_ex:
  assumes "mcs_rel s q"
    and "m_pc s t \<in> {M_crit, M_release, M_await, M_notify} \<or> m_pc s t = M_spin \<and> \<not> m_locked s t"
  shows "\<exists>ts. q = t # ts \<and> mcs_chain s t ts \<and> distinct (t # ts) \<and> m_tail s = Some (last (t # ts))
    \<and> (\<forall>u. u \<notin> set (t # ts) \<longrightarrow> m_pc s u = M_idle \<or> m_pc s u = M_cleared \<and> m_next s u = None)
    \<and> mcs_head s t ts"
  by (rule mcs_owner [OF assms]) blast

lemma mcs_wait_rel:
  assumes "mcs_rel s q"
  shows "m_pc s t = M_queued r \<Longrightarrow> mcs_rel (mcs_mark t r s) q"
    and "m_pc s t = M_marked r \<Longrightarrow> mcs_rel (mcs_link t r s) q"
proof -
  assume pc: "m_pc s t = M_queued r"
  show "mcs_rel (mcs_mark t r s) q"
  proof (rule mcs_waiter [OF assms disjI1 [OF pc]])
    fix h ts assume q: "q = h # ts" "mcs_head s h ts" "mcs_chain s h ts" "distinct (h # ts)"
      "m_tail s = Some (last (h # ts))"
      "\<forall>u. u \<notin> set (h # ts) \<longrightarrow> m_pc s u = M_idle \<or> m_pc s u = M_cleared \<and> m_next s u = None"
      and w: "t \<noteq> h" "t \<in> set ts"
    have "mcs_chain (mcs_mark t r s) h ts" by (rule mcs_chain_mark [OF q(3,4) pc w(2)])
    moreover have "mcs_head (mcs_mark t r s) h ts" using q(2) w(1) by (auto simp: mcs_head_def mcs_mark_def)
    ultimately show ?thesis using q w by (auto simp: mcs_rel_def mcs_mark_def)
  qed
next
  assume pc: "m_pc s t = M_marked r"
  show "mcs_rel (mcs_link t r s) q"
  proof (rule mcs_waiter [OF assms disjI2 [OF pc]])
    fix h ts assume q: "q = h # ts" "mcs_head s h ts" "mcs_chain s h ts" "distinct (h # ts)"
      "m_tail s = Some (last (h # ts))"
      "\<forall>u. u \<notin> set (h # ts) \<longrightarrow> m_pc s u = M_idle \<or> m_pc s u = M_cleared \<and> m_next s u = None"
      and w: "t \<noteq> h" "t \<in> set ts"
    have c: "mcs_chain (mcs_link t r s) h ts" "r \<in> set (h # ts)" using mcs_chain_link [OF q(3,4) pc w(2)] by blast+
    moreover have "mcs_head (mcs_link t r s) h ts" using q(2) w(1) by (auto simp: mcs_head_def mcs_link_def)
    ultimately show ?thesis using q w by (auto simp: mcs_rel_def mcs_link_def)
  qed
qed

lemma mcs_owner_rel:
  assumes "mcs_rel s q"
  shows "m_pc s t = M_spin \<Longrightarrow> mcs_rel (mcs_spin t s) q"
    and "m_pc s t = M_crit \<Longrightarrow> mcs_rel (mcs_unlock_check t s) q"
    and "m_pc s t = M_await \<Longrightarrow> mcs_rel (mcs_unlock_await t s) q"
proof -
  assume pc: "m_pc s t = M_spin"
  show "mcs_rel (mcs_spin t s) q"
  proof (cases "m_locked s t")
    case False
    then have "m_pc s t = M_spin \<and> \<not> m_locked s t" using pc by simp
    then obtain ts where q: "q = t # ts" "mcs_chain s t ts" "distinct (t # ts)" "m_tail s = Some (last (t # ts))"
      "\<forall>u. u \<notin> set (t # ts) \<longrightarrow> m_pc s u = M_idle \<or> m_pc s u = M_cleared \<and> m_next s u = None"
      using mcs_owner_ex [OF assms, of t] by blast
    have "mcs_rel (set_pc t M_crit s) q" by (rule mcs_head_step [OF q]) (simp add: mcs_head_def)
    then show ?thesis using False by (simp add: mcs_spin_def)
  qed (simp add: mcs_spin_def assms)
next
  assume pc: "m_pc s t = M_crit"
  obtain ts where q: "q = t # ts" "mcs_chain s t ts" "distinct (t # ts)" "m_tail s = Some (last (t # ts))"
    "\<forall>u. u \<notin> set (t # ts) \<longrightarrow> m_pc s u = M_idle \<or> m_pc s u = M_cleared \<and> m_next s u = None"
    using mcs_owner_ex [OF assms, of t] unfolding pc by blast
  show "mcs_rel (mcs_unlock_check t s) q"
    unfolding mcs_unlock_check_def by (rule mcs_head_step [OF q]) (simp add: mcs_head_def)
next
  assume pc: "m_pc s t = M_await"
  obtain ts where q: "q = t # ts" "mcs_chain s t ts" "distinct (t # ts)" "m_tail s = Some (last (t # ts))"
    "\<forall>u. u \<notin> set (t # ts) \<longrightarrow> m_pc s u = M_idle \<or> m_pc s u = M_cleared \<and> m_next s u = None"
    using mcs_owner_ex [OF assms, of t] unfolding pc by blast
  have "mcs_rel (set_pc t M_notify s) q" if "m_next s t \<noteq> None"
    by (rule mcs_head_step [OF q]) (use that in \<open>simp add: mcs_head_def\<close>)
  then show "mcs_rel (mcs_unlock_await t s) q" using assms by (simp add: mcs_unlock_await_def)
qed

lemma mcs_cas_rel:
  assumes "mcs_rel s q" and pc: "m_pc s t = M_release"
  shows "\<exists>q'. mcs_rel (mcs_unlock_cas t s) q' \<and> queue_step q q'"
proof -
  obtain ts where q: "q = t # ts" "mcs_chain s t ts" "distinct (t # ts)" "m_tail s = Some (last (t # ts))"
    "\<forall>u. u \<notin> set (t # ts) \<longrightarrow> m_pc s u = M_idle \<or> m_pc s u = M_cleared \<and> m_next s u = None"
    using mcs_owner_ex [OF assms(1), of t] unfolding pc by blast
  show ?thesis
  proof (cases "ts = []")
    case True
    then have "mcs_rel (mcs_unlock_cas t s) []" using q by (auto simp: mcs_rel_def mcs_unlock_cas_def)
    then show ?thesis using q(1) True queue_step.dequeue by blast
  next
    case False
    then have "last (t # ts) \<noteq> t" using q(3) by auto
    then have "mcs_unlock_cas t s = set_pc t M_await s" using q(4) by (simp add: mcs_unlock_cas_def)
    moreover have "mcs_rel (set_pc t M_await s) q"
      by (rule mcs_head_step [OF q]) (simp add: mcs_head_def False)
    ultimately show ?thesis using queue_step.stay by auto
  qed
qed

lemma mcs_notify_rel:
  assumes "mcs_rel s q" and pc: "m_pc s t = M_notify"
  shows "\<exists>s' q'. mcs_unlock_notify t s = Inr s' \<and> mcs_rel s' q' \<and> queue_step q q'"
proof -
  obtain ts where q: "q = t # ts" "mcs_chain s t ts" "distinct (t # ts)" "m_tail s = Some (last (t # ts))"
    "\<forall>u. u \<notin> set (t # ts) \<longrightarrow> m_pc s u = M_idle \<or> m_pc s u = M_cleared \<and> m_next s u = None"
    and hd: "mcs_head s t ts"
    using mcs_owner_ex [OF assms(1), of t] unfolding pc by blast
  have nx: "m_next s t \<noteq> None" using hd pc by (simp add: mcs_head_def)
  then obtain n us where ts: "ts = n # us" using q(2) by (cases ts) auto
  then have n: "m_next s t = Some n" "m_pc s n = M_spin" "mcs_chain s n us"
    using q(2) nx by (auto simp: mcs_linked_def)
  let ?s = "set_pc t M_idle (s\<lparr>m_locked := (m_locked s)(n := False)\<rparr>)"
  have "mcs_chain ?s n us" by (rule mcs_chain_cong [OF n(3)]) (use q(3) ts in auto)
  moreover have "mcs_head ?s n us" using n q(3) ts by (auto simp: mcs_head_def)
  ultimately have "mcs_rel ?s ts" using q ts by (auto simp: mcs_rel_def)
  moreover have "mcs_unlock_notify t s = Inr ?s" using n(1) by (simp add: mcs_unlock_notify_def)
  ultimately show ?thesis using q(1) queue_step.dequeue by blast
qed

lemma mcs_simulation:
  assumes "mcs_rel s q" and "mcs_step s s'"
  shows "\<exists>q'. mcs_rel s' q' \<and> queue_step q q'"
  using assms(2)
proof cases
  case (clear t)
  then show ?thesis using mcs_clear_rel [OF assms(1)] queue_step.stay by blast
next
  case (exchange t)
  then show ?thesis using mcs_exchange_rel [OF assms(1)] queue_step.enqueue by blast
next
  case (mark t p)
  then show ?thesis using mcs_wait_rel(1) [OF assms(1)] queue_step.stay by blast
next
  case (link t p)
  then show ?thesis using mcs_wait_rel(2) [OF assms(1)] queue_step.stay by blast
next
  case (spin t)
  then show ?thesis using mcs_owner_rel(1) [OF assms(1)] queue_step.stay by blast
next
  case (check t)
  then show ?thesis using mcs_owner_rel(2) [OF assms(1)] queue_step.stay by blast
next
  case (cas t)
  then show ?thesis using mcs_cas_rel [OF assms(1)] by blast
next
  case (await t)
  then show ?thesis using mcs_owner_rel(3) [OF assms(1)] queue_step.stay by blast
next
  case (notify t)
  then show ?thesis using mcs_notify_rel [OF assms(1), of t] by (metis sum.inject(2))
qed

interpretation mcs: queue_lock mcs_init mcs_step "\<lambda>s t. m_pc s t = M_crit" mcs_rel
proof
  show "mcs_init s \<Longrightarrow> mcs_rel s []" for s by (simp add: mcs_init_def mcs_rel_def)
  show "q \<noteq> [] \<and> hd q = t" if "mcs_rel s q" "m_pc s t = M_crit" for s q t
    using mcs_owner_ex [OF that(1), of t] unfolding that(2) by auto
qed (rule mcs_simulation)

text \<open>A thread that is not in \<^verbatim>\<open>lock\<close> or \<^verbatim>\<open>unlock\<close> is not in the queue.\<close>

lemma mcs_idle_not_tail:
  assumes "mcs_rel s q" and "m_pc s t = M_idle"
  shows "m_tail s \<noteq> Some t"
proof -
  have "m_tail (mcs_exchange t (mcs_clear t s)) = Some t" by (simp add: mcs_exchange_def)
  have "mcs_rel (mcs_clear t s) q" by (rule mcs_clear_rel [OF assms])
  then have "t \<notin> set q" by (rule mcs_exchange_rel(2)) (simp add: mcs_clear_def)
  then show ?thesis using assms(1) by (auto simp: mcs_rel_def split: if_splits)
qed

section \<open>Properties\<close>

text \<open>
  A run used by the witnesses: threads \<open>0\<close> and \<open>1\<close> queue up on a fresh lock, thread \<open>0\<close> enters.
\<close>

definition mcs_demo :: mcs_lock where
  "mcs_demo = \<lparr>m_tail = None, m_next = \<lambda>_. None, m_locked = \<lambda>_. False, m_pc = \<lambda>_. M_idle\<rparr>"

definition mcs_demo_run :: mcs_lock where
  "mcs_demo_run = mcs_exchange 1 (mcs_clear 1 (mcs_exchange 0 (mcs_clear 0 mcs_demo)))"

definition mcs_demo_notify :: mcs_lock where
  "mcs_demo_notify = mcs_unlock_check 0 (mcs_link 1 0 (mcs_mark 1 0 mcs_demo_run))"

lemmas mcs_steps = mcs_clear_def mcs_exchange_def mcs_mark_def mcs_link_def mcs_spin_def
  mcs_unlock_check_def mcs_unlock_cas_def mcs_unlock_await_def

lemma mcs_demo_init: "mcs_init mcs_demo"
  by (simp add: mcs_demo_def mcs_init_def)

lemma mcs_demo_reach: "mcs_step\<^sup>*\<^sup>* mcs_demo mcs_demo_run"
proof -
  let ?a = "mcs_clear 0 mcs_demo" and ?b = "mcs_exchange 0 (mcs_clear 0 mcs_demo)"
  have "mcs_step mcs_demo ?a" by (rule mcs_step.clear) (simp add: mcs_demo_def)
  moreover have "mcs_step ?a ?b" by (rule mcs_step.exchange) (simp add: mcs_clear_def)
  moreover have "mcs_step ?b (mcs_clear 1 ?b)" by (rule mcs_step.clear) (simp add: mcs_steps mcs_demo_def)
  moreover have "mcs_step (mcs_clear 1 ?b) mcs_demo_run"
    unfolding mcs_demo_run_def by (rule mcs_step.exchange) (simp add: mcs_clear_def)
  ultimately show ?thesis by (meson converse_rtranclp_into_rtranclp r_into_rtranclp)
qed

lemma mcs_demo_more: "mcs_step\<^sup>*\<^sup>* mcs_demo_run mcs_demo_notify"
proof -
  let ?a = "mcs_mark 1 0 mcs_demo_run"
  have "mcs_step mcs_demo_run ?a"
    by (rule mcs_step.mark) (simp add: mcs_demo_run_def mcs_steps mcs_demo_def)
  moreover have "mcs_step ?a (mcs_link 1 0 ?a)" by (rule mcs_step.link) (simp add: mcs_mark_def)
  moreover have "mcs_step (mcs_link 1 0 ?a) mcs_demo_notify"
    unfolding mcs_demo_notify_def by (rule mcs_step.check) (simp add: mcs_demo_run_def mcs_steps mcs_demo_def)
  ultimately show ?thesis by (meson converse_rtranclp_into_rtranclp r_into_rtranclp)
qed

text \<open>
  Claim C15. The MCS lock excludes: after any interleaving of the atomic accesses of any number of
  threads, at most one thread is between its \<^verbatim>\<open>lock\<close> and its \<^verbatim>\<open>unlock\<close>.
\<close>

theorem mcs_mutual_exclusion:
  assumes "mcs_init s0" and "mcs_step\<^sup>*\<^sup>* s0 s" and "m_pc s t = M_crit" and "m_pc s u = M_crit"
  shows "t = u"
  using assms by (rule mcs.mutual_exclusion)

theorem mcs_mutual_exclusion_witness:
  "mcs_init mcs_demo \<and> mcs_step\<^sup>*\<^sup>* mcs_demo mcs_demo_run \<and> {u. m_pc mcs_demo_run u = M_crit} = {0}"
proof -
  have "m_pc mcs_demo_run 0 = M_crit" by (simp add: mcs_demo_run_def mcs_steps mcs_demo_def)
  then show ?thesis
    using mcs_mutual_exclusion [OF mcs_demo_init mcs_demo_reach, of 0] mcs_demo_init mcs_demo_reach by auto
qed

text \<open>
  Claim C16. The MCS lock refines a FIFO queue: between two states of a run the queue of waiting
  threads only loses threads at its front and gains threads at its end, the thread in the critical
  section is the first of the queue, and \<^verbatim>\<open>unlock\<close> always finds its successor's node when it
  notifies it.
\<close>

theorem mcs_fifo:
  assumes "mcs_init s0" and "mcs_step\<^sup>*\<^sup>* s0 s" and "mcs_step\<^sup>*\<^sup>* s s'"
  shows "\<exists>q q' k new. mcs_rel s q \<and> mcs_rel s' q' \<and> q' = drop k q @ new \<and> distinct q'
     \<and> {t. m_pc s' t = M_crit} \<subseteq> set (take 1 q')
     \<and> {t. m_pc s' t = M_notify} \<subseteq> {t. \<exists>r. mcs_unlock_notify t s' = Inr r}"
proof -
  obtain q q' k new where q: "mcs_rel s q" "mcs_rel s' q'" "q' = drop k q @ new" "distinct q'"
    using mcs.served_in_order [OF assms] by blast
  have "{t. m_pc s' t = M_crit} \<subseteq> set (take 1 q')"
    using mcs.crit_head [OF q(2)] by (cases q') auto
  moreover have "{t. m_pc s' t = M_notify} \<subseteq> {t. \<exists>r. mcs_unlock_notify t s' = Inr r}"
    using mcs_notify_rel [OF q(2)] by blast
  ultimately show ?thesis using q by blast
qed

theorem mcs_fifo_witness:
  "mcs_init mcs_demo \<and> mcs_step\<^sup>*\<^sup>* mcs_demo mcs_demo_run \<and> mcs_step\<^sup>*\<^sup>* mcs_demo_run mcs_demo_notify
     \<and> m_pc mcs_demo_notify 0 = M_notify \<and> (\<exists>r. mcs_unlock_notify 0 mcs_demo_notify = Inr r)"
proof -
  have "m_pc mcs_demo_notify 0 = M_notify"
    by (simp add: mcs_demo_notify_def mcs_demo_run_def mcs_steps mcs_demo_def)
  then show ?thesis
    using mcs_fifo [OF mcs_demo_init mcs_demo_reach mcs_demo_more] mcs_demo_init mcs_demo_reach mcs_demo_more
    by blast
qed

text \<open>
  \<^verbatim>\<open>mcs_lock::try_lock\<close> never takes the lock, not even a free one: its compare-exchange
  has the expected and the new value swapped, so that it fails on a null tail. Whatever it loads and
  whatever state \<open>s\<close> its compare-exchange meets, it returns \<^verbatim>\<open>false\<close> and leaves the tail as it is.
\<close>

lemma mcs_try_lock_fails:
  assumes "mcs_init s0" and "mcs_step\<^sup>*\<^sup>* s0 s" and "m_pc s t = M_idle"
  shows "mcs_try_lock t tail_loaded (m_tail s) = (False, m_tail s)"
proof -
  obtain q where "mcs_rel s q" using mcs.simulation_steps [OF assms(2) mcs.init_rel [OF assms(1)]] by blast
  then have "m_tail s \<noteq> Some t" using assms(3) by (rule mcs_idle_not_tail)
  then show ?thesis by (simp add: mcs_try_lock_def)
qed

lemma mcs_try_lock_fails_example:
  "mcs_init mcs_demo \<and> mcs_step\<^sup>*\<^sup>* mcs_demo mcs_demo \<and> mcs_try_lock 3 None (m_tail mcs_demo) = (False, None)"
  using mcs_try_lock_fails [OF mcs_demo_init rtranclp.rtrancl_refl, of 3 None] mcs_demo_init
  by (simp add: mcs_demo_def)

definition ticket_demo :: ticket_lock where
  "ticket_demo = \<lparr>in_counter = 0, out_counter = 0, t_pc = \<lambda>_. T_idle\<rparr>"

definition ticket_demo_run :: ticket_lock where
  "ticket_demo_run = ticket_spin 0 0 (ticket_take 1 (ticket_take 0 ticket_demo))"

lemma ticket_demo_reach: "(ticket_step 2)\<^sup>*\<^sup>* ticket_demo ticket_demo_run"
proof -
  let ?a = "ticket_take 0 ticket_demo"
  have "ticket_step 2 ticket_demo ?a" by (rule ticket_step.take) (simp_all add: ticket_demo_def)
  moreover have "ticket_step 2 ?a (ticket_take 1 ?a)"
    by (rule ticket_step.take) (simp_all add: ticket_demo_def ticket_take_def)
  moreover have "ticket_step 2 (ticket_take 1 ?a) ticket_demo_run"
    unfolding ticket_demo_run_def by (rule ticket_step.spin) (simp add: ticket_demo_def ticket_take_def)
  ultimately show ?thesis by (meson converse_rtranclp_into_rtranclp r_into_rtranclp)
qed

text \<open>
  Claim C25. The ticket lock excludes and serves in order, also across the wrap-around of its 32-bit
  counters, as long as fewer than \<open>2\<^sup>3\<^sup>2\<close> threads use it: at most one thread is in the critical
  section, it is the first of the queue, and the queue only loses threads at its front and gains
  threads at its end.
\<close>

theorem ticket_lock_fifo:
  assumes "N < 2 ^ 32" and "ticket_init s0" and "(ticket_step N)\<^sup>*\<^sup>* s0 s" and "(ticket_step N)\<^sup>*\<^sup>* s s'"
  shows "\<exists>q q' k new. ticket_rel N s q \<and> ticket_rel N s' q' \<and> q' = drop k q @ new \<and> distinct q'
     \<and> {t. t_pc s' t = T_crit} \<subseteq> set (take 1 q')"
proof -
  have r: "ticket_ready N s0" using assms(1,2) by (simp add: ticket_ready_def)
  obtain q q' k new where q: "ticket_queued N s q" "ticket_queued N s' q'" "q' = drop k q @ new" "distinct q'"
    using ticket.served_in_order [OF r assms(3,4)] by blast
  have "{t. t_pc s' t = T_crit} \<subseteq> set (take 1 q')"
    using ticket.crit_head [OF q(2)] by (cases q') auto
  then show ?thesis using q unfolding ticket_queued_def by blast
qed

theorem ticket_lock_fifo_witness:
  "ticket_init ticket_demo \<and> (ticket_step 2)\<^sup>*\<^sup>* ticket_demo ticket_demo_run \<and> t_pc ticket_demo_run 0 = T_crit
     \<and> (\<exists>q. ticket_rel 2 ticket_demo_run q \<and> {0} \<subseteq> set (take 1 q))"
proof -
  have i: "ticket_init ticket_demo" by (simp add: ticket_demo_def ticket_init_def)
  moreover have c: "t_pc ticket_demo_run 0 = T_crit"
    by (simp add: ticket_demo_run_def ticket_spin_def ticket_take_def ticket_demo_def)
  moreover have "\<exists>q. ticket_rel 2 ticket_demo_run q \<and> {0} \<subseteq> set (take 1 q)"
    using ticket_lock_fifo [of 2, OF _ i ticket_demo_reach rtranclp.rtrancl_refl] c
    by (auto simp del: One_nat_def)
  ultimately show ?thesis using ticket_demo_reach by blast
qed

text \<open>
  While fewer than \<open>2\<^sup>3\<^sup>1\<close> tickets have been drawn, \<^verbatim>\<open>is_contended\<close> of the ticket lock is
  true exactly when a second thread is in the queue; the subtraction of the counters is defined.
\<close>

lemma ticket_contention:
  assumes "N < 2 ^ 31" and "ticket_rel N s q" and "unat (out_counter s) + length q < 2 ^ 31"
  shows "ticket_is_contended s = Inr (length q > 1)"
  using assms ticket_contended by blast

end
