(* ===== verification/Objects.thy ===== *)
theory Objects
  imports Allocation
begin

text \<open>
  The C++ allocation functions \<^verbatim>\<open>new_\<close>, \<^verbatim>\<open>delete_\<close>, \<^verbatim>\<open>conew_\<close>, \<^verbatim>\<open>codelete_\<close> and their array forms
  (\<^verbatim>\<open>dynamic_allocator.hpp\<close>, \<^verbatim>\<open>collective_allocator.hpp\<close>): which allocation parameters decide that
  objects are constructed, destroyed and that the nodes synchronise. A call gives, beside its result,
  the constructor and destructor calls and barriers of one node in their order.
\<close>

section \<open>Allocation parameters\<close>

datatype allocation = Initialize | No_initialize | Deinitialize | No_deinitialize | Synchronize | No_synchronize

fun alloc_param_in :: "allocation \<Rightarrow> allocation list \<Rightarrow> bool" where
  "alloc_param_in p [] = False"
| "alloc_param_in p (ap # aps) = (if p = ap then True else alloc_param_in p aps)"

text \<open>The static assertions of \<^verbatim>\<open>alloc_params\<close>: without them the call does not compile.\<close>

definition alloc_params_ok :: "allocation list \<Rightarrow> bool" where
  "alloc_params_ok ps \<longleftrightarrow>
     (\<not> alloc_param_in Initialize ps \<or> \<not> alloc_param_in No_initialize ps)
   \<and> (\<not> alloc_param_in Deinitialize ps \<or> \<not> alloc_param_in No_deinitialize ps)
   \<and> (\<not> alloc_param_in Synchronize ps \<or> \<not> alloc_param_in No_synchronize ps)"

text \<open>The traits of the type \<^verbatim>\<open>T\<close> the functions ask for.\<close>

record type_traits =
  sizeof_T :: nat
  is_trivial :: bool
  is_trivially_destructible :: bool

datatype obj_event = Construct nat | Destroy nat | Barrier

section \<open>dynamic\_allocator.hpp\<close>

definition new_initialize :: "type_traits \<Rightarrow> allocation list \<Rightarrow> nat \<Rightarrow> bool" where
  "new_initialize T aps params =
     (let initialize = True;
          initialize = (if is_trivial T then False else initialize);
          initialize = (if params > 0 then True else initialize)
      in if alloc_param_in Initialize aps then True
         else if alloc_param_in No_initialize aps then False
         else initialize)"

definition delete_deinitialize :: "type_traits \<Rightarrow> allocation list \<Rightarrow> bool" where
  "delete_deinitialize T aps =
     (let deinitialize = (if is_trivially_destructible T then False else True)
      in if alloc_param_in Deinitialize aps then True
         else if alloc_param_in No_deinitialize aps then False
         else deinitialize)"

definition new_obj ::
  "type_traits \<Rightarrow> allocation list \<Rightarrow> nat \<Rightarrow> nat \<Rightarrow> allocators \<times> global_memory_pool
     \<Rightarrow> (argo_error + nat) \<times> obj_event list \<times> allocators \<times> global_memory_pool" where
  "new_obj T aps params nid st =
     (let (r, st') = dynamic_alloc nid (sizeof_T T) st
      in case r of
           Inl e \<Rightarrow> (Inl e, [], st')
         | Inr ptr \<Rightarrow> (Inr ptr, if new_initialize T aps params then [Construct ptr] else [], st'))"

definition delete_obj ::
  "type_traits \<Rightarrow> allocation list \<Rightarrow> nat \<Rightarrow> allocators \<Rightarrow> (argo_error + unit) \<times> obj_event list \<times> allocators" where
  "delete_obj T aps ptr N =
     (if ptr = 0 then (Inr (), [], N)
      else let (r, N') = dynamic_free ptr N
           in (r, if delete_deinitialize T aps then [Destroy ptr] else [], N'))"

definition elements_at :: "(nat \<Rightarrow> obj_event) \<Rightarrow> type_traits \<Rightarrow> nat \<Rightarrow> nat \<Rightarrow> obj_event list" where
  "elements_at ev T ptr n = map (\<lambda>i. ev (ptr + i * sizeof_T T)) [0..<n]"



text \<open>
  The class \<^verbatim>\<open>dynamic_allocator<T>\<close>, through which a container of the standard library uses the default dynamic
  allocator. It has no state: all objects compare equal. \<^verbatim>\<open>construct\<close> and \<^verbatim>\<open>destroy\<close> are events.
\<close>

definition adaptor_allocate ::
  "type_traits \<Rightarrow> nat \<Rightarrow> nat \<Rightarrow> allocators \<times> global_memory_pool \<Rightarrow> (argo_error + nat) \<times> allocators \<times> global_memory_pool" where
  "adaptor_allocate T nid n st =
     (let (N, gm) = st;
          (r, A, (G, gm'), d) =
             allocate (dp_ops global_allocate ALWAYS nid id) True 1 (mul64 n (sizeof_T T))
               (default_dynamic_allocator N, (default_global_allocator N, gm), dynamic_prepool N)
      in (r, N\<lparr>default_dynamic_allocator := A, default_global_allocator := G, dynamic_prepool := d\<rparr>, gm'))"

definition adaptor_free :: "nat \<Rightarrow> allocators \<Rightarrow> (argo_error + unit) \<times> allocators" where
  "adaptor_free ptr N =
     (let (r, A) = alloc_free True ptr (default_dynamic_allocator N) in (r, N\<lparr>default_dynamic_allocator := A\<rparr>))"

definition adaptor_deallocate :: "type_traits \<Rightarrow> nat \<Rightarrow> nat \<Rightarrow> allocators \<Rightarrow> (argo_error + unit) \<times> allocators" where
  "adaptor_deallocate T ptr n N =
     (let (r, A) = deallocate True 1 ptr (mul64 n (sizeof_T T)) (default_dynamic_allocator N)
      in (r, N\<lparr>default_dynamic_allocator := A\<rparr>))"

definition adaptor_construct :: "nat \<Rightarrow> obj_event list" where
  "adaptor_construct ptr = [Construct ptr]"

definition adaptor_destroy :: "nat \<Rightarrow> obj_event list" where
  "adaptor_destroy ptr = [Destroy ptr]"

section \<open>collective\_allocator.hpp\<close>

definition conew_synchronize :: "allocation list \<Rightarrow> bool \<Rightarrow> bool" where
  "conew_synchronize aps b =
     (if alloc_param_in Synchronize aps then True
      else if alloc_param_in No_synchronize aps then False
      else b)"


definition conew_array ::
  "type_traits \<Rightarrow> allocation list \<Rightarrow> nat \<Rightarrow> (nat \<Rightarrow> nat) \<Rightarrow> nat \<Rightarrow> argo_error + nat \<Rightarrow> (argo_error + nat) \<times> obj_event list" where
  "conew_array T aps n homenode nid r =
     (let initialize = new_initialize T aps 0;
          sync = conew_synchronize aps initialize
      in case r of
           Inl e \<Rightarrow> (Inl e, [])
         | Inr ptr \<Rightarrow>
             (Inr ptr, (if initialize \<and> nid = homenode ptr then elements_at Construct T ptr n else [])
                       @ (if sync then [Barrier] else [])))"

definition codelete_obj ::
  "type_traits \<Rightarrow> allocation list \<Rightarrow> (nat \<Rightarrow> nat) \<Rightarrow> nat \<Rightarrow> nat \<Rightarrow> allocators
     \<Rightarrow> (argo_error + unit) \<times> obj_event list \<times> allocators" where
  "codelete_obj T aps homenode nid ptr N =
     (if ptr = 0 then (Inr (), [], N)
      else let deinitialize = delete_deinitialize T aps;
               sync = conew_synchronize aps deinitialize;
               (r, N') = collective_free ptr N
           in (r, (if deinitialize \<and> nid = homenode ptr then [Destroy ptr] else [])
                  @ (if sync then [Barrier] else []), N'))"

definition codelete_array ::
  "type_traits \<Rightarrow> allocation list \<Rightarrow> (nat \<Rightarrow> nat) \<Rightarrow> nat \<Rightarrow> nat \<Rightarrow> allocators
     \<Rightarrow> (argo_error + unit) \<times> obj_event list \<times> allocators" where
  "codelete_array T aps homenode nid ptr N =
     (if ptr = 0 then (Inr (), [], N)
      else let deinitialize = delete_deinitialize T aps;
               sync = conew_synchronize aps deinitialize
           in case (if deinitialize \<and> nid = homenode ptr
                    then case allocated_space ptr (default_collective_allocator N) of
                           Inl e \<Rightarrow> Inl e
                         | Inr space \<Rightarrow> Inr (elements_at Destroy T ptr (space div sizeof_T T))
                    else Inr []) of
                Inl e \<Rightarrow> (Inl e, [], N)
              | Inr events \<Rightarrow>
                  (let (r, N') = collective_free ptr N
                   in (r, events @ (if sync then [Barrier] else []), N')))"


section \<open>Properties\<close>

text \<open>
  A container gets back the storage it gave back last: after \<^verbatim>\<open>deallocate\<close> of \<open>n\<close> elements the next \<^verbatim>\<open>allocate\<close> of
  as many returns the same block, and the allocators are as before.
\<close>

lemma adaptor_reuses:
  assumes "\<not> alloc_lock (default_dynamic_allocator N)" and "adaptor_deallocate T ptr n N = (r, N')"
  shows "r = Inr ()" and "adaptor_allocate T nid n (N', gm) = (Inr ptr, N, gm)"
proof -
  let ?A = "default_dynamic_allocator N"
  have d: "r = Inr ()" "N' = N\<lparr>default_dynamic_allocator := ?A\<lparr>freelist := (freelist ?A)
      (align_up (mul64 n (sizeof_T T)) max_align := ptr # freelist ?A (align_up (mul64 n (sizeof_T T)) max_align))\<rparr>\<rparr>"
    using assms by (auto simp: adaptor_deallocate_def deallocate_def Let_def mul64_def wrap64_def lock_op_def unlock_op_def
        deallocate_nosync_def align_up_def)
  show "r = Inr ()" by (rule d)
  show "adaptor_allocate T nid n (N', gm) = (Inr ptr, N, gm)"
    using assms(1) by (simp add: d adaptor_allocate_def allocate_def Let_def lock_op_def unlock_op_def align_up_def mul64_def wrap64_def)
qed

text \<open>The adaptor is \<^verbatim>\<open>dynamic_alloc\<close> and \<^verbatim>\<open>dynamic_free\<close> on bytes, without the test for a null pointer.\<close>

lemma adaptor_is_dynamic:
  "adaptor_allocate T nid n st = dynamic_alloc nid (mul64 n (sizeof_T T)) st"
  "ptr \<noteq> 0 \<Longrightarrow> adaptor_free ptr N = dynamic_free ptr N"
  by (simp_all add: adaptor_allocate_def dynamic_alloc_def adaptor_free_def dynamic_free_def)

text \<open>
  The size is computed modulo \<open>2 ^ 64\<close>: a request for \<open>2 ^ 60 + 1\<close> elements of 16 bytes succeeds and gives a
  block of 16 bytes.
\<close>

lemma adaptor_size_wraps:
  "adaptor_allocate \<lparr>sizeof_T = 16, is_trivial = True, is_trivially_destructible = True\<rparr> nid (2 ^ 60 + 1) st = dynamic_alloc nid 16 st"
  by (simp add: adaptor_is_dynamic mul64_def wrap64_def)







end
