(* ===== verification/Mpi_Atomics.thy ===== *)
theory Mpi_Atomics
  imports Swdsm_Sync
begin

text \<open>
  The atomic operations on global memory: the type-erased functions of the MPI backend
  (\<^verbatim>\<open>src/backend/mpi/mpi.cpp\<close>), which act on the home node's window, and the templates of
  \<^verbatim>\<open>src/backend/backend.hpp\<close>, which add the coherence actions of the memory order. An object is its
  bytes, least significant first. The lock of a window is held around a single operation, so an
  operation is atomic.
\<close>

section \<open>Little-endian integers\<close>

fun le_val :: "byte list \<Rightarrow> nat" where
  "le_val [] = 0"
| "le_val (x # xs) = unat x + 256 * le_val xs"

fun le_bytes :: "nat \<Rightarrow> nat \<Rightarrow> byte list" where
  "le_bytes 0 n = []"
| "le_bytes (Suc k) n = word_of_nat (n mod 256) # le_bytes k (n div 256)"

lemma length_le_bytes [simp]: "length (le_bytes k n) = k"
  by (induction k arbitrary: n) simp_all

lemma unat_byte: "unat (word_of_nat (n mod 256) :: byte) = n mod 256"
  by (simp add: unat_of_nat)

lemma le_val_bytes: "le_val (le_bytes k n) = n mod 256 ^ k"
proof (induction k arbitrary: n)
  case (Suc k)
  have "n mod 256 ^ Suc k = n mod 256 + 256 * (n div 256 mod 256 ^ k)"
    using mod_mult2_eq [of n 256 "256 ^ k"] by simp
  then show ?case using Suc by (simp add: unat_byte)
qed simp

lemma byte_less: "unat (x :: byte) < 256"
  using unsigned_less [of x, where 'a = nat] by simp

lemma le_val_less: "le_val xs < 256 ^ length xs"
proof (induction xs)
  case (Cons x xs)
  with byte_less [of x] show ?case by simp
qed simp

lemma le_bytes_val: "le_bytes (length xs) (le_val xs) = xs"
proof (induction xs)
  case (Cons x xs)
  have "(unat x + 256 * le_val xs) mod 256 = unat x" "(unat x + 256 * le_val xs) div 256 = le_val xs"
    using byte_less [of x] by simp_all
  with Cons show ?case by simp
qed simp

lemma le_val_add:
  "length xs = length ys \<Longrightarrow> le_val (le_add c xs ys) = (le_val xs + le_val ys + c) mod 256 ^ length xs"
proof (induction c xs ys rule: le_add.induct)
  case (1 c x xs y ys)
  let ?t = "unat x + unat y + c"
  have IH: "le_val (le_add (?t div 256) xs ys) = (le_val xs + le_val ys + ?t div 256) mod 256 ^ length xs"
    using 1 by simp
  have e: "unat x + 256 * le_val xs + (unat y + 256 * le_val ys) + c
      = ?t mod 256 + 256 * (le_val xs + le_val ys + ?t div 256)"
    unfolding distrib_left using mult_div_mod_eq [of 256 ?t] by linarith
  have m: "(?t mod 256 + 256 * m) mod (256 * 256 ^ k) = ?t mod 256 + 256 * (m mod 256 ^ k)" for m k :: nat
    using mod_mult2_eq [of "?t mod 256 + 256 * m" 256 "256 ^ k"] by simp
  have "le_val (le_add c (x # xs) (y # ys)) = ?t mod 256 + 256 * le_val (le_add (?t div 256) xs ys)"
    by (simp add: Let_def unat_byte)
  then show ?case unfolding IH le_val.simps e length_Cons power_Suc m .
qed simp_all

section \<open>mpi.cpp\<close>

definition fitting_mpi_int :: "nat \<Rightarrow> argo_error + mpi_type" where
  "fitting_mpi_int sz =
     (if sz = 4 then Inr MPI_INT32_T else if sz = 8 then Inr MPI_INT64_T
      else Inl (Invalid_argument ''Invalid size (must be either 4 or 8)''))"

definition fitting_mpi_uint :: "nat \<Rightarrow> argo_error + mpi_type" where
  "fitting_mpi_uint sz =
     (if sz = 4 then Inr MPI_UINT32_T else if sz = 8 then Inr MPI_UINT64_T
      else Inl (Invalid_argument ''Invalid size (must be either 4 or 8)''))"

definition fitting_mpi_float :: "nat \<Rightarrow> argo_error + mpi_type" where
  "fitting_mpi_float sz =
     (if sz = 4 then Inr MPI_FLOAT else if sz = 8 then Inr MPI_DOUBLE
      else Inl (Invalid_argument ''Invalid size (must be power either 4, 8)''))"

text \<open>The window of an object: its home node and the displacement there.\<close>

definition mpi_target :: "swdsm_config \<Rightarrow> global_ptr \<Rightarrow> argo_error + nat \<times> nat" where
  "mpi_target c obj =
     bindE (gp_offset (policy c) obj) (\<lambda>(offset, obj).
     bindE (gp_node (policy c) obj) (\<lambda>(node, obj). Inr (node, get_data_win_offset c offset)))"

definition mpi_exchange ::
  "ext \<Rightarrow> swdsm_config \<Rightarrow> global_ptr \<Rightarrow> byte list \<Rightarrow> nat \<Rightarrow> cluster \<Rightarrow> argo_error + byte list \<times> cluster" where
  "mpi_exchange E c obj desired sz s =
     bindE (fitting_mpi_int sz) (\<lambda>t_type. bindE (mpi_target c obj) (\<lambda>(h, win_offset).
       let (out, w) = MPI_Fetch_and_replace E desired win_offset (data_window c (s h))
       in Inr (out, upd h (set_data_window c w) s)))"

definition mpi_store ::
  "ext \<Rightarrow> swdsm_config \<Rightarrow> global_ptr \<Rightarrow> byte list \<Rightarrow> nat \<Rightarrow> cluster \<Rightarrow> argo_error + cluster" where
  "mpi_store E c obj desired sz s =
     bindE (fitting_mpi_int sz) (\<lambda>t_type. bindE (mpi_target c obj) (\<lambda>(h, win_offset).
       Inr (upd h (set_data_window c (MPI_Put E desired win_offset (data_window c (s h)))) s)))"

definition mpi_load ::
  "ext \<Rightarrow> swdsm_config \<Rightarrow> global_ptr \<Rightarrow> nat \<Rightarrow> cluster \<Rightarrow> argo_error + byte list" where
  "mpi_load E c obj sz s =
     bindE (fitting_mpi_int sz) (\<lambda>t_type. bindE (mpi_target c obj) (\<lambda>(h, win_offset).
       Inr (MPI_Get E win_offset sz (data_window c (s h)))))"

definition mpi_compare_exchange ::
  "ext \<Rightarrow> swdsm_config \<Rightarrow> global_ptr \<Rightarrow> byte list \<Rightarrow> nat \<Rightarrow> byte list \<Rightarrow> cluster
     \<Rightarrow> argo_error + byte list \<times> cluster" where
  "mpi_compare_exchange E c obj desired sz expected s =
     bindE (fitting_mpi_int sz) (\<lambda>t_type. bindE (mpi_target c obj) (\<lambda>(h, win_offset).
       let (out, w) = MPI_Compare_and_swap E desired expected win_offset (data_window c (s h))
       in Inr (out, upd h (set_data_window c w) s)))"

definition mpi_fetch_add ::
  "ext \<Rightarrow> swdsm_config \<Rightarrow> global_ptr \<Rightarrow> byte list \<Rightarrow> mpi_type \<Rightarrow> cluster \<Rightarrow> argo_error + byte list \<times> cluster" where
  "mpi_fetch_add E c obj val t_type s =
     bindE (mpi_target c obj) (\<lambda>(h, win_offset).
       let (out, w) = MPI_Fetch_and_sum E t_type val win_offset (data_window c (s h))
       in Inr (out, upd h (set_data_window c w) s))"

definition mpi_fetch_add_int ::
  "ext \<Rightarrow> swdsm_config \<Rightarrow> global_ptr \<Rightarrow> byte list \<Rightarrow> nat \<Rightarrow> cluster \<Rightarrow> argo_error + byte list \<times> cluster" where
  "mpi_fetch_add_int E c obj val sz s = bindE (fitting_mpi_int sz) (\<lambda>t. mpi_fetch_add E c obj val t s)"

definition mpi_fetch_add_uint ::
  "ext \<Rightarrow> swdsm_config \<Rightarrow> global_ptr \<Rightarrow> byte list \<Rightarrow> nat \<Rightarrow> cluster \<Rightarrow> argo_error + byte list \<times> cluster" where
  "mpi_fetch_add_uint E c obj val sz s = bindE (fitting_mpi_uint sz) (\<lambda>t. mpi_fetch_add E c obj val t s)"

definition mpi_fetch_add_float ::
  "ext \<Rightarrow> swdsm_config \<Rightarrow> global_ptr \<Rightarrow> byte list \<Rightarrow> nat \<Rightarrow> cluster \<Rightarrow> argo_error + byte list \<times> cluster" where
  "mpi_fetch_add_float E c obj val sz s = bindE (fitting_mpi_float sz) (\<lambda>t. mpi_fetch_add E c obj val t s)"

text \<open>\<^verbatim>\<open>backend::acquire\<close> and \<^verbatim>\<open>backend::release\<close>; their fences order the calling thread's own accesses.\<close>

definition backend_acquire :: "ext \<Rightarrow> swdsm_config \<Rightarrow> nat \<Rightarrow> cluster \<Rightarrow> argo_error + cluster" where
  "backend_acquire E c r s = argo_acquire E c r s"

definition backend_release :: "ext \<Rightarrow> swdsm_config \<Rightarrow> nat \<Rightarrow> cluster \<Rightarrow> argo_error + cluster" where
  "backend_release E c r s = argo_release E c r s"

section \<open>backend.hpp\<close>

datatype memory_order = mo_relaxed | mo_acquire | mo_release | mo_acq_rel

text \<open>
  The common frame of the templates on node \<open>r\<close>: the pointer is converted to \<^verbatim>\<open>global_ptr<void>\<close>, which
  computes its home node and offset, between a release before and an acquire after, as the order asks.
\<close>

definition ordered ::
  "ext \<Rightarrow> swdsm_config \<Rightarrow> nat \<Rightarrow> memory_order \<Rightarrow> (cluster \<Rightarrow> argo_error + 'a \<times> cluster) \<Rightarrow> cluster
     \<Rightarrow> argo_error + 'a \<times> cluster" where
  "ordered E c r order f s =
     bindE (if order = mo_acq_rel \<or> order = mo_release then backend_release E c r s else Inr s) (\<lambda>s.
     bindE (f s) (\<lambda>(out, s).
     bindE (if order = mo_acq_rel \<or> order = mo_acquire then backend_acquire E c r s else Inr s)
       (\<lambda>s. Inr (out, s))))"

definition atomic_exchange ::
  "ext \<Rightarrow> swdsm_config \<Rightarrow> nat \<Rightarrow> global_ptr \<Rightarrow> byte list \<Rightarrow> memory_order \<Rightarrow> cluster
     \<Rightarrow> argo_error + byte list \<times> cluster" where
  "atomic_exchange E c r obj desired order s =
     ordered E c r order (\<lambda>s. bindE (global_ptr_convert (policy c) obj)
       (\<lambda>obj. mpi_exchange E c obj desired (length desired) s)) s"

definition atomic_store ::
  "ext \<Rightarrow> swdsm_config \<Rightarrow> nat \<Rightarrow> global_ptr \<Rightarrow> byte list \<Rightarrow> memory_order \<Rightarrow> cluster \<Rightarrow> argo_error + cluster" where
  "atomic_store E c r obj desired order s =
     bindE (ordered E c r order (\<lambda>s. bindE (global_ptr_convert (policy c) obj)
       (\<lambda>obj. bindE (mpi_store E c obj desired (length desired) s) (\<lambda>s. Inr ((), s)))) s) (\<lambda>(_, s). Inr s)"

definition atomic_load ::
  "ext \<Rightarrow> swdsm_config \<Rightarrow> nat \<Rightarrow> global_ptr \<Rightarrow> nat \<Rightarrow> memory_order \<Rightarrow> cluster
     \<Rightarrow> argo_error + byte list \<times> cluster" where
  "atomic_load E c r obj sizeof_T order s =
     ordered E c r order (\<lambda>s. bindE (global_ptr_convert (policy c) obj)
       (\<lambda>obj. bindE (mpi_load E c obj sizeof_T s) (\<lambda>out. Inr (out, s)))) s"

definition atomic_compare_exchange ::
  "ext \<Rightarrow> swdsm_config \<Rightarrow> nat \<Rightarrow> global_ptr \<Rightarrow> byte list \<Rightarrow> byte list \<Rightarrow> memory_order \<Rightarrow> cluster
     \<Rightarrow> argo_error + bool \<times> cluster" where
  "atomic_compare_exchange E c r obj expected desired order s =
     bindE (ordered E c r order (\<lambda>s. bindE (global_ptr_convert (policy c) obj)
       (\<lambda>obj. mpi_compare_exchange E c obj desired (length desired) expected s)) s)
       (\<lambda>(out, s). Inr (out = expected, s))"

text \<open>The type \<^verbatim>\<open>T\<close> of a \<^verbatim>\<open>fetch_add\<close>, as far as the template asks for it.\<close>

datatype num_kind = Floating_point | Unsigned_int | Signed_int | Not_arithmetic

definition atomic_fetch_add ::
  "ext \<Rightarrow> swdsm_config \<Rightarrow> nat \<Rightarrow> num_kind \<Rightarrow> global_ptr \<Rightarrow> byte list \<Rightarrow> memory_order \<Rightarrow> cluster
     \<Rightarrow> argo_error + byte list \<times> cluster" where
  "atomic_fetch_add E c r T obj val order s =
     ordered E c r order (\<lambda>s.
       if T = Not_arithmetic then Inl (Invalid_argument ''Invalid type V for value'')
       else bindE (global_ptr_convert (policy c) obj) (\<lambda>obj.
         (case T of
            Floating_point \<Rightarrow> mpi_fetch_add_float E c obj val (length val) s
          | Unsigned_int \<Rightarrow> mpi_fetch_add_uint E c obj val (length val) s
          | _ \<Rightarrow> mpi_fetch_add_int E c obj val (length val) s))) s"

text \<open>The overload for pointers adds \<^verbatim>\<open>value * sizeof(T)\<close> to the address.\<close>

definition atomic_fetch_add_ptr ::
  "ext \<Rightarrow> swdsm_config \<Rightarrow> nat \<Rightarrow> nat \<Rightarrow> global_ptr \<Rightarrow> nat \<Rightarrow> memory_order \<Rightarrow> cluster
     \<Rightarrow> argo_error + byte list \<times> cluster" where
  "atomic_fetch_add_ptr E c r sizeof_T obj val order s =
     ordered E c r order (\<lambda>s. bindE (global_ptr_convert (policy c) obj)
       (\<lambda>obj. mpi_fetch_add_uint E c obj (le_bytes 8 (mul64 val sizeof_T)) 8 s)) s"

section \<open>A word of global memory as an atomic object\<close>

text \<open>
  The object at the address \<open>x\<close>: its bytes in the home memory, and its global pointer as the
  constructor leaves it.
\<close>

definition gptr :: "swdsm_config \<Rightarrow> nat \<Rightarrow> global_ptr" where
  "gptr c x = \<lparr>gp_homenode = invalid_node_id, gp_local_offset = invalid_offset, gp_access_ptr = add64 x (startAddr c)\<rparr>"

definition object_bytes :: "swdsm_config \<Rightarrow> nat \<Rightarrow> nat \<Rightarrow> cluster \<Rightarrow> byte list" where
  "object_bytes c x k s = slice (off_of c x) k (data_window c (s (home_of c x)))"

definition set_object :: "swdsm_config \<Rightarrow> nat \<Rightarrow> byte list \<Rightarrow> cluster \<Rightarrow> cluster" where
  "set_object c x bs s =
     upd (home_of c x) (\<lambda>nd. set_data_window c (splice bs (off_of c x) (data_window c nd)) nd) s"

lemma object_set [simp]: "length bs = k \<Longrightarrow> object_bytes c x k (set_object c x bs s) = bs"
  by (auto simp: object_bytes_def set_object_def slice_splice)

lemma length_object [simp]: "length (object_bytes c x k s) = k"
  by (simp add: object_bytes_def)

context placement
begin

lemma gptr_convert:
  assumes x: "x < size_of_all c" and n: "numtasks c \<le> 64"
  shows "\<exists>g. global_ptr_convert (policy c) (gptr c x) = Inr g \<and> mpi_target c g = Inr (home_of c x, off_of c x)"
proof -
  have h: "op_homenode (policy c) (add64 x (startAddr c)) = Inr (home_of c x)"
    using get_homenode_eq [OF x] home_total [OF x]
    by (auto simp: get_homenode_def global_ptr_new_def gp_node_def Let_def bindE_eq_Inr_conv home_of_def split: if_splits)
  have q: "op_local_offset (policy c) (add64 x (startAddr c)) = Inr (off_of c x)"
    using get_offset_eq [OF x] off_total [OF x]
    by (auto simp: get_offset_def global_ptr_new_def gp_offset_def Let_def bindE_eq_Inr_conv off_of_def split: if_splits)
  show ?thesis
    using h q by (auto simp: global_ptr_convert_def gptr_def gp_node_def gp_offset_def gp_get_def mpi_target_def get_data_win_offset_def)
qed

end

end
