(* ===== verification/First_Touch.thy ===== *)
theory First_Touch
  imports Mpi_Atomics
begin

text \<open>
  The first-touch policy of \<^verbatim>\<open>src/data_distribution/first_touch_distribution.hpp\<close> on the directory
  functions of \<^verbatim>\<open>src/backend/mpi/mpi.cpp\<close>. The owners directory and the offsets table exist once per
  node. A node runs one call of the policy at a time, because the calls hold \<^verbatim>\<open>owners_mutex\<close>, but the
  calls of different nodes interleave: a step of the model is one access to a window, which the MPI
  lock of the window makes atomic, and the program counter of a node says which access comes next.
  The abstract specification is a placement of pages that is written once and never maps two pages
  to one place; every interleaving refines it.
\<close>

section \<open>The directory functions of mpi.cpp\<close>

record directory =
  owners_dir :: "nat \<Rightarrow> nat \<Rightarrow> nat"
  offsets_tbl :: "nat \<Rightarrow> nat \<Rightarrow> nat"

text \<open>The local functions act on the arrays of the calling node, whose rank they are given.\<close>

definition store_public_owners_dir ::
  "'x mpi_scheme \<Rightarrow> nat list \<Rightarrow> nat \<Rightarrow> nat \<Rightarrow> nat \<Rightarrow> directory \<Rightarrow> argo_error + directory" where
  "store_public_owners_dir M desired sz rank disp s =
     bindE (fitting_mpi_int sz) (\<lambda>t_type.
       Inr (s\<lparr>owners_dir := (owners_dir s)(rank := MPI_Put_elems M t_type desired disp (owners_dir s rank))\<rparr>))"

definition store_local_owners_dir :: "nat list \<Rightarrow> nat \<Rightarrow> nat \<Rightarrow> directory \<Rightarrow> directory" where
  "store_local_owners_dir desired rank disp s =
     s\<lparr>owners_dir := (owners_dir s)(rank := splice desired disp (owners_dir s rank))\<rparr>"

definition store_local_offsets_tbl :: "nat \<Rightarrow> nat \<Rightarrow> nat \<Rightarrow> directory \<Rightarrow> directory" where
  "store_local_offsets_tbl desired rank disp s =
     s\<lparr>offsets_tbl := (offsets_tbl s)(rank := (offsets_tbl s rank)(disp := desired))\<rparr>"

definition load_public_owners_dir ::
  "'x mpi_scheme \<Rightarrow> nat \<Rightarrow> nat \<Rightarrow> nat \<Rightarrow> nat \<Rightarrow> directory \<Rightarrow> argo_error + nat list" where
  "load_public_owners_dir M sz cnt rank disp s =
     bindE (fitting_mpi_int sz) (\<lambda>t_type. Inr (MPI_Get_elems M t_type disp cnt (owners_dir s rank)))"

definition load_local_owners_dir :: "nat \<Rightarrow> nat \<Rightarrow> nat \<Rightarrow> directory \<Rightarrow> nat list" where
  "load_local_owners_dir cnt rank disp s = slice disp cnt (owners_dir s rank)"

definition load_local_offsets_tbl :: "nat \<Rightarrow> nat \<Rightarrow> directory \<Rightarrow> nat" where
  "load_local_offsets_tbl rank disp s = offsets_tbl s rank disp"

definition compare_exchange_owners_dir ::
  "'x mpi_scheme \<Rightarrow> nat \<Rightarrow> nat \<Rightarrow> nat \<Rightarrow> nat \<Rightarrow> nat \<Rightarrow> directory \<Rightarrow> argo_error + nat \<times> directory" where
  "compare_exchange_owners_dir M desired expected sz rank disp s =
     bindE (fitting_mpi_int sz) (\<lambda>t_type.
       let (out, w) = MPI_Compare_and_swap_elem M t_type desired expected disp (owners_dir s rank)
       in Inr (out, s\<lparr>owners_dir := (owners_dir s)(rank := w)\<rparr>))"

definition compare_exchange_offsets_tbl ::
  "'x mpi_scheme \<Rightarrow> nat \<Rightarrow> nat \<Rightarrow> nat \<Rightarrow> nat \<Rightarrow> nat \<Rightarrow> directory \<Rightarrow> argo_error + nat \<times> directory" where
  "compare_exchange_offsets_tbl M desired expected sz rank disp s =
     bindE (fitting_mpi_int sz) (\<lambda>t_type.
       let (out, w) = MPI_Compare_and_swap_elem M t_type desired expected disp (offsets_tbl s rank)
       in Inr (out, s\<lparr>offsets_tbl := (offsets_tbl s)(rank := w)\<rparr>))"

section \<open>first\_touch\_distribution.hpp\<close>

definition single_entry_size :: nat where
  "single_entry_size = 1"

definition page_info_size :: nat where
  "page_info_size = single_entry_size * 3"

definition sizeof_size_t :: nat where
  "sizeof_size_t = 8"

definition is_all_equal_to :: "nat list \<Rightarrow> nat \<Rightarrow> bool" where
  "is_all_equal_to arr v \<longleftrightarrow> arr ! 0 = v \<and> arr ! 1 = v \<and> arr ! 2 = v"

definition is_one_equal_to :: "nat list \<Rightarrow> nat \<Rightarrow> bool" where
  "is_one_equal_to arr v \<longleftrightarrow> arr ! 0 = v \<or> arr ! 1 = v \<or> arr ! 2 = v"

definition msg_first_touch_fail :: string where
  "msg_first_touch_fail = ''ArgoDSM failed to find a backing node. Please report a bug.''"

definition global_null :: "base_distribution \<Rightarrow> nat" where
  "global_null D = add64 (total_size D) 1"

definition owners_dir_window_index :: "nat \<Rightarrow> nat" where
  "owners_dir_window_index addr = mul64 page_info_size (addr div granularity)"

definition cas_node :: "base_distribution \<Rightarrow> nat \<Rightarrow> nat" where
  "cas_node D addr = (addr div granularity) mod nodes D"

text \<open>The four virtual functions, and the place in the code a call has reached.\<close>

datatype ft_call = Homenode | Local_offset | Peek_homenode | Peek_local_offset

datatype ft_pc =
    FT_idle
  | FT_local
  | FT_public
  | FT_public_wait
  | FT_copy "nat list"
  | FT_claim
  | FT_search nat nat
  | FT_offset nat nat nat
  | FT_cache nat nat nat bool
  | FT_store_local nat nat
  | FT_store_public nat nat
  | FT_await
  | FT_spin
  | FT_done "argo_error + nat"

text \<open>
  \<^verbatim>\<open>update_dirs\<close>: \<open>FT_local\<close> loads the ownership from the local window, \<open>FT_public\<close> the page info from
  the window of \<^verbatim>\<open>cas_node\<close>, \<open>FT_public_wait\<close> is the body of its \<^verbatim>\<open>while\<close> loop and \<open>FT_copy\<close> the store
  that follows. \<open>FT_claim\<close> is the entry of \<^verbatim>\<open>first_touch\<close> and \<open>FT_spin\<close> the return.
\<close>

fun update_dirs ::
  "'x mpi_scheme \<Rightarrow> base_distribution \<Rightarrow> bool \<Rightarrow> nat \<Rightarrow> nat \<Rightarrow> ft_pc \<Rightarrow> directory \<Rightarrow> argo_error + ft_pc \<times> directory" where
  "update_dirs M D do_first_touch rank addr FT_local s =
     (let ownership = load_local_owners_dir single_entry_size rank (owners_dir_window_index addr + 2) s ! 0
      in Inr (if ownership = global_null D then FT_public else FT_spin, s))"
| "update_dirs M D do_first_touch rank addr FT_public s =
     bindE (load_public_owners_dir M sizeof_size_t page_info_size (cas_node D addr) (owners_dir_window_index addr) s)
       (\<lambda>page_info.
          Inr (if \<not> is_all_equal_to page_info (global_null D)
               then if rank \<noteq> cas_node D addr
                    then if is_one_equal_to page_info (global_null D) then FT_public_wait else FT_copy page_info
                    else FT_spin
               else if do_first_touch then FT_claim else FT_spin, s))"
| "update_dirs M D do_first_touch rank addr FT_public_wait s =
     bindE (load_public_owners_dir M sizeof_size_t page_info_size (cas_node D addr) (owners_dir_window_index addr) s)
       (\<lambda>page_info.
          Inr (if is_one_equal_to page_info (global_null D) then FT_public_wait else FT_copy page_info, s))"
| "update_dirs M D do_first_touch rank addr (FT_copy page_info) s =
     Inr (FT_spin, store_local_owners_dir page_info rank (owners_dir_window_index addr) s)"
| "update_dirs M D do_first_touch rank addr pc s = Inr (pc, s)"

text \<open>
  \<^verbatim>\<open>first_touch\<close>: \<open>FT_claim\<close> is the compare-and-swap of the ownership; \<open>FT_search n searched\<close> the head
  of the search for a node with room; \<open>FT_offset n searched offset\<close> the \<^verbatim>\<open>while\<close> loop that claims an
  offset there; \<open>FT_cache\<close> the rest of the loop body, with the flag \<^verbatim>\<open>succeeded\<close>; then the stores of
  the page info. \<open>FT_await\<close> is the \<^verbatim>\<open>do\<close> loop of a node that lost the race for the page.
\<close>

definition search_next :: "base_distribution \<Rightarrow> nat \<Rightarrow> nat \<Rightarrow> argo_error + ft_pc" where
  "search_next D n searched =
     (if searched < nodes D then Inr (FT_search n searched) else Inl (System_error msg_first_touch_fail))"

fun first_touch_step ::
  "'x mpi_scheme \<Rightarrow> base_distribution \<Rightarrow> nat \<Rightarrow> nat \<Rightarrow> ft_pc \<Rightarrow> directory \<Rightarrow> argo_error + ft_pc \<times> directory" where
  "first_touch_step M D rank addr FT_claim s =
     bindE (compare_exchange_owners_dir M rank (global_null D) sizeof_size_t (cas_node D addr)
              (owners_dir_window_index addr + 2) s)
       (\<lambda>(result, s).
          if result = global_null D
          then bindE (search_next D rank 0) (\<lambda>pc. Inr (pc, s))
          else Inr (if rank \<noteq> cas_node D addr then FT_await else FT_spin, s))"
| "first_touch_step M D rank addr (FT_search n searched) s =
     Inr (FT_offset n searched (load_local_offsets_tbl rank n s), s)"
| "first_touch_step M D rank addr (FT_offset n searched offset) s =
     (if offset < size_per_node D
      then bindE (compare_exchange_offsets_tbl M (add64 offset granularity) offset sizeof_size_t n n s)
             (\<lambda>(result, s).
                Inr (if result = offset then FT_cache n searched offset True else FT_offset n searched result, s))
      else Inr (FT_cache n searched offset False, s))"
| "first_touch_step M D rank addr (FT_cache n searched offset succeeded) s =
     (let s = (if n \<noteq> rank then store_local_offsets_tbl offset rank n s else s)
      in if succeeded then Inr (FT_store_local n offset, s)
         else bindE (search_next D ((n + 1) mod nodes D) (searched + 1)) (\<lambda>pc. Inr (pc, s)))"
| "first_touch_step M D rank addr (FT_store_local homenode offset) s =
     Inr (if rank \<noteq> cas_node D addr then FT_store_public homenode offset else FT_spin,
          store_local_owners_dir [homenode, offset, rank] rank (owners_dir_window_index addr) s)"
| "first_touch_step M D rank addr (FT_store_public homenode offset) s =
     bindE (store_public_owners_dir M [homenode, offset, rank] sizeof_size_t (cas_node D addr)
              (owners_dir_window_index addr) s)
       (\<lambda>s. Inr (FT_spin, s))"
| "first_touch_step M D rank addr FT_await s =
     bindE (load_public_owners_dir M sizeof_size_t page_info_size (cas_node D addr) (owners_dir_window_index addr) s)
       (\<lambda>page_info. Inr (if is_one_equal_to page_info (global_null D) then FT_await else FT_copy page_info, s))"
| "first_touch_step M D rank addr pc s = Inr (pc, s)"

text \<open>
  The spin loops at the end of the four functions, with the checks that follow. \<^verbatim>\<open>homenode\<close> loads eight
  bytes into a variable of four; what the variable holds then is the low half.
\<close>

definition homenode_spin :: "base_distribution \<Rightarrow> nat \<Rightarrow> nat \<Rightarrow> directory \<Rightarrow> argo_error + ft_pc" where
  "homenode_spin D rank ptr s =
     (let homenode = wrap32 (load_local_owners_dir single_entry_size rank
                       (owners_dir_window_index (page_addr D ptr)) s ! 0)
      in if homenode = wrap32 (global_null D) then Inr FT_spin
         else bindE (check_home D homenode) (\<lambda>h. Inr (FT_done (Inr h))))"

definition local_offset_spin :: "base_distribution \<Rightarrow> nat \<Rightarrow> nat \<Rightarrow> directory \<Rightarrow> argo_error + ft_pc" where
  "local_offset_spin D rank ptr s =
     (let offset = load_local_owners_dir single_entry_size rank
                     (owners_dir_window_index (page_addr D ptr) + 1) s ! 0
      in if offset = global_null D then Inr FT_spin
         else bindE (check_offset D (add64 offset (page_drift D ptr))) (\<lambda>q. Inr (FT_done (Inr q))))"

definition peek_homenode_spin :: "base_distribution \<Rightarrow> nat \<Rightarrow> nat \<Rightarrow> directory \<Rightarrow> argo_error + ft_pc" where
  "peek_homenode_spin D rank ptr s =
     (let page_info = load_local_owners_dir page_info_size rank (owners_dir_window_index (page_addr D ptr)) s
      in if page_info ! 2 \<noteq> global_null D \<and> page_info ! 0 = global_null D then Inr FT_spin
         else let homenode = (if page_info ! 0 \<noteq> global_null D then wrap32 (page_info ! 0) else invalid_node_id)
              in bindE (check_home D homenode) (\<lambda>h. Inr (FT_done (Inr h))))"

definition peek_local_offset_spin :: "base_distribution \<Rightarrow> nat \<Rightarrow> nat \<Rightarrow> directory \<Rightarrow> argo_error + ft_pc" where
  "peek_local_offset_spin D rank ptr s =
     (let page_info = load_local_owners_dir page_info_size rank (owners_dir_window_index (page_addr D ptr)) s
      in if page_info ! 2 \<noteq> global_null D \<and> page_info ! 1 = global_null D then Inr FT_spin
         else let offset = (if page_info ! 1 \<noteq> global_null D
                            then add64 (page_info ! 1) (page_drift D ptr) else invalid_offset)
              in if offset \<noteq> invalid_offset \<and> offset \<ge> size_per_node D
                 then Inl (System_error msg_fetch_offset_fail) else Inr (FT_done (Inr offset)))"

fun ft_spin :: "base_distribution \<Rightarrow> ft_call \<Rightarrow> nat \<Rightarrow> nat \<Rightarrow> directory \<Rightarrow> argo_error + ft_pc" where
  "ft_spin D Homenode = homenode_spin D"
| "ft_spin D Local_offset = local_offset_spin D"
| "ft_spin D Peek_homenode = peek_homenode_spin D"
| "ft_spin D Peek_local_offset = peek_local_offset_spin D"

text \<open>One step of a call: the \<^verbatim>\<open>peek\<close> functions pass \<^verbatim>\<open>do_first_touch = false\<close>.\<close>

definition ft_step ::
  "'x mpi_scheme \<Rightarrow> base_distribution \<Rightarrow> ft_call \<Rightarrow> nat \<Rightarrow> nat \<Rightarrow> ft_pc \<Rightarrow> directory \<Rightarrow> argo_error + ft_pc \<times> directory" where
  "ft_step M D call rank ptr pc s =
     (let addr = page_addr D ptr;
          in_update_dirs = update_dirs M D (call = Homenode \<or> call = Local_offset) rank addr pc s
      in case pc of
           FT_idle \<Rightarrow> Inr (FT_idle, s)
         | FT_local \<Rightarrow> in_update_dirs
         | FT_public \<Rightarrow> in_update_dirs
         | FT_public_wait \<Rightarrow> in_update_dirs
         | FT_copy page_info \<Rightarrow> in_update_dirs
         | FT_spin \<Rightarrow> bindE (ft_spin D call rank ptr s) (\<lambda>pc. Inr (pc, s))
         | FT_done res \<Rightarrow> Inr (FT_done res, s)
         | _ \<Rightarrow> first_touch_step M D rank addr pc s)"

text \<open>
  The nodes together: a node starts a call with any address of the global memory, makes a step, or
  leaves the call with an exception.
\<close>

type_synonym ft_threads = "nat \<Rightarrow> ft_call \<times> nat \<times> ft_pc"

fun ft_inside :: "ft_pc \<Rightarrow> bool" where
  "ft_inside FT_idle \<longleftrightarrow> False"
| "ft_inside (FT_done res) \<longleftrightarrow> False"
| "ft_inside pc \<longleftrightarrow> True"

inductive ft_sys :: "'x mpi_scheme \<Rightarrow> base_distribution \<Rightarrow> directory \<times> ft_threads \<Rightarrow> directory \<times> ft_threads \<Rightarrow> bool"
  for M :: "'x mpi_scheme" and D :: base_distribution where
  call: "r < nodes D \<Longrightarrow> T r = (k, ptr, pc) \<Longrightarrow> \<not> ft_inside pc \<Longrightarrow> a < total_size D \<Longrightarrow>
    ft_sys M D (s, T) (s, T(r := (k', start_address D + a, FT_local)))"
| step: "r < nodes D \<Longrightarrow> T r = (k, ptr, pc) \<Longrightarrow> ft_inside pc \<Longrightarrow> ft_step M D k r ptr pc s = Inr (pc', s') \<Longrightarrow>
    ft_sys M D (s, T) (s', T(r := (k, ptr, pc')))"
| raise: "r < nodes D \<Longrightarrow> T r = (k, ptr, pc) \<Longrightarrow> ft_inside pc \<Longrightarrow> ft_step M D k r ptr pc s = Inl e \<Longrightarrow>
    ft_sys M D (s, T) (s, T(r := (k, ptr, FT_done (Inl e))))"

inductive_cases ft_sysE: "ft_sys M D (s, T) \<sigma>"

text \<open>\<open>ft_run\<close> makes up to \<open>n\<close> steps of one call; a finished call stays finished.\<close>

fun ft_run ::
  "'x mpi_scheme \<Rightarrow> base_distribution \<Rightarrow> ft_call \<Rightarrow> nat \<Rightarrow> nat \<Rightarrow> nat \<Rightarrow> ft_pc \<Rightarrow> directory \<Rightarrow> argo_error + ft_pc \<times> directory" where
  "ft_run M D k r ptr 0 pc s = Inr (pc, s)"
| "ft_run M D k r ptr (Suc n) pc s = bindE (ft_step M D k r ptr pc s) (\<lambda>(pc, s). ft_run M D k r ptr n pc s)"

text \<open>
  \<^verbatim>\<open>argo_reset_coherence\<close> marks every page as untouched and sets every offset to zero, each node in its
  own windows, whatever they contained.
\<close>

definition owners_dir_size :: "base_distribution \<Rightarrow> nat" where
  "owners_dir_size D = 3 * (total_size D div granularity)"

definition reset_directory :: "base_distribution \<Rightarrow> nat \<Rightarrow> directory \<Rightarrow> directory" where
  "reset_directory D n s =
     s\<lparr>owners_dir := (owners_dir s)(n := (\<lambda>i. if i < owners_dir_size D then global_null D else owners_dir s n i)),
       offsets_tbl := (offsets_tbl s)(n := (\<lambda>i. if i < nodes D then 0 else offsets_tbl s n i))\<rparr>"

definition ft_reset :: "base_distribution \<Rightarrow> directory \<Rightarrow> directory" where
  "ft_reset D s = fold (reset_directory D) [0..<nodes D] s"

definition ft_start :: "base_distribution \<Rightarrow> directory \<Rightarrow> directory \<times> ft_threads" where
  "ft_start D s = (ft_reset D s, \<lambda>r. (Homenode, start_address D, FT_idle))"

section \<open>The accesses, entry by entry\<close>

definition ft_space :: "base_distribution \<Rightarrow> bool" where
  "ft_space D \<longleftrightarrow> 0 < nodes D \<and> nodes D < 2 ^ 32 \<and> 0 < size_per_node D \<and> granularity dvd size_per_node D
     \<and> total_size D = nodes D * size_per_node D \<and> start_address D + total_size D < 2 ^ 62"

definition pages :: "base_distribution \<Rightarrow> nat" where
  "pages D = total_size D div granularity"

definition page :: "base_distribution \<Rightarrow> nat \<Rightarrow> nat" where
  "page D ptr = sub64 ptr (start_address D) div granularity"

definition entry :: "directory \<Rightarrow> nat \<Rightarrow> nat \<Rightarrow> nat \<times> nat \<times> nat" where
  "entry s n p = (owners_dir s n (3 * p), owners_dir s n (3 * p + 1), owners_dir s n (3 * p + 2))"

lemma ft_space_null:
  assumes "ft_space D"
  shows "global_null D = total_size D + 1" and "size_per_node D < global_null D" and "nodes D < global_null D"
proof -
  have b: "total_size D < 2 ^ 62" "0 < size_per_node D" "0 < nodes D" "total_size D = nodes D * size_per_node D"
    using assms by (auto simp: ft_space_def)
  from b(1) show n: "global_null D = total_size D + 1" by (simp add: global_null_def add64_id)
  from b(2-4) show "size_per_node D < global_null D" "nodes D < global_null D" by (simp_all add: n less_Suc_eq_le)
qed

lemma page_bound: "page D ptr < 2 ^ 60"
proof -
  have "sub64 ptr (start_address D) < 2 ^ 64" by (simp add: sub64_def wrap64_def)
  then show ?thesis by (simp add: page_def granularity_def less_mult_imp_div_less)
qed

lemma addr_index [simp]:
  "owners_dir_window_index (page_addr D ptr) = 3 * page D ptr" "cas_node D (page_addr D ptr) = page D ptr mod nodes D"
proof -
  have "page_addr D ptr div granularity = page D ptr" by (simp add: page_addr_def page_def)
  with page_bound [of D ptr]
  show "owners_dir_window_index (page_addr D ptr) = 3 * page D ptr" "cas_node D (page_addr D ptr) = page D ptr mod nodes D"
    by (simp_all add: owners_dir_window_index_def cas_node_def page_info_size_def single_entry_size_def mul64_id)
qed

lemma page_in_space: "ft_space D \<Longrightarrow> a < total_size D \<Longrightarrow> page D (start_address D + a) = a div granularity"
  by (simp add: page_def ft_space_def sub64_add_left)

lemma ft_page_less:
  assumes "ft_space D" and "a < total_size D"
  shows "page D (start_address D + a) < pages D"
proof -
  have "granularity dvd total_size D" using assms(1) by (simp add: ft_space_def)
  then obtain k where "total_size D = granularity * k" by (elim dvdE)
  with assms show ?thesis by (simp add: page_in_space pages_def less_mult_imp_div_less mult.commute)
qed

text \<open>How the stores change the entries and the offsets.\<close>

lemma entry_store_local [simp]:
  "entry (store_local_owners_dir [a, b, c] n (3 * p) s) m q = (if m = n \<and> q = p then (a, b, c) else entry s m q)"
proof (cases "q = p")
  case False
  then have "3 * q + 2 < 3 * p \<or> 3 * p + 2 < 3 * q" by arith
  then show ?thesis using False by (auto simp: entry_def store_local_owners_dir_def splice_def)
qed (auto simp: entry_def store_local_owners_dir_def splice_def)

lemma offsets_store_local [simp]: "offsets_tbl (store_local_owners_dir xs n i s) = offsets_tbl s"
  by (simp add: store_local_owners_dir_def)

lemma entry_set_owner [simp]:
  "entry (s\<lparr>owners_dir := (owners_dir s)(n := (owners_dir s n)(3 * p + 2 := v))\<rparr>) m q =
     (if m = n \<and> q = p then (fst (entry s n p), fst (snd (entry s n p)), v) else entry s m q)"
  "entry (s\<lparr>owners_dir := (owners_dir s)(n := (owners_dir s n)(Suc (Suc (3 * p)) := v))\<rparr>) m q =
     (if m = n \<and> q = p then (fst (entry s n p), fst (snd (entry s n p)), v) else entry s m q)"
  by (auto simp: entry_def)

lemma entry_offsets [simp]: "entry (s\<lparr>offsets_tbl := X\<rparr>) m q = entry s m q"
  by (simp add: entry_def)

lemma store_local_offsets [simp]:
  "entry (store_local_offsets_tbl q r n s) m p = entry s m p"
  "offsets_tbl (store_local_offsets_tbl q r n s) m i = (if m = r \<and> i = n then q else offsets_tbl s m i)"
  by (simp_all add: store_local_offsets_tbl_def entry_def)

lemma reset_fold:
  "m < n \<Longrightarrow> i < owners_dir_size D \<Longrightarrow> owners_dir (fold (reset_directory D) [0..<n] s) m i = global_null D"
  "m < n \<Longrightarrow> j < nodes D \<Longrightarrow> offsets_tbl (fold (reset_directory D) [0..<n] s) m j = 0"
  by (induction n) (auto simp: reset_directory_def less_Suc_eq)

lemma ft_reset_simps:
  "m < nodes D \<Longrightarrow> p < pages D \<Longrightarrow> entry (ft_reset D s) m p = (global_null D, global_null D, global_null D)"
  "m < nodes D \<Longrightarrow> j < nodes D \<Longrightarrow> offsets_tbl (ft_reset D s) m j = 0"
  by (simp_all add: ft_reset_def entry_def reset_fold pages_def owners_dir_size_def)

lemma load_entry:
  "entry s n p = (h, q, w) \<Longrightarrow> slice (3 * p) 3 (owners_dir s n) = [h, q, w]"
  "entry s n p = (h, q, w) \<Longrightarrow> slice (3 * p) (Suc 0) (owners_dir s n) = [h]"
  "entry s n p = (h, q, w) \<Longrightarrow> slice (Suc (3 * p)) (Suc 0) (owners_dir s n) = [q]"
  "entry s n p = (h, q, w) \<Longrightarrow> slice (Suc (Suc (3 * p))) (Suc 0) (owners_dir s n) = [w]"
  by (auto simp: entry_def slice_def numeral_3_eq_3)

lemmas ft_sizes = sizeof_size_t_def page_info_size_def single_entry_size_def fitting_mpi_int_def

text \<open>The steps of a call in terms of the entries of its page.\<close>

context mpi_rma
begin

lemma step_local:
  assumes "entry s r (page D ptr) = (h, q, w)"
  shows "ft_step M D k r ptr FT_local s = Inr (if w = global_null D then FT_public else FT_spin, s)"
  using assms by (simp add: entry_def ft_step_def load_local_owners_dir_def ft_sizes)

lemma load_public:
  assumes "entry s n p = (h, q, w)"
  shows "load_public_owners_dir M sizeof_size_t page_info_size n (3 * p) s = Inr [h, q, w]"
  using load_entry(1) [OF assms] by (simp add: load_public_owners_dir_def ft_sizes get_elems)

lemma step_public:
  assumes "entry s (page D ptr mod nodes D) (page D ptr) = (h, q, w)"
  shows "ft_step M D k r ptr FT_public s =
     Inr (if h = global_null D \<and> q = global_null D \<and> w = global_null D
          then if k = Homenode \<or> k = Local_offset then FT_claim else FT_spin
          else if r \<noteq> page D ptr mod nodes D
               then if global_null D \<in> {h, q, w} then FT_public_wait else FT_copy [h, q, w]
               else FT_spin, s)"
    and "ft_step M D k r ptr FT_public_wait s = Inr (if global_null D \<in> {h, q, w} then FT_public_wait else FT_copy [h, q, w], s)"
    and "ft_step M D k r ptr FT_await s = Inr (if global_null D \<in> {h, q, w} then FT_await else FT_copy [h, q, w], s)"
  using load_public [OF assms]
  by (auto simp: ft_step_def is_all_equal_to_def is_one_equal_to_def numeral_2_eq_2)

lemma step_copy:
  "ft_step M D k r ptr (FT_copy xs) s = Inr (FT_spin, store_local_owners_dir xs r (3 * page D ptr) s)"
  by (simp add: ft_step_def)

lemma step_claim:
  assumes "entry s (page D ptr mod nodes D) (page D ptr) = (h, q, w)" and "0 < nodes D"
  shows "ft_step M D k r ptr FT_claim s =
     (if w = global_null D
      then Inr (FT_search r 0, s\<lparr>owners_dir := (owners_dir s)(page D ptr mod nodes D :=
                  (owners_dir s (page D ptr mod nodes D))(3 * page D ptr + 2 := r))\<rparr>)
      else Inr (if r \<noteq> page D ptr mod nodes D then FT_await else FT_spin, s))"
proof -
  have w: "owners_dir s (page D ptr mod nodes D) (Suc (Suc (3 * page D ptr))) = w"
    using assms(1) by (simp add: entry_def)
  have "s\<lparr>owners_dir := owners_dir s\<rparr> = s" by simp
  with w assms(2) show ?thesis
    by (simp add: ft_step_def compare_exchange_owners_dir_def ft_sizes compare_and_swap_elem search_next_def)
qed

lemma step_search:
  "ft_step M D k r ptr (FT_search n i) s = Inr (FT_offset n i (offsets_tbl s r n), s)"
  by (simp add: ft_step_def load_local_offsets_tbl_def)

lemma step_offset:
  assumes "o' + granularity < 2 ^ 64"
  shows "ft_step M D k r ptr (FT_offset n i o') s =
     (if o' < size_per_node D
      then if offsets_tbl s n n = o'
           then Inr (FT_cache n i o' True,
                     s\<lparr>offsets_tbl := (offsets_tbl s)(n := (offsets_tbl s n)(n := o' + granularity))\<rparr>)
           else Inr (FT_offset n i (offsets_tbl s n n), s)
      else Inr (FT_cache n i o' False, s))"
proof -
  have "s\<lparr>offsets_tbl := offsets_tbl s\<rparr> = s" by simp
  with assms show ?thesis
    by (simp add: ft_step_def compare_exchange_offsets_tbl_def ft_sizes compare_and_swap_elem add64_id)
qed

lemma step_cache:
  "ft_step M D k r ptr (FT_cache n i o' b) s =
     (let s = (if n \<noteq> r then store_local_offsets_tbl o' r n s else s)
      in if b then Inr (FT_store_local n o', s)
         else if i + 1 < nodes D then Inr (FT_search ((n + 1) mod nodes D) (i + 1), s)
         else Inl (System_error msg_first_touch_fail))"
  by (simp add: ft_step_def search_next_def Let_def)

lemma step_store:
  "ft_step M D k r ptr (FT_store_local h q) s =
     Inr (if r \<noteq> page D ptr mod nodes D then FT_store_public h q else FT_spin,
          store_local_owners_dir [h, q, r] r (3 * page D ptr) s)"
  "ft_step M D k r ptr (FT_store_public h q) s =
     Inr (FT_spin, store_local_owners_dir [h, q, r] (page D ptr mod nodes D) (3 * page D ptr) s)"
  by (simp_all add: ft_step_def store_public_owners_dir_def ft_sizes put_elems store_local_owners_dir_def)

lemma step_spin:
  assumes "entry s r (page D ptr) = (h, q, w)"
  shows "ft_step M D Homenode r ptr FT_spin s =
       (if wrap32 h = wrap32 (global_null D) then Inr (FT_spin, s)
        else bindE (check_home D (wrap32 h)) (\<lambda>h. Inr (FT_done (Inr h), s)))"
    and "ft_step M D Local_offset r ptr FT_spin s =
       (if q = global_null D then Inr (FT_spin, s)
        else bindE (check_offset D (add64 q (page_drift D ptr))) (\<lambda>q. Inr (FT_done (Inr q), s)))"
    and "ft_step M D Peek_homenode r ptr FT_spin s =
       (if w \<noteq> global_null D \<and> h = global_null D then Inr (FT_spin, s)
        else bindE (check_home D (if h \<noteq> global_null D then wrap32 h else invalid_node_id)) (\<lambda>h. Inr (FT_done (Inr h), s)))"
    and "ft_step M D Peek_local_offset r ptr FT_spin s =
       (if w \<noteq> global_null D \<and> q = global_null D then Inr (FT_spin, s)
        else let q = (if q \<noteq> global_null D then add64 q (page_drift D ptr) else invalid_offset)
             in if q \<noteq> invalid_offset \<and> q \<ge> size_per_node D then Inl (System_error msg_fetch_offset_fail)
                else Inr (FT_done (Inr q), s))"
  using load_entry [OF assms]
  by (simp_all add: ft_step_def homenode_spin_def local_offset_spin_def peek_homenode_spin_def
      peek_local_offset_spin_def load_local_owners_dir_def ft_sizes Let_def bindE_assoc numeral_2_eq_2)

end

end
