(* ===== verification/First_Touch_Placement.thy ===== *)
theory First_Touch_Placement
  imports First_Touch
begin

text \<open>
  The correctness of the first-touch policy: the abstract placement of pages, the relation between a
  placement and a state of the directory with the program counters of all nodes, a guarantee that
  bounds what a step of one node can do to the others, the simulation step by step, the counting
  argument that shows there is room for every page, and the termination of a call that runs alone.
\<close>

section \<open>The abstract placement\<close>

text \<open>
  The specification: a partial map from pages to places, a place being a node and an offset in its
  memory. A step may place one page that has no place yet, at a place no page has.
\<close>

inductive place_step :: "(nat \<rightharpoonup> nat \<times> nat) \<Rightarrow> (nat \<rightharpoonup> nat \<times> nat) \<Rightarrow> bool" where
  keep: "place_step a a"
| place: "a p = None \<Longrightarrow> x \<notin> ran a \<Longrightarrow> place_step a (a(p \<mapsto> x))"

lemma place_steps_le: "place_step\<^sup>*\<^sup>* a b \<Longrightarrow> a \<subseteq>\<^sub>m b"
proof (induction rule: rtranclp_induct)
  case (step b c)
  from step.hyps(2) have "b \<subseteq>\<^sub>m c" by cases (auto simp: map_le_def dom_def)
  with step.IH show ?case by (rule map_le_trans)
qed simp

lemma place_steps_inj:
  assumes "place_step\<^sup>*\<^sup>* a b" and "inj_on a (dom a)"
  shows "inj_on b (dom b)"
  using assms
proof (induction rule: rtranclp_induct)
  case (step b c)
  from step.hyps(2) step.IH [OF step.prems] show ?case
    by cases (auto simp: inj_on_def dom_def ran_def)
qed simp

section \<open>The refinement relation\<close>

text \<open>
  An entry is full when it names a home node, an offset and the node that claimed the page. The
  entry in the window of \<^verbatim>\<open>cas_node\<close> is the one that decides.
\<close>

fun full :: "base_distribution \<Rightarrow> nat \<times> nat \<times> nat \<Rightarrow> bool" where
  "full D (h, q, w) \<longleftrightarrow> h < nodes D \<and> q < size_per_node D \<and> granularity dvd q \<and> w < nodes D"

abbreviation pub :: "base_distribution \<Rightarrow> directory \<Rightarrow> nat \<Rightarrow> nat \<times> nat \<times> nat" where
  "pub D s p \<equiv> entry s (p mod nodes D) p"

abbreviation counter :: "directory \<Rightarrow> nat \<Rightarrow> nat" where
  "counter s n \<equiv> offsets_tbl s n n"

fun claiming :: "ft_pc \<Rightarrow> bool" where
  "claiming (FT_search n i) \<longleftrightarrow> True"
| "claiming (FT_offset n i q) \<longleftrightarrow> True"
| "claiming (FT_cache n i q b) \<longleftrightarrow> True"
| "claiming (FT_store_local h q) \<longleftrightarrow> True"
| "claiming (FT_store_public h q) \<longleftrightarrow> True"
| "claiming pc \<longleftrightarrow> False"

definition searching :: "base_distribution \<Rightarrow> directory \<Rightarrow> (nat \<rightharpoonup> nat \<times> nat) \<Rightarrow> nat \<Rightarrow> nat \<Rightarrow> nat \<Rightarrow> nat \<Rightarrow> bool" where
  "searching D s a r p n i \<longleftrightarrow> i < nodes D \<and> n = (r + i) mod nodes D
     \<and> pub D s p = (global_null D, global_null D, r) \<and> a p = None
     \<and> (\<forall>j < i. counter s ((r + j) mod nodes D) = size_per_node D)"

fun result_ok :: "base_distribution \<Rightarrow> (nat \<rightharpoonup> nat \<times> nat) \<Rightarrow> ft_call \<Rightarrow> nat \<Rightarrow> argo_error + nat \<Rightarrow> bool" where
  "result_ok D a Homenode ptr res \<longleftrightarrow> (\<exists>h q. a (page D ptr) = Some (h, q) \<and> res = Inr h)"
| "result_ok D a Local_offset ptr res \<longleftrightarrow> (\<exists>h q. a (page D ptr) = Some (h, q) \<and> res = Inr (q + page_drift D ptr))"
| "result_ok D a Peek_homenode ptr res \<longleftrightarrow> res = Inl (System_error msg_fetch_homenode_fail)
     \<or> (\<exists>h q. a (page D ptr) = Some (h, q) \<and> res = Inr h)"
| "result_ok D a Peek_local_offset ptr res \<longleftrightarrow> res = Inr invalid_offset
     \<or> (\<exists>h q. a (page D ptr) = Some (h, q) \<and> res = Inr (q + page_drift D ptr))"

text \<open>What holds of the directory when node \<open>r\<close> is at a program counter.\<close>

fun pc_ok ::
  "base_distribution \<Rightarrow> directory \<Rightarrow> (nat \<rightharpoonup> nat \<times> nat) \<Rightarrow> nat \<Rightarrow> ft_call \<Rightarrow> nat \<Rightarrow> ft_pc \<Rightarrow> bool" where
  "pc_ok D s a r k ptr FT_public_wait \<longleftrightarrow> r \<noteq> page D ptr mod nodes D"
| "pc_ok D s a r k ptr FT_await \<longleftrightarrow> r \<noteq> page D ptr mod nodes D"
| "pc_ok D s a r k ptr (FT_copy xs) \<longleftrightarrow> r \<noteq> page D ptr mod nodes D
     \<and> (\<exists>h q w. xs = [h, q, w] \<and> pub D s (page D ptr) = (h, q, w) \<and> full D (h, q, w))"
| "pc_ok D s a r k ptr (FT_search n i) \<longleftrightarrow> searching D s a r (page D ptr) n i"
| "pc_ok D s a r k ptr (FT_offset n i q) \<longleftrightarrow> searching D s a r (page D ptr) n i \<and> q \<le> counter s n"
| "pc_ok D s a r k ptr (FT_cache n i q b) \<longleftrightarrow> q \<le> counter s n \<and>
     (if b then n < nodes D \<and> a (page D ptr) = Some (n, q)
        \<and> pub D s (page D ptr) = (global_null D, global_null D, r)
      else searching D s a r (page D ptr) n i \<and> counter s n = size_per_node D)"
| "pc_ok D s a r k ptr (FT_store_local h q) \<longleftrightarrow> a (page D ptr) = Some (h, q)
     \<and> pub D s (page D ptr) = (global_null D, global_null D, r)"
| "pc_ok D s a r k ptr (FT_store_public h q) \<longleftrightarrow> a (page D ptr) = Some (h, q)
     \<and> r \<noteq> page D ptr mod nodes D \<and> entry s r (page D ptr) = (h, q, r)
     \<and> pub D s (page D ptr) = (global_null D, global_null D, r)"
| "pc_ok D s a r k ptr FT_spin \<longleftrightarrow> (k = Homenode \<or> k = Local_offset \<longrightarrow>
     (if r = page D ptr mod nodes D then snd (snd (pub D s (page D ptr))) \<noteq> global_null D
      else full D (pub D s (page D ptr)) \<and> entry s r (page D ptr) = pub D s (page D ptr)))"
| "pc_ok D s a r k ptr (FT_done res) \<longleftrightarrow> result_ok D a k ptr res"
| "pc_ok D s a r k ptr pc \<longleftrightarrow> True"

definition entry_ok :: "base_distribution \<Rightarrow> directory \<Rightarrow> (nat \<rightharpoonup> nat \<times> nat) \<Rightarrow> ft_threads \<Rightarrow> nat \<Rightarrow> bool" where
  "entry_ok D s a T p \<longleftrightarrow>
     pub D s p = (global_null D, global_null D, global_null D) \<and> a p = None
   \<or> (\<exists>w < nodes D. pub D s p = (global_null D, global_null D, w)
        \<and> page D (fst (snd (T w))) = p \<and> claiming (snd (snd (T w))))
   \<or> (\<exists>h q w. pub D s p = (h, q, w) \<and> full D (h, q, w) \<and> a p = Some (h, q))"

definition copy_ok :: "base_distribution \<Rightarrow> directory \<Rightarrow> ft_threads \<Rightarrow> nat \<Rightarrow> nat \<Rightarrow> bool" where
  "copy_ok D s T p n \<longleftrightarrow> n = p mod nodes D
   \<or> entry s n p = (global_null D, global_null D, global_null D)
   \<or> full D (entry s n p) \<and> entry s n p = pub D s p
   \<or> (\<exists>h q. pub D s p = (global_null D, global_null D, n)
        \<and> page D (fst (snd (T n))) = p \<and> snd (snd (T n)) = FT_store_public h q)"

definition counters_ok :: "base_distribution \<Rightarrow> directory \<Rightarrow> (nat \<rightharpoonup> nat \<times> nat) \<Rightarrow> bool" where
  "counters_ok D s a \<longleftrightarrow>
     (\<forall>n < nodes D. counter s n \<le> size_per_node D \<and> granularity dvd counter s n
        \<and> (\<forall>r < nodes D. offsets_tbl s r n \<le> counter s n)
        \<and> (\<forall>q < counter s n. granularity dvd q \<longrightarrow> (n, q) \<in> ran a))
   \<and> (\<forall>p h q. a p = Some (h, q) \<longrightarrow> p < pages D \<and> h < nodes D \<and> q < counter s h \<and> granularity dvd q)"

definition ft_rel :: "base_distribution \<Rightarrow> (nat \<rightharpoonup> nat \<times> nat) \<Rightarrow> directory \<times> ft_threads \<Rightarrow> bool" where
  "ft_rel D a \<sigma> \<longleftrightarrow> (case \<sigma> of (s, T) \<Rightarrow>
     counters_ok D s a
   \<and> (\<forall>p < pages D. entry_ok D s a T p \<and> (\<forall>n < nodes D. copy_ok D s T p n))
   \<and> (\<forall>r < nodes D. case T r of (k, ptr, pc) \<Rightarrow> page D ptr < pages D \<and> pc_ok D s a r k ptr pc))"

lemma full_not_null:
  assumes "ft_space D" and "full D (h, q, w)"
  shows "h \<noteq> global_null D" and "q \<noteq> global_null D" and "w \<noteq> global_null D"
  using ft_space_null(2,3) [OF assms(1)] assms(2) by auto

section \<open>There is room for every page\<close>

lemma rotate_covers: "n < N \<Longrightarrow> r < N \<Longrightarrow> \<exists>j < N. n = (r + j) mod (N :: nat)"
proof -
  assume "n < N" and "r < N"
  then have "n = (r + (n + N - r) mod N) mod N" by (simp add: mod_add_right_eq)
  with \<open>n < N\<close> show ?thesis by (metis gr_implies_not0 mod_less_divisor not_gr_zero)
qed

lemma pages_count:
  assumes "ft_space D"
  shows "pages D = nodes D * (size_per_node D div granularity)"
  using assms by (auto simp: pages_def ft_space_def div_mult_swap)

lemma room_left:
  assumes "ft_space D" and "counters_ok D s a" and "a p = None" and "p < pages D" and "r < nodes D"
    and "\<forall>j < nodes D. counter s ((r + j) mod nodes D) = size_per_node D"
  shows False
proof -
  let ?g = granularity and ?S = "{..<nodes D} \<times> (\<lambda>i. i * granularity) ` {..<size_per_node D div granularity}"
  have "card ?S = pages D" using pages_count [OF assms(1)]
    by (simp add: card_cartesian_product card_image inj_on_def)
  moreover have "?S \<subseteq> ran a"
  proof
    fix x assume "x \<in> ?S"
    then obtain n i where x: "x = (n, i * ?g)" "n < nodes D" "i < size_per_node D div ?g" by auto
    have "i * ?g < size_per_node D div ?g * ?g" using x(3) by (intro mult_strict_right_mono) simp_all
    also have "\<dots> = size_per_node D" using assms(1) by (simp add: ft_space_def)
    finally have "i * ?g < counter s n" using rotate_covers [OF x(2) assms(5)] assms(6) by auto
    then show "x \<in> ran a" using assms(2) x(1,2) by (simp add: counters_ok_def)
  qed
  moreover have d: "dom a \<subseteq> {..<pages D} - {p}" using assms(2,3) by (fastforce simp: counters_ok_def)
  moreover have fin: "finite (dom a)" using d finite_subset by blast
  moreover have "ran a = (\<lambda>p. the (a p)) ` dom a" by (force simp: ran_def dom_def image_def)
  ultimately have "pages D \<le> card (dom a)"
    by (metis card_image_le card_mono finite_imageI order_trans)
  also have "\<dots> \<le> card ({..<pages D} - {p})" using d by (intro card_mono) simp_all
  also have "\<dots> < pages D" using assms(4) by simp
  finally show False by simp
qed

section \<open>What a step may change\<close>

text \<open>
  The guarantee of node \<open>r\<close> working on page \<open>p\<close>: it changes only its own and the deciding entry of the
  page, it claims the page only when nobody has and completes it only when it has claimed it itself.
\<close>

definition guar ::
  "base_distribution \<Rightarrow> nat \<Rightarrow> nat \<Rightarrow> directory \<Rightarrow> (nat \<rightharpoonup> nat \<times> nat) \<Rightarrow> directory \<Rightarrow> (nat \<rightharpoonup> nat \<times> nat) \<Rightarrow> bool" where
  "guar D r p s a s' a' \<longleftrightarrow>
     (\<forall>n q. q \<noteq> p \<or> n \<noteq> r \<and> n \<noteq> p mod nodes D \<longrightarrow> entry s' n q = entry s n q)
   \<and> (pub D s' p = pub D s p
      \<or> pub D s p = (global_null D, global_null D, global_null D) \<and> pub D s' p = (global_null D, global_null D, r)
      \<or> pub D s p = (global_null D, global_null D, r) \<and> full D (pub D s' p))
   \<and> (a' = a \<or> pub D s p = (global_null D, global_null D, r) \<and> (\<exists>x. a p = None \<and> a' = a(p \<mapsto> x)))
   \<and> (\<forall>n < nodes D. counter s n \<le> counter s' n \<and> counter s' n \<le> size_per_node D)"

lemma guar_refl: "counters_ok D s a \<Longrightarrow> guar D r p s a s a"
  by (simp add: guar_def counters_ok_def)

lemma guar_entry: "guar D r p s a s' a' \<Longrightarrow> q \<noteq> p \<or> n \<noteq> r \<and> n \<noteq> p mod nodes D \<Longrightarrow> entry s' n q = entry s n q"
  by (simp add: guar_def)

lemma guar_pub:
  assumes "guar D r p s a s' a'"
  obtains "pub D s' q = pub D s q"
    | "pub D s q = (global_null D, global_null D, global_null D)" "pub D s' q = (global_null D, global_null D, r)"
    | "pub D s q = (global_null D, global_null D, r)" "full D (pub D s' q)"
  using assms guar_entry [OF assms, of q "q mod nodes D"] unfolding guar_def by (cases "q = p") blast+

lemma guar_place:
  assumes "guar D r p s a s' a'"
  shows "a' q = a q \<or> pub D s q = (global_null D, global_null D, r)"
  using assms unfolding guar_def by (cases "q = p") auto

lemma guar_counter:
  "guar D r p s a s' a' \<Longrightarrow> n < nodes D \<Longrightarrow> counter s n \<le> counter s' n \<and> counter s' n \<le> size_per_node D"
  by (simp add: guar_def)

lemma guar_le: "guar D r p s a s' a' \<Longrightarrow> a \<subseteq>\<^sub>m a'"
  by (auto simp: guar_def map_le_def dom_def)

lemma guar_full:
  assumes "ft_space D" and "guar D r p s a s' a'" and "full D (pub D s q)"
  shows "pub D s' q = pub D s q"
  using assms(2)
proof (cases rule: guar_pub [where q = q])
  case 2
  then show ?thesis using assms(3) full_not_null(1) [OF assms(1)] by metis
next
  case 3
  then show ?thesis using assms(3) full_not_null(1) [OF assms(1)] by metis
qed

lemma guar_claimed:
  assumes "ft_space D" and "guar D r p s a s' a'" and "pub D s q = (global_null D, global_null D, w)"
    and "w \<noteq> r" and "w < nodes D"
  shows "pub D s' q = (global_null D, global_null D, w)" and "a' q = a q"
proof -
  show "pub D s' q = (global_null D, global_null D, w)"
    using assms(2) by (cases rule: guar_pub [where q = q]) (use assms(3-5) ft_space_null(3) [OF assms(1)] in auto)
  show "a' q = a q" using guar_place [OF assms(2), of q] assms(3,4) by auto
qed

lemma guar_searching:
  assumes "ft_space D" and "guar D r p s a s' a'" and "searching D s a w q n i" and "w \<noteq> r" and "w < nodes D"
  shows "searching D s' a' w q n i"
proof -
  have m: "(w + j) mod nodes D < nodes D" for j using assms(1) by (simp add: ft_space_def)
  have p: "pub D s q = (global_null D, global_null D, w)" using assms(3) by (simp add: searching_def)
  have "counter s' ((w + j) mod nodes D) = size_per_node D" if "j < i" for j
    using guar_counter [OF assms(2) m, of j] assms(3) that by (simp add: searching_def)
  then show ?thesis using assms(3) guar_claimed [OF assms(1,2) p assms(4,5)] by (simp add: searching_def)
qed

lemma result_ok_mono: "result_ok D a k ptr res \<Longrightarrow> a \<subseteq>\<^sub>m a' \<Longrightarrow> result_ok D a' k ptr res"
  by (cases k) (auto simp: map_le_def dom_def)

text \<open>The other nodes' assertions survive it.\<close>

lemma pc_ok_stable:
  assumes D: "ft_space D" and g: "guar D r p s a s' a'" and w: "w \<noteq> r" "w < nodes D"
    and ok: "pc_ok D s a w k ptr pc"
  shows "pc_ok D s' a' w k ptr pc"
proof -
  let ?q = "page D ptr"
  note claimed = guar_claimed [OF D g _ w] and srch = guar_searching [OF D g _ w] and fl = guar_full [OF D g]
  have own: "w \<noteq> ?q mod nodes D \<Longrightarrow> entry s' w ?q = entry s w ?q" using guar_entry [OF g] w(1) by (metis (no_types))
  note cnt = guar_counter [OF g]
  have less: "searching D s a w ?q n i \<Longrightarrow> n < nodes D" for n i
    using D by (simp add: searching_def ft_space_def)
  show ?thesis
  proof (cases pc)
    case (FT_offset n i q)
    then show ?thesis using ok srch cnt less by (auto intro: order_trans)
  next
    case (FT_cache n i q b)
    show ?thesis
    proof (cases b)
      case True
      then show ?thesis using FT_cache ok claimed cnt by (auto intro: order_trans)
    next
      case False
      then have o: "searching D s a w ?q n i" "q \<le> counter s n" "counter s n = size_per_node D"
        using FT_cache ok by auto
      with cnt [OF less] have "counter s' n = size_per_node D" by (metis le_antisym)
      then show ?thesis using FT_cache False o srch by simp
    qed
  next
    case FT_spin
    have "snd (snd (pub D s' ?q)) \<noteq> global_null D" if "snd (snd (pub D s ?q)) \<noteq> global_null D"
      using g by (cases rule: guar_pub [where q = ?q])
        (use that full_not_null(3) [OF D] in \<open>auto simp del: full.simps, metis prod.collapse\<close>)
    then show ?thesis using FT_spin ok own fl by (auto split: if_splits)
  next
    case (FT_done res)
    then show ?thesis using ok result_ok_mono [OF _ guar_le [OF g]] by simp
  next
    case (FT_copy xs)
    then show ?thesis using ok fl by fastforce
  qed (use ok claimed srch own in auto)
qed

text \<open>So a step of one node keeps the relation when its own page and program counter are right again.\<close>

lemma ft_rel_step:
  assumes D: "ft_space D" and rel: "ft_rel D a (s, T)" and r: "r < nodes D" "T r = (k, ptr, pc)"
    and g: "guar D r (page D ptr) s a s' a'" and pc: "pc_ok D s' a' r k ptr pc'"
    and e: "entry_ok D s' a' (T(r := (k, ptr, pc'))) (page D ptr)"
    and c: "copy_ok D s' (T(r := (k, ptr, pc'))) (page D ptr) r"
    and cnt: "counters_ok D s' a'"
  shows "ft_rel D a' (s', T(r := (k, ptr, pc')))"
proof -
  let ?p = "page D ptr" and ?T = "T(r := (k, ptr, pc'))"
  have p: "?p < pages D" using rel r by (auto simp: ft_rel_def)
  have "entry_ok D s' a' ?T q" if q: "q < pages D" for q
  proof (cases "q = ?p")
    case False
    then have same: "pub D s' q = pub D s q" "a' q = a q" using g guar_entry [OF g] by (auto simp: guar_def)
    have "entry_ok D s a T q" using rel q by (simp add: ft_rel_def)
    moreover have "?T w = T w" if "page D (fst (snd (T w))) = q" for w using that False r(2) by auto
    ultimately show ?thesis unfolding entry_ok_def same by (elim disjE exE conjE) metis+
  qed (simp add: e)
  moreover have "copy_ok D s' ?T q n" if q: "q < pages D" "n < nodes D" for q n
  proof (cases "q = ?p \<and> n = r")
    case False
    then have en: "n \<noteq> q mod nodes D \<Longrightarrow> entry s' n q = entry s n q" using guar_entry [OF g] by metis
    have old: "copy_ok D s T q n" using rel q by (simp add: ft_rel_def)
    have "full D (pub D s q) \<Longrightarrow> pub D s' q = pub D s q" by (rule guar_full [OF D g])
    moreover have "pub D s' q = (global_null D, global_null D, n)" "n \<noteq> r"
      if "pub D s q = (global_null D, global_null D, n)" "page D (fst (snd (T n))) = q"
    proof -
      show "n \<noteq> r" using that(2) False r(2) by auto
      then show "pub D s' q = (global_null D, global_null D, n)"
        by (rule guar_claimed(1) [OF D g that(1) _ q(2)])
    qed
    ultimately show ?thesis
      using old en [symmetric] unfolding copy_ok_def by (elim disjE exE conjE) auto
  qed (use c in simp)
  moreover have "case ?T w of (k, ptr, pc) \<Rightarrow> page D ptr < pages D \<and> pc_ok D s' a' w k ptr pc" if "w < nodes D" for w
    using rel that pc_ok_stable [OF D g _ that] pc p by (auto simp: ft_rel_def)
  ultimately show ?thesis using cnt by (simp add: ft_rel_def)
qed

text \<open>A step that only reads.\<close>

lemma ft_rel_read:
  assumes D: "ft_space D" and rel: "ft_rel D a (s, T)" and r: "r < nodes D" "T r = (k, ptr, pc)"
    and pc: "pc_ok D s a r k ptr pc'" and cl: "claiming pc \<Longrightarrow> claiming pc'" and np: "\<And>h q. pc \<noteq> FT_store_public h q"
  shows "ft_rel D a (s, T(r := (k, ptr, pc')))"
proof (rule ft_rel_step [OF D rel r])
  have o: "entry_ok D s a T (page D ptr)" "copy_ok D s T (page D ptr) r" "counters_ok D s a"
    using rel r by (auto simp: ft_rel_def)
  then show "guar D r (page D ptr) s a s a" by (intro guar_refl)
  show "entry_ok D s a (T(r := (k, ptr, pc'))) (page D ptr)"
    using o(1) cl r(2) unfolding entry_ok_def by (metis fun_upd_apply fst_conv snd_conv)
  show "copy_ok D s (T(r := (k, ptr, pc'))) (page D ptr) r"
    using o(2) np r(2) unfolding copy_ok_def by (metis snd_conv)
qed (use rel pc in \<open>simp_all add: ft_rel_def\<close>)

lemma ft_rel_call:
  assumes D: "ft_space D" and rel: "ft_rel D a (s, T)" and r: "r < nodes D" "T r = (k, ptr, pc)"
    and out: "\<not> ft_inside pc" and x: "x < total_size D"
  shows "ft_rel D a (s, T(r := (k', start_address D + x, FT_local)))"
proof -
  have nc: "\<not> claiming pc" "\<And>h q. pc \<noteq> FT_store_public h q" using out by (cases pc; simp)+
  let ?T = "T(r := (k', start_address D + x, FT_local))"
  have "entry_ok D s a ?T p" if "p < pages D" for p
  proof -
    have "entry_ok D s a T p" using rel that by (simp add: ft_rel_def)
    then show ?thesis using nc(1) r(2) unfolding entry_ok_def by (metis fun_upd_other snd_conv)
  qed
  moreover have "copy_ok D s ?T p n" if "p < pages D" "n < nodes D" for p n
  proof -
    have "copy_ok D s T p n" using rel that by (simp add: ft_rel_def)
    then show ?thesis using nc(2) r(2) unfolding copy_ok_def by (metis fun_upd_other snd_conv)
  qed
  ultimately show ?thesis using rel ft_page_less [OF D x] by (auto simp: ft_rel_def)
qed

section \<open>Every step refines the placement\<close>

lemma counters_cong: "counters_ok D s a \<Longrightarrow> offsets_tbl s' = offsets_tbl s \<Longrightarrow> counters_ok D s' a"
  by (simp add: counters_ok_def)

lemma ft_relD:
  assumes "ft_rel D a (s, T)" and "r < nodes D" and "T r = (k, ptr, pc)"
  shows "page D ptr < pages D" and "pc_ok D s a r k ptr pc" and "entry_ok D s a T (page D ptr)"
    and "copy_ok D s T (page D ptr) r" and "counters_ok D s a"
  using assms by (auto simp: ft_rel_def)

lemma entry_ok_cases:
  assumes "ft_space D" and "entry_ok D s a T p"
  obtains (unclaimed) "pub D s p = (global_null D, global_null D, global_null D)" "a p = None"
    | (claimed) w where "w < nodes D" "w \<noteq> global_null D" "pub D s p = (global_null D, global_null D, w)"
    | (complete) h q w where "pub D s p = (h, q, w)" "full D (h, q, w)" "a p = Some (h, q)"
        "h \<noteq> global_null D" "q \<noteq> global_null D" "w \<noteq> global_null D"
  using assms(2) ft_space_null(3) [OF assms(1)] full_not_null [OF assms(1)]
  unfolding entry_ok_def by (elim disjE exE conjE) (metis order.strict_iff_not)+

lemma complete_entry: "pub D s p = (h, q, w) \<Longrightarrow> full D (h, q, w) \<Longrightarrow> a p = Some (h, q) \<Longrightarrow> entry_ok D s a T p"
  unfolding entry_ok_def by blast

lemma claimed_entry: "pub D s p = (global_null D, global_null D, w) \<Longrightarrow> w < nodes D \<Longrightarrow>
    T w = (k, ptr, pc) \<Longrightarrow> page D ptr = p \<Longrightarrow> claiming pc \<Longrightarrow> entry_ok D s a T p"
  unfolding entry_ok_def by auto

text \<open>The entry a node finds in its own window.\<close>

lemma own_entry:
  assumes "ft_space D" and "ft_rel D a (s, T)" and "r < nodes D" and "T r = (k, ptr, pc)"
    and "\<And>h q. pc \<noteq> FT_store_public h q" and "entry s r (page D ptr) = (h, q, w)" and "w \<noteq> global_null D"
    and "r \<noteq> page D ptr mod nodes D"
  shows "full D (h, q, w)" and "pub D s (page D ptr) = (h, q, w)"
proof -
  from ft_relD(4) [OF assms(2-4)] have "full D (entry s r (page D ptr)) \<and> entry s r (page D ptr) = pub D s (page D ptr)"
    unfolding copy_ok_def using assms(4-8) by (elim disjE) auto
  then show "full D (h, q, w)" and "pub D s (page D ptr) = (h, q, w)" using assms(6) by (metis (no_types))+
qed

lemma offset_bound:
  assumes "ft_space D" and "q \<le> size_per_node D"
  shows "q + granularity < 2 ^ 64"
proof -
  have "size_per_node D \<le> total_size D" "total_size D < 2 ^ 62" using assms(1) by (auto simp: ft_space_def)
  with assms(2) show ?thesis by (simp add: granularity_def)
qed

lemma read_info:
  assumes D: "ft_space D" and e: "entry_ok D s a T (page D ptr)" and p: "pub D s (page D ptr) = (h, q, w)"
    and r: "r \<noteq> page D ptr mod nodes D" and n: "global_null D \<notin> {h, q, w}"
  shows "pc_ok D s a r k ptr (FT_copy [h, q, w])"
  using D e by (cases rule: entry_ok_cases) (use p r n in auto)

lemma dvd_room: "(g :: nat) dvd q \<Longrightarrow> g dvd n \<Longrightarrow> q < n \<Longrightarrow> q + g \<le> n"
  by (metis dvd_imp_mod_0 dvd_minus_self dvd_imp_le less_imp_diff_less nat_le_linear add.commute
      dvd_diff_nat le_diff_conv2 less_imp_le_nat zero_less_diff)

text \<open>The result of a call that finds a complete entry.\<close>

lemma drift_sum:
  assumes "ft_space D" and "full D (h, q, w)"
  shows "add64 q (page_drift D ptr) = q + page_drift D ptr" and "q + page_drift D ptr < size_per_node D"
    and "q + page_drift D ptr \<noteq> invalid_offset" and "wrap32 h = h"
proof -
  have d: "page_drift D ptr < granularity" by (simp add: page_drift_def)
  have g: "granularity dvd size_per_node D" "granularity dvd q" "q < size_per_node D" "h < 2 ^ 32"
    and b: "size_per_node D \<le> total_size D" "total_size D < 2 ^ 62" using assms by (auto simp: ft_space_def)
  have "q + granularity \<le> size_per_node D" by (rule dvd_room [OF g(2,1,3)])
  with d show l: "q + page_drift D ptr < size_per_node D" by simp
  with b show "add64 q (page_drift D ptr) = q + page_drift D ptr" "q + page_drift D ptr \<noteq> invalid_offset"
    by (simp_all add: add64_id invalid_offset_def size_max_def)
  from g(4) show "wrap32 h = h" by (simp add: wrap32_id)
qed

lemma placed_full: "counters_ok D s a \<Longrightarrow> a p = Some (h, q) \<Longrightarrow> r < nodes D \<Longrightarrow> full D (h, q, r)"
  unfolding counters_ok_def by (metis full.simps order_less_le_trans)

text \<open>Taking the next offset of a node.\<close>

lemma counters_take:
  assumes c: "counters_ok D s a" and n: "n < nodes D" and q: "counter s n = q" and un: "a p = None"
    and room: "q + granularity \<le> size_per_node D" and dv: "granularity dvd counter s n" and p: "p < pages D"
  shows "counters_ok D (s\<lparr>offsets_tbl := (offsets_tbl s)(n := (offsets_tbl s n)(n := q + granularity))\<rparr>) (a(p \<mapsto> (n, q)))"
    (is "counters_ok D ?s ?a")
proof -
  have ran: "ran ?a = insert (n, q) (ran a)" using un by simp
  have new: "x < q \<or> x = q" if "x < q + granularity" "granularity dvd x" for x
    using that dvd_room [OF _ that(2), of q] dv q by (metis leD linorder_neqE_nat)
  have cs: "counter ?s m = (if m = n then q + granularity else counter s m)" for m by simp
  have tb: "offsets_tbl ?s x m \<le> counter ?s m" if "m < nodes D" "x < nodes D" for m x
    using c that q by (fastforce simp: counters_ok_def)
  have on: "(m, x) \<in> ran ?a" if "m < nodes D" "x < counter ?s m" "granularity dvd x" for m x
    using c that new [of x] q unfolding ran by (auto simp: counters_ok_def cs split: if_splits)
  have "y < pages D \<and> h < nodes D \<and> x < counter ?s h \<and> granularity dvd x" if "?a y = Some (h, x)" for y h x
  proof (cases "y = p")
    case False
    then have "y < pages D \<and> h < nodes D \<and> x < counter s h \<and> granularity dvd x"
      using c that by (auto simp: counters_ok_def)
    then show ?thesis using q by (auto simp: cs)
  qed (use that n q dv p in auto)
  moreover have "counter ?s m \<le> size_per_node D \<and> granularity dvd counter ?s m" if "m < nodes D" for m
    using c that room dv q by (auto simp: counters_ok_def cs)
  ultimately show ?thesis unfolding counters_ok_def using tb on by blast
qed

context mpi_rma
begin

lemma sim_spin:
  assumes D: "ft_space D" and rel: "ft_rel D a (s, T)" and r: "r < nodes D" "T r = (k, ptr, FT_spin)"
  shows "case ft_step M D k r ptr FT_spin s of
      Inl e \<Rightarrow> result_ok D a k ptr (Inl e) | Inr (pc', s') \<Rightarrow> s' = s \<and> pc_ok D s a r k ptr pc'"
proof -
  obtain h q w where e: "entry s r (page D ptr) = (h, q, w)" by (metis prod_cases3)
  note st = step_spin [OF e] and ok = ft_relD [OF rel r]
  have own: "full D (h, q, w) \<and> a (page D ptr) = Some (h, q)" if "h \<noteq> global_null D \<or> q \<noteq> global_null D"
  proof (cases "r = page D ptr mod nodes D")
    case True
    show ?thesis using D ok(3) by (cases rule: entry_ok_cases) (use True e that in auto)
  next
    case False
    have "w \<noteq> global_null D" using ok(4) False that e full_not_null(3) [OF D] r(2) by (auto simp: copy_ok_def)
    from own_entry [OF D rel r _ e this False] have f: "full D (h, q, w)" "pub D s (page D ptr) = (h, q, w)" by simp_all
    show ?thesis using D ok(3) by (cases rule: entry_ok_cases) (use f full_not_null [OF D f(1)] in auto)
  qed
  show ?thesis
  proof (cases k)
    case Homenode
    show ?thesis
    proof (cases "wrap32 h = wrap32 (global_null D)")
      case False
      then have "h \<noteq> global_null D" by metis
      with own have f: "full D (h, q, w)" "a (page D ptr) = Some (h, q)" by blast+
      show ?thesis using False Homenode st(1) drift_sum(4) [OF D f(1)] f by (simp add: check_home_def)
    qed (use Homenode st(1) ok(2) in simp)
  next
    case Local_offset
    show ?thesis
    proof (cases "q = global_null D")
      case False
      with own have f: "full D (h, q, w)" "a (page D ptr) = Some (h, q)" by blast+
      show ?thesis using False Local_offset st(2) drift_sum(1-3) [OF D f(1), of ptr] f by (simp add: check_offset_def)
    qed (use Local_offset st(2) ok(2) in simp)
  next
    case Peek_homenode
    show ?thesis
    proof (cases "h = global_null D")
      case True
      have "nodes D \<le> invalid_node_id" using D by (simp add: ft_space_def invalid_node_id_def)
      then show ?thesis using True Peek_homenode st(3) ok(2) by (simp add: check_home_def)
    next
      case False
      with own have f: "full D (h, q, w)" "a (page D ptr) = Some (h, q)" by blast+
      show ?thesis using False Peek_homenode st(3) drift_sum(4) [OF D f(1)] f by (simp add: check_home_def)
    qed
  next
    case Peek_local_offset
    show ?thesis
    proof (cases "q = global_null D")
      case False
      with own have f: "full D (h, q, w)" "a (page D ptr) = Some (h, q)" by blast+
      show ?thesis using False Peek_local_offset st(4) drift_sum(1-3) [OF D f(1), of ptr] f by (simp add: Let_def)
    qed (use Peek_local_offset st(4) ok(2) in \<open>simp add: Let_def\<close>)
  qed
qed

lemma sim_copy:
  assumes D: "ft_space D" and rel: "ft_rel D a (s, T)" and r: "r < nodes D" "T r = (k, ptr, FT_copy xs)"
  shows "\<exists>s'. ft_step M D k r ptr (FT_copy xs) s = Inr (FT_spin, s') \<and> ft_rel D a (s', T(r := (k, ptr, FT_spin)))"
proof -
  note ok = ft_relD [OF rel r]
  let ?p = "page D ptr"
  obtain h q w where x: "xs = [h, q, w]" "pub D s ?p = (h, q, w)" "full D (h, q, w)" "r \<noteq> ?p mod nodes D"
    using ok(2) by auto
  let ?s = "store_local_owners_dir xs r (3 * ?p) s"
  have pub: "pub D ?s n = pub D s n" for n using x(1,4) by auto
  have "ft_rel D a (?s, T(r := (k, ptr, FT_spin)))"
  proof (rule ft_rel_step [OF D rel r])
    show "guar D r ?p s a ?s a" using guar_refl [OF ok(5)] x(1,4) by (auto simp: guar_def)
    show "pc_ok D ?s a r k ptr FT_spin" using x by auto
    have "a ?p = Some (h, q)"
      using D ok(3) by (cases rule: entry_ok_cases) (use x(2) full_not_null [OF D x(3)] in auto)
    then show "entry_ok D ?s a (T(r := (k, ptr, FT_spin))) ?p" using x(2,3) by (intro complete_entry) (simp_all only: pub)
    show "copy_ok D ?s (T(r := (k, ptr, FT_spin))) ?p r" using x by (auto simp: copy_ok_def)
    show "counters_ok D ?s a" using ok(5) by (rule counters_cong) simp
  qed
  then show ?thesis by (simp add: step_copy)
qed

lemma sim_claim:
  assumes D: "ft_space D" and rel: "ft_rel D a (s, T)" and r: "r < nodes D" "T r = (k, ptr, FT_claim)"
  shows "\<exists>pc' s'. ft_step M D k r ptr FT_claim s = Inr (pc', s') \<and> ft_rel D a (s', T(r := (k, ptr, pc')))"
proof -
  note ok = ft_relD [OF rel r]
  let ?p = "page D ptr" and ?c = "page D ptr mod nodes D"
  obtain h q w where e: "pub D s ?p = (h, q, w)" by (metis prod_cases3)
  have N: "0 < nodes D" using r(1) by simp
  show ?thesis
  proof (cases "w = global_null D")
    case True
    then have u: "pub D s ?p = (global_null D, global_null D, global_null D)" "a ?p = None"
      using D ok(3) e by (auto elim!: entry_ok_cases)
    let ?s = "s\<lparr>owners_dir := (owners_dir s)(?c := (owners_dir s ?c)(3 * ?p + 2 := r))\<rparr>"
    have pub: "pub D ?s ?p = (global_null D, global_null D, r)" using u(1) by simp
    have "ft_rel D a (?s, T(r := (k, ptr, FT_search r 0)))"
    proof (rule ft_rel_step [OF D rel r])
      show "guar D r ?p s a ?s a" using guar_refl [OF ok(5), of r ?p] u(1) pub by (simp add: guar_def)
      show "pc_ok D ?s a r k ptr (FT_search r 0)" using pub u(2) r(1) by (simp add: searching_def)
      show "entry_ok D ?s a (T(r := (k, ptr, FT_search r 0))) ?p"
        by (rule claimed_entry [OF pub r(1), where ptr = ptr and pc = "FT_search r 0"]) simp_all
      show "copy_ok D ?s (T(r := (k, ptr, FT_search r 0))) ?p r"
        using ok(4) r(2) u(1) full_not_null(1) [OF D] unfolding copy_ok_def by fastforce
      show "counters_ok D ?s a" using ok(5) by (rule counters_cong) simp
    qed
    then show ?thesis using step_claim [OF e N, of k r] True by auto
  next
    case False
    have "ft_rel D a (s, T(r := (k, ptr, if r \<noteq> ?c then FT_await else FT_spin)))"
      using False e by (intro ft_rel_read [OF D rel r]) auto
    then show ?thesis using step_claim [OF e N, of k r] False by auto
  qed
qed

lemma sim_offset:
  assumes D: "ft_space D" and rel: "ft_rel D a (s, T)" and r: "r < nodes D" "T r = (k, ptr, FT_offset n i q)"
  shows "\<exists>a' pc' s'. ft_step M D k r ptr (FT_offset n i q) s = Inr (pc', s')
     \<and> ft_rel D a' (s', T(r := (k, ptr, pc'))) \<and> place_step a a'"
proof -
  note ok = ft_relD [OF rel r]
  let ?p = "page D ptr" and ?g = granularity
  have se: "searching D s a r ?p n i" and q: "q \<le> counter s n" using ok(2) by auto
  then have n: "n < nodes D" and pub: "pub D s ?p = (global_null D, global_null D, r)" and un: "a ?p = None"
    using D by (auto simp: searching_def ft_space_def)
  have cn: "counter s n \<le> size_per_node D" "?g dvd counter s n" using ok(5) n by (auto simp: counters_ok_def)
  note st = step_offset [OF offset_bound [OF D order_trans [OF q cn(1)]], where D = D and k = k and r = r and ptr = ptr
      and n = n and i = i and s = s]
  consider (full) "size_per_node D \<le> q" | (retry) "q < size_per_node D" "counter s n \<noteq> q"
    | (take) "q < size_per_node D" "counter s n = q" by linarith
  then show ?thesis
  proof cases
    case full
    then have "ft_rel D a (s, T(r := (k, ptr, FT_cache n i q False)))"
      using se q cn(1) by (intro ft_rel_read [OF D rel r]) auto
    then show ?thesis using full st by (auto intro: place_step.keep)
  next
    case retry
    have "ft_rel D a (s, T(r := (k, ptr, FT_offset n i (counter s n))))"
      using se by (intro ft_rel_read [OF D rel r]) auto
    then show ?thesis using retry st by (auto intro: place_step.keep)
  next
    case take
    let ?s = "s\<lparr>offsets_tbl := (offsets_tbl s)(n := (offsets_tbl s n)(n := q + ?g))\<rparr>"
    let ?a = "a(?p \<mapsto> (n, q))"
    have room: "q + ?g \<le> size_per_node D" using dvd_room [OF cn(2) _ _, of "size_per_node D"] take D
      by (auto simp: ft_space_def)
    have "a y \<noteq> Some (n, q)" for y using ok(5) take(2) unfolding counters_ok_def by (metis less_irrefl)
    then have fresh: "(n, q) \<notin> ran a" by (simp add: ran_def)
    have pub': "pub D ?s x = pub D s x" for x by simp
    have "ft_rel D ?a (?s, T(r := (k, ptr, FT_cache n i q True)))"
    proof (rule ft_rel_step [OF D rel r])
      show "guar D r ?p s a ?s ?a"
        using guar_refl [OF ok(5), of r ?p] pub un room take(2) by (auto simp: guar_def)
      show "pc_ok D ?s ?a r k ptr (FT_cache n i q True)" using pub n by simp
      show "entry_ok D ?s ?a (T(r := (k, ptr, FT_cache n i q True))) ?p"
        by (rule claimed_entry [OF _ r(1), where ptr = ptr and pc = "FT_cache n i q True"]) (simp_all add: pub)
      show "copy_ok D ?s (T(r := (k, ptr, FT_cache n i q True))) ?p r"
        using ok(4) r(2) by (auto simp: copy_ok_def)
      show "counters_ok D ?s ?a" by (rule counters_take [OF ok(5) n take(2) un room cn(2) ok(1)])
    qed
    then show ?thesis using take st place_step.place [OF un fresh] by auto
  qed
qed

lemma sim_cache:
  assumes D: "ft_space D" and rel: "ft_rel D a (s, T)" and r: "r < nodes D" "T r = (k, ptr, FT_cache n i q b)"
  shows "\<exists>pc' s'. ft_step M D k r ptr (FT_cache n i q b) s = Inr (pc', s') \<and> ft_rel D a (s', T(r := (k, ptr, pc')))"
proof -
  note ok = ft_relD [OF rel r]
  let ?p = "page D ptr" and ?s = "if n \<noteq> r then store_local_offsets_tbl q r n s else s"
  have q: "q \<le> counter s n" and pub: "pub D s ?p = (global_null D, global_null D, r)"
    using ok(2) by (auto simp: searching_def split: if_splits)
  have en: "entry ?s m x = entry s m x" "counter ?s m = counter s m" for m x by auto
  have "\<exists>pc'. ft_step M D k r ptr (FT_cache n i q b) s = Inr (pc', ?s) \<and> pc_ok D ?s a r k ptr pc'
      \<and> claiming pc' \<and> (\<forall>h q. pc' \<noteq> FT_store_public h q)"
  proof (cases b)
    case True
    then show ?thesis using ok(2) pub step_cache [of D k r ptr n i q b s] by (auto simp: en)
  next
    case False
    then have se: "searching D s a r ?p n i" "counter s n = size_per_node D" using ok(2) by auto
    have full: "counter s ((r + j) mod nodes D) = size_per_node D" if "j < i + 1" for j
      using se that by (auto simp: searching_def less_Suc_eq)
    have i: "i + 1 < nodes D"
    proof (rule ccontr)
      assume "\<not> i + 1 < nodes D"
      then have "i + 1 = nodes D" using se(1) by (simp add: searching_def)
      then show False using room_left [OF D ok(5) _ ok(1) r(1)] full se(1) by (auto simp: searching_def)
    qed
    have "searching D ?s a r ?p ((n + 1) mod nodes D) (i + 1)"
      using se(1) full i unfolding searching_def en by (simp add: mod_Suc_eq)
    then show ?thesis using step_cache [of D k r ptr n i q b s] False i by auto
  qed
  then obtain pc' where st: "ft_step M D k r ptr (FT_cache n i q b) s = Inr (pc', ?s)" "pc_ok D ?s a r k ptr pc'"
    "claiming pc'" by blast
  have "ft_rel D a (?s, T(r := (k, ptr, pc')))"
  proof (rule ft_rel_step [OF D rel r _ st(2)])
    show "guar D r ?p s a ?s a" using guar_refl [OF ok(5), of r ?p] unfolding guar_def en by simp
    show "entry_ok D ?s a (T(r := (k, ptr, pc'))) ?p"
      by (rule claimed_entry [OF _ r(1), where ptr = ptr and pc = pc']) (simp_all only: en pub fun_upd_same st(3))
    show "copy_ok D ?s (T(r := (k, ptr, pc'))) ?p r" using ok(4) r(2) unfolding copy_ok_def en by auto
    show "counters_ok D ?s a" using ok(5) q unfolding counters_ok_def en by (auto simp: store_local_offsets)
  qed
  with st(1) show ?thesis by blast
qed

lemma sim_store_local:
  assumes D: "ft_space D" and rel: "ft_rel D a (s, T)" and r: "r < nodes D" "T r = (k, ptr, FT_store_local h q)"
  shows "\<exists>pc' s'. ft_step M D k r ptr (FT_store_local h q) s = Inr (pc', s') \<and> ft_rel D a (s', T(r := (k, ptr, pc')))"
proof -
  note ok = ft_relD [OF rel r]
  let ?p = "page D ptr" and ?s = "store_local_owners_dir [h, q, r] r (3 * page D ptr) s"
  let ?pc = "if r \<noteq> ?p mod nodes D then FT_store_public h q else FT_spin"
  have ap: "a ?p = Some (h, q)" and pub: "pub D s ?p = (global_null D, global_null D, r)" using ok(2) by auto
  have f: "full D (h, q, r)" using placed_full [OF ok(5) ap r(1)] .
  have "ft_rel D a (?s, T(r := (k, ptr, ?pc)))"
  proof (rule ft_rel_step [OF D rel r])
    show "guar D r ?p s a ?s a"
      using guar_refl [OF ok(5), of r ?p] pub f by (cases "r = ?p mod nodes D") (auto simp: guar_def)
    show "pc_ok D ?s a r k ptr ?pc" using ap pub full_not_null(3) [OF D f] by simp
    show "copy_ok D ?s (T(r := (k, ptr, ?pc))) ?p r" using pub by (simp add: copy_ok_def)
    show "counters_ok D ?s a" using ok(5) by (rule counters_cong) simp
    show "entry_ok D ?s a (T(r := (k, ptr, ?pc))) ?p"
    proof (cases "r = ?p mod nodes D")
      case True
      then show ?thesis using f ap by (intro complete_entry [where h = h and q = q and w = r]) simp_all
    next
      case False
      then show ?thesis
        by (intro claimed_entry [OF _ r(1), where ptr = ptr and pc = "FT_store_public h q"]) (simp_all add: pub)
    qed
  qed
  then show ?thesis using step_store(1) [of D k r ptr h q s] by auto
qed

lemma sim_store_public:
  assumes D: "ft_space D" and rel: "ft_rel D a (s, T)" and r: "r < nodes D" "T r = (k, ptr, FT_store_public h q)"
  shows "\<exists>s'. ft_step M D k r ptr (FT_store_public h q) s = Inr (FT_spin, s') \<and> ft_rel D a (s', T(r := (k, ptr, FT_spin)))"
proof -
  note ok = ft_relD [OF rel r]
  let ?p = "page D ptr"
  let ?s = "store_local_owners_dir [h, q, r] (?p mod nodes D) (3 * page D ptr) s"
  have ap: "a ?p = Some (h, q)" and pub: "pub D s ?p = (global_null D, global_null D, r)"
    and own: "entry s r ?p = (h, q, r)" "r \<noteq> ?p mod nodes D" using ok(2) by auto
  have f: "full D (h, q, r)" using placed_full [OF ok(5) ap r(1)] .
  have "ft_rel D a (?s, T(r := (k, ptr, FT_spin)))"
  proof (rule ft_rel_step [OF D rel r])
    show "guar D r ?p s a ?s a" using guar_refl [OF ok(5), of r ?p] pub f by (simp add: guar_def)
    show "pc_ok D ?s a r k ptr FT_spin" using own f by simp
    show "copy_ok D ?s (T(r := (k, ptr, FT_spin))) ?p r" using own f by (simp add: copy_ok_def)
    show "counters_ok D ?s a" using ok(5) by (rule counters_cong) simp
    show "entry_ok D ?s a (T(r := (k, ptr, FT_spin))) ?p" using f ap by (intro complete_entry [where h = h and q = q and w = r]) simp_all
  qed
  then show ?thesis using step_store(2) [of D k r ptr h q s] by auto
qed

text \<open>The reading steps of \<^verbatim>\<open>update_dirs\<close> and \<^verbatim>\<open>first_touch\<close>.\<close>

lemma sim_read:
  assumes D: "ft_space D" and rel: "ft_rel D a (s, T)" and r: "r < nodes D" "T r = (k, ptr, pc)"
    and pc: "pc = FT_local \<or> pc = FT_public \<or> pc = FT_public_wait \<or> pc = FT_await \<or> (\<exists>n i. pc = FT_search n i)"
  shows "\<exists>pc'. ft_step M D k r ptr pc s = Inr (pc', s) \<and> pc_ok D s a r k ptr pc' \<and> (claiming pc \<longrightarrow> claiming pc')"
proof -
  note ok = ft_relD [OF rel r]
  obtain h q w where own: "entry s r (page D ptr) = (h, q, w)" by (metis prod_cases3)
  obtain x y z where pub: "pub D s (page D ptr) = (x, y, z)" by (metis prod_cases3)
  note rd = read_info [OF D ok(3) pub, of r k] and sp = step_public [OF pub, of k r]
  have sp_pc: "pc_ok D s a r k ptr FT_spin" if "r = page D ptr mod nodes D" "z \<noteq> global_null D" using that pub by simp
  have peek: "pc_ok D s a r k ptr FT_spin" if "k \<noteq> Homenode" "k \<noteq> Local_offset" using that by simp
  from pc show ?thesis
  proof (elim disjE exE)
    assume p: "pc = FT_local"
    have "pc_ok D s a r k ptr FT_spin" if "w \<noteq> global_null D"
      using own_entry [OF D rel r _ own that] p own that by auto
    then show ?thesis using step_local [OF own, of k] p by auto
  next
    assume p: "pc = FT_public"
    have "z \<noteq> global_null D" if "\<not> (x = global_null D \<and> y = global_null D \<and> z = global_null D)"
      using D ok(3) by (cases rule: entry_ok_cases) (use pub that in auto)
    then show ?thesis using sp(1) p rd sp_pc peek by (auto simp del: pc_ok.simps(3,9))
  next
    assume p: "pc = FT_public_wait"
    then show ?thesis using sp(2) rd ok(2) by (auto simp del: pc_ok.simps(3))
  next
    assume p: "pc = FT_await"
    then show ?thesis using sp(3) rd ok(2) by (auto simp del: pc_ok.simps(3))
  next
    fix n i assume p: "pc = FT_search n i"
    then have "searching D s a r (page D ptr) n i" "n < nodes D" using ok(2) D by (auto simp: searching_def ft_space_def)
    then show ?thesis using p step_search [of D k r ptr n i s] ok(5) r(1) by (auto simp: counters_ok_def)
  qed
qed

lemma ft_simulation:
  assumes D: "ft_space D" and rel: "ft_rel D a (s, T)" and st: "ft_sys M D (s, T) \<sigma>"
  shows "\<exists>a'. ft_rel D a' \<sigma> \<and> place_step a a'"
  using st
proof (cases rule: ft_sysE [consumes 1, case_names call step raise])
  case (call r k ptr pc x k')
  then show ?thesis using ft_rel_call [OF D rel] place_step.keep by blast
next
  case (step r k ptr pc pc' s')
  note sim = sim_copy [OF D rel step(2)] sim_claim [OF D rel step(2)] sim_offset [OF D rel step(2)]
    sim_cache [OF D rel step(2)] sim_store_local [OF D rel step(2)] sim_store_public [OF D rel step(2)]
  have "(\<exists>a'. ft_rel D a' (s', T(r := (k, ptr, pc'))) \<and> place_step a a')"
  proof (cases "pc = FT_spin \<or> pc = FT_local \<or> pc = FT_public \<or> pc = FT_public_wait \<or> pc = FT_await \<or> (\<exists>n i. pc = FT_search n i)")
    case True
    then have "s' = s \<and> pc_ok D s a r k ptr pc' \<and> (claiming pc \<longrightarrow> claiming pc')"
      using sim_read [OF D rel step(2,3)] sim_spin [OF D rel step(2), of k ptr] step(3,5) by auto
    then show ?thesis using ft_rel_read [OF D rel step(2,3)] True place_step.keep by fastforce
  next
    case False
    then show ?thesis using sim step(3,4,5) place_step.keep by (cases pc) fastforce+
  qed
  then show ?thesis using step(1) by blast
next
  case (raise r k ptr pc e)
  have "pc = FT_spin"
    using raise(3,4,5) sim_read [OF D rel raise(2,3)] sim_copy [OF D rel raise(2)] sim_claim [OF D rel raise(2)]
      sim_offset [OF D rel raise(2)] sim_cache [OF D rel raise(2)] sim_store_local [OF D rel raise(2)]
      sim_store_public [OF D rel raise(2)] by (cases pc) fastforce+
  then have "pc_ok D s a r k ptr (FT_done (Inl e))" using sim_spin [OF D rel raise(2), of k ptr] raise(3,5) by simp
  with \<open>pc = FT_spin\<close> have "ft_rel D a (s, T(r := (k, ptr, FT_done (Inl e))))"
    by (intro ft_rel_read [OF D rel raise(2,3)]) auto
  then show ?thesis using raise(1) place_step.keep by blast
qed

lemma ft_refines:
  assumes "(ft_sys M D)\<^sup>*\<^sup>* \<sigma> \<tau>" and "ft_space D" and "ft_rel D a \<sigma>"
  shows "\<exists>b. ft_rel D b \<tau> \<and> place_step\<^sup>*\<^sup>* a b"
  using assms(1)
proof (induction rule: rtranclp_induct)
  case base
  then show ?case using assms(3) by blast
next
  case (step \<tau> \<upsilon>)
  then obtain b where "ft_rel D b \<tau>" "place_step\<^sup>*\<^sup>* a b" by blast
  then show ?case using ft_simulation [OF assms(2), of b "fst \<tau>" "snd \<tau>" \<upsilon>] step.hyps(2)
    by (metis prod.collapse rtranclp.rtrancl_into_rtrancl)
qed

end

lemma ft_start_rel: "ft_space D \<Longrightarrow> ft_rel D Map.empty (ft_start D s)"
proof -
  assume D: "ft_space D"
  have p: "page D (start_address D) < pages D" using ft_page_less [OF D, of 0] D by (simp add: ft_space_def)
  have "x mod nodes D < nodes D" for x using D by (simp add: ft_space_def)
  then show ?thesis using p
    by (simp add: ft_rel_def ft_start_def counters_ok_def entry_ok_def copy_ok_def ft_reset_simps)
qed

section \<open>A node that runs alone\<close>

lemma ft_run_Suc: "ft_step M D k r ptr pc s = Inr (pc', s') \<Longrightarrow> ft_run M D k r ptr (Suc n) pc s = ft_run M D k r ptr n pc' s'"
  by simp

lemma ft_run_done: "ft_run M D k r ptr n (FT_done v) s = Inr (FT_done v, s)"
  by (induction n) (simp_all add: ft_step_def)

fun steps_left :: "base_distribution \<Rightarrow> directory \<Rightarrow> ft_pc \<Rightarrow> nat" where
  "steps_left D s FT_local = 4 * nodes D + 9"
| "steps_left D s FT_public = 4 * nodes D + 8"
| "steps_left D s FT_claim = 4 * nodes D + 7"
| "steps_left D s (FT_search n i) = 4 * (nodes D - i) + 5"
| "steps_left D s (FT_offset n i q) = 4 * (nodes D - i) + (if q = counter s n then 3 else 4)"
| "steps_left D s (FT_cache n i q b) = (if b then 5 else 4 * (nodes D - i) + 2)"
| "steps_left D s (FT_store_local h q) = 4"
| "steps_left D s (FT_store_public h q) = 3"
| "steps_left D s (FT_copy xs) = 3"
| "steps_left D s FT_spin = 2"
| "steps_left D s pc = 0"

text \<open>
  When nobody else is inside a call, no page is half claimed: the call never has to wait. A call of
  \<^verbatim>\<open>homenode\<close> needs a null value whose low half is no node.
\<close>

definition alone :: "base_distribution \<Rightarrow> ft_threads \<Rightarrow> ft_call \<Rightarrow> nat \<Rightarrow> nat \<Rightarrow> ft_pc \<Rightarrow> directory \<Rightarrow> bool" where
  "alone D T k r ptr pc s \<longleftrightarrow> (\<exists>a. ft_rel D a (s, T(r := (k, ptr, pc))))
     \<and> (\<forall>w < nodes D. w \<noteq> r \<longrightarrow> \<not> ft_inside (snd (snd (T w))))
     \<and> (pc = FT_claim \<longrightarrow> snd (snd (pub D s (page D ptr))) = global_null D)
     \<and> pc \<noteq> FT_public_wait \<and> pc \<noteq> FT_await"

lemma alone_entry:
  assumes D: "ft_space D" and al: "alone D T k r ptr pc s" and r: "r < nodes D" and pc: "\<not> claiming pc"
  obtains "pub D s (page D ptr) = (global_null D, global_null D, global_null D)"
  | h q w where "pub D s (page D ptr) = (h, q, w)" "full D (h, q, w)"
      "h \<noteq> global_null D" "q \<noteq> global_null D" "w \<noteq> global_null D"
proof -
  obtain a where rel: "ft_rel D a (s, T(r := (k, ptr, pc)))" using al by (auto simp: alone_def)
  have "\<not> claiming (snd (snd ((T(r := (k, ptr, pc))) w)))" if "w < nodes D" for w
  proof (cases "w = r")
    case False
    then have "\<not> ft_inside (snd (snd (T w)))" using al that by (simp add: alone_def)
    then show ?thesis using False by (cases "snd (snd (T w))") simp_all
  qed (simp add: pc)
  then consider "pub D s (page D ptr) = (global_null D, global_null D, global_null D)"
    | h q w where "pub D s (page D ptr) = (h, q, w)" "full D (h, q, w)"
    using ft_relD(3) [OF rel r] unfolding entry_ok_def by auto
  then show thesis using that full_not_null [OF D] by cases blast+
qed

context mpi_rma
begin

lemma alone_rel:
  assumes "ft_space D" and "alone D T k r ptr pc s" and "r < nodes D" and "ft_inside pc"
    and "ft_step M D k r ptr pc s = Inr (pc', s')"
  shows "\<exists>a. ft_rel D a (s', T(r := (k, ptr, pc')))"
proof -
  obtain a where rel: "ft_rel D a (s, T(r := (k, ptr, pc)))" using assms(2) by (auto simp: alone_def)
  have "ft_sys M D (s, T(r := (k, ptr, pc))) (s', (T(r := (k, ptr, pc)))(r := (k, ptr, pc')))"
    by (rule ft_sys.step [OF assms(3) _ assms(4,5)]) simp
  from ft_simulation [OF assms(1) rel this] show ?thesis by auto
qed

lemma alone_spin:
  assumes D: "ft_space D" and al: "alone D T k r ptr FT_spin s" and r: "r < nodes D"
    and k: "k = Homenode \<and> nodes D \<le> wrap32 (global_null D) \<or> k = Local_offset"
  shows "\<exists>v. ft_step M D k r ptr FT_spin s = Inr (FT_done (Inr v), s)"
proof -
  obtain a where rel: "ft_rel D a (s, T(r := (k, ptr, FT_spin)))" using al by (auto simp: alone_def)
  have ok: "pc_ok D s a r k ptr FT_spin" using ft_relD(2) [OF rel r] by simp
  have "\<not> claiming FT_spin" by simp
  with D al r obtain h q w where e: "entry s r (page D ptr) = (h, q, w)" "full D (h, q, w)"
      "h \<noteq> global_null D" "q \<noteq> global_null D"
  proof (cases rule: alone_entry)
    case 1
    then have False using ok k full_not_null(1) [OF D] by (auto split: if_splits)
    then show ?thesis ..
  next
    case (2 h q w)
    then show ?thesis using that ok k by (cases "r = page D ptr mod nodes D") auto
  qed
  note st = step_spin [OF e(1)] and d = drift_sum [OF D e(2)]
  from k show ?thesis
  proof (elim disjE conjE)
    assume "k = Homenode" "nodes D \<le> wrap32 (global_null D)"
    then show ?thesis using st(1) d(4) e(2) by (simp add: check_home_def)
  next
    assume "k = Local_offset"
    then show ?thesis using st(2) d(1,2) [of ptr] e(2,4) by (simp add: check_offset_def)
  qed
qed

lemma alone_step:
  assumes D: "ft_space D" and al: "alone D T k r ptr pc s" and r: "r < nodes D" and pc: "ft_inside pc"
    and k: "k = Homenode \<and> nodes D \<le> wrap32 (global_null D) \<or> k = Local_offset"
  shows "\<exists>pc' s'. ft_step M D k r ptr pc s = Inr (pc', s') \<and> alone D T k r ptr pc' s'
     \<and> steps_left D s' pc' < steps_left D s pc \<and> (ft_inside pc' \<or> (\<exists>v. pc' = FT_done (Inr v)))"
proof -
  obtain a where rel: "ft_rel D a (s, T(r := (k, ptr, pc)))" using al by (auto simp: alone_def)
  note ok = ft_relD [OF rel r, of k ptr pc, simplified]
  have keep: "alone D T k r ptr pc' s'" if "ft_step M D k r ptr pc s = Inr (pc', s')"
      "pc' = FT_claim \<Longrightarrow> snd (snd (pub D s' (page D ptr))) = global_null D" "pc' \<noteq> FT_public_wait" "pc' \<noteq> FT_await" for pc' s'
    using alone_rel [OF D al r pc that(1)] al that(2-4) by (simp add: alone_def)
  obtain x y z where own: "entry s r (page D ptr) = (x, y, z)" by (metis prod_cases3)
  have N: "0 < nodes D" using r by simp
  show ?thesis
  proof (cases pc)
    case FT_local
    then show ?thesis using step_local [OF own, of k] keep by fastforce
  next
    case FT_public
    with al have "\<not> claiming pc" by simp
    with D al r show ?thesis
    proof (cases rule: alone_entry)
      case 1
      then show ?thesis using step_public(1) [OF 1, of k r] FT_public k keep by auto
    next
      case (2 h q w)
      then show ?thesis using step_public(1) [OF 2(1), of k r] FT_public keep by auto
    qed
  next
    case FT_claim
    then have "snd (snd (pub D s (page D ptr))) = global_null D" using al by (simp add: alone_def)
    then obtain h q where "pub D s (page D ptr) = (h, q, global_null D)" by (metis prod.collapse)
    from step_claim [OF this N, of k r] show ?thesis using FT_claim keep by auto
  next
    case (FT_search n i)
    then show ?thesis using step_search [of D k r ptr n i s] keep by auto
  next
    case (FT_offset n i q)
    then have "searching D s a r (page D ptr) n i" "q \<le> counter s n" using ok(2) by auto
    then have i: "i < nodes D" and "q \<le> size_per_node D"
      using ok(5) D by (auto simp: searching_def counters_ok_def ft_space_def intro: order_trans)
    from i step_offset [OF offset_bound [OF D this(2)], where D = D and k = k and r = r and ptr = ptr and n = n and i = i and s = s]
    show ?thesis using FT_offset keep by auto
  next
    case (FT_cache n i q b)
    then obtain pc' s' where st: "ft_step M D k r ptr pc s = Inr (pc', s')"
      using sim_cache [OF D rel r, of k ptr n i q b] by auto
    have "i < nodes D" if "\<not> b" using ok(2) FT_cache that by (simp add: searching_def)
    then show ?thesis using st step_cache [of D k r ptr n i q b s] FT_cache keep [OF st]
      by (auto simp: Let_def split: if_splits)
  next
    case (FT_store_local h q)
    then show ?thesis using step_store(1) [of D k r ptr h q s] keep by auto
  next
    case (FT_store_public h q)
    then show ?thesis using step_store(2) [of D k r ptr h q s] keep by auto
  next
    case (FT_copy xs)
    then show ?thesis using step_copy [of D k r ptr xs s] keep by auto
  next
    case FT_spin
    then show ?thesis using alone_spin [OF D _ r k, of T ptr s] al keep by auto
  qed (use pc al in \<open>simp_all add: alone_def\<close>)
qed

lemma alone_run:
  assumes "ft_space D" and "r < nodes D"
    and "k = Homenode \<and> nodes D \<le> wrap32 (global_null D) \<or> k = Local_offset"
    and "alone D T k r ptr pc s" and "ft_inside pc" and "steps_left D s pc \<le> n"
  shows "\<exists>v s'. ft_run M D k r ptr n pc s = Inr (FT_done (Inr v), s')"
  using assms(4-6)
proof (induction n arbitrary: pc s)
  case 0
  then show ?case using alone_step [OF assms(1) 0(1) assms(2) 0(2) assms(3)] by auto
next
  case (Suc n)
  obtain pc' s' where st: "ft_step M D k r ptr pc s = Inr (pc', s')" "alone D T k r ptr pc' s'"
      "steps_left D s' pc' < steps_left D s pc" "ft_inside pc' \<or> (\<exists>v. pc' = FT_done (Inr v))"
    using alone_step [OF assms(1) Suc.prems(1) assms(2) Suc.prems(2) assms(3)] by blast
  show ?case
  proof (cases "ft_inside pc'")
    case True
    then show ?thesis using Suc.IH [OF st(2)] st(1,3) Suc.prems(3) by simp
  next
    case False
    then show ?thesis using st(1,4) by (auto simp: ft_run_done)
  qed
qed

end

context mpi_rma
begin

lemma homenode_spin_stays:
  assumes "entry s r (page D ptr) = (h, q, v)" and "wrap32 h = wrap32 (global_null D)"
  shows "ft_run M D Homenode r ptr n FT_spin s = Inr (FT_spin, s)"
  by (induction n) (simp_all add: step_spin(1) [OF assms(1)] assms(2))

end

text \<open>A run of one node is a run of the system.\<close>

lemma ft_run_sys:
  assumes "r < nodes D" and "ft_run M D k r ptr n pc s = Inr (pc', s')"
  shows "(ft_sys M D)\<^sup>*\<^sup>* (s, T(r := (k, ptr, pc))) (s', T(r := (k, ptr, pc')))"
  using assms(2)
proof (induction n arbitrary: pc s)
  case (Suc n)
  then obtain pc1 s1 where st: "ft_step M D k r ptr pc s = Inr (pc1, s1)" "ft_run M D k r ptr n pc1 s1 = Inr (pc', s')"
    by (auto simp: bindE_eq_Inr_conv)
  note IH = Suc.IH [OF st(2)]
  show ?case
  proof (cases "ft_inside pc")
    case True
    have "ft_sys M D (s, T(r := (k, ptr, pc))) (s1, (T(r := (k, ptr, pc)))(r := (k, ptr, pc1)))"
      by (rule ft_sys.step [OF assms(1) _ True st(1)]) simp
    then show ?thesis using IH unfolding fun_upd_upd by (rule converse_rtranclp_into_rtranclp)
  next
    case False
    then have "pc1 = pc \<and> s1 = s" using st(1) by (cases pc) (simp_all add: ft_step_def)
    then show ?thesis using IH by simp
  qed
qed simp

definition ft_demo :: base_distribution where
  "ft_demo = \<lparr>nodes = 2, start_address = 0, total_size = 32768, size_per_node = 16384\<rparr>"

definition ft_blank :: directory where
  "ft_blank = \<lparr>owners_dir = (\<lambda>r i. 7), offsets_tbl = (\<lambda>r i. 7)\<rparr>"

lemma ft_demo_fields [simp]:
  "nodes ft_demo = 2" "start_address ft_demo = 0" "total_size ft_demo = 32768" "size_per_node ft_demo = 16384"
  by (simp_all add: ft_demo_def)

lemma ft_demo_space: "ft_space ft_demo"
  by (simp add: ft_space_def ft_demo_def granularity_def)

section \<open>Properties\<close>

text \<open>
  Claim C36. Every interleaving of calls of all nodes refines the abstract placement: the pages are
  placed one by one, no page ever moves, no two pages share a place and every place is inside its
  node's memory, and every finished \<^verbatim>\<open>homenode\<close> or \<^verbatim>\<open>local_offset\<close>, on whatever node and at whatever
  time, has returned the node or the offset of this one placement; the \<^verbatim>\<open>peek\<close> functions have returned
  the same, or reported that there is no place yet.
\<close>

theorem first_touch_placement:
  assumes "mpi_rma M" and "ft_space D"
    and "(ft_sys M D)\<^sup>*\<^sup>* (ft_start D s0) (s, T)" and "(ft_sys M D)\<^sup>*\<^sup>* (s, T) (s', T')"
  shows "\<exists>a b. place_step\<^sup>*\<^sup>* Map.empty a \<and> place_step\<^sup>*\<^sup>* a b \<and> a \<subseteq>\<^sub>m b \<and> inj_on b (dom b)
     \<and> (\<forall>p h q. b p = Some (h, q) \<longrightarrow> p < pages D \<and> h < nodes D \<and> q + granularity \<le> size_per_node D)
     \<and> (\<forall>r k ptr v. r < nodes D \<and> T r = (k, ptr, FT_done v) \<longrightarrow> result_ok D a k ptr v)
     \<and> (\<forall>r k ptr v. r < nodes D \<and> T' r = (k, ptr, FT_done v) \<longrightarrow> result_ok D b k ptr v)"
proof -
  obtain a where a: "ft_rel D a (s, T)" "place_step\<^sup>*\<^sup>* Map.empty a"
    using mpi_rma.ft_refines [OF assms(1,3,2) ft_start_rel [OF assms(2)]] by blast
  obtain b where b: "ft_rel D b (s', T')" "place_step\<^sup>*\<^sup>* a b"
    using mpi_rma.ft_refines [OF assms(1,4,2) a(1)] by blast
  have "inj_on b (dom b)" using place_steps_inj [OF rtranclp_trans [OF a(2) b(2)]] by simp
  moreover have "p < pages D \<and> h < nodes D \<and> q + granularity \<le> size_per_node D" if "b p = Some (h, q)" for p h q
  proof -
    have c: "counters_ok D s' b" using b(1) by (simp add: ft_rel_def)
    then have p: "p < pages D \<and> h < nodes D" using that by (simp add: counters_ok_def)
    with placed_full [OF c that] have "full D (h, q, h)" by blast
    then show ?thesis using p assms(2) dvd_room [of granularity q "size_per_node D"] by (simp add: ft_space_def)
  qed
  moreover have "result_ok D a k ptr v" if "r < nodes D" "T r = (k, ptr, FT_done v)" for r k ptr v
    using ft_relD(2) [OF a(1) that] by simp
  moreover have "result_ok D b k ptr v" if "r < nodes D" "T' r = (k, ptr, FT_done v)" for r k ptr v
    using ft_relD(2) [OF b(1) that] by simp
  ultimately show ?thesis using a(2) b(2) place_steps_le [OF b(2)] by blast
qed

text \<open>
  Claim C37. A call ends: when no other node is inside a call, \<^verbatim>\<open>homenode\<close> and \<^verbatim>\<open>local_offset\<close> return
  within four steps per node and nine more and raise no exception, so a node with room is always found. For
  \<^verbatim>\<open>homenode\<close> the low half of the null value must not be the number of a node.
\<close>

theorem first_touch_completes:
  assumes "mpi_rma M" and "ft_space D" and "(ft_sys M D)\<^sup>*\<^sup>* (ft_start D s0) (s, T)"
    and "r < nodes D" and "\<And>w. w < nodes D \<Longrightarrow> \<not> ft_inside (snd (snd (T w)))" and "x < total_size D"
    and "k = Homenode \<and> nodes D \<le> wrap32 (global_null D) \<or> k = Local_offset"
  shows "\<exists>v s'. ft_run M D k r (start_address D + x) (4 * nodes D + 9) FT_local s = Inr (FT_done (Inr v), s')"
proof -
  obtain a where "ft_rel D a (s, T)"
    using mpi_rma.ft_refines [OF assms(1,3,2) ft_start_rel [OF assms(2)]] by blast
  moreover obtain j ptr pc where t: "T r = (j, ptr, pc)" by (metis prod_cases3)
  moreover have "\<not> ft_inside pc" using assms(5) [OF assms(4)] t by simp
  ultimately have "ft_rel D a (s, T(r := (k, start_address D + x, FT_local)))"
    using ft_rel_call [OF assms(2)] assms(4,6) by blast
  then have "alone D T k r (start_address D + x) FT_local s" using assms(5) by (auto simp: alone_def)
  from mpi_rma.alone_run [OF assms(1,2,4,7) this] show ?thesis by simp
qed

theorem first_touch_completes_witness:
  "\<exists>v s'. ft_run mpi_seq ft_demo Homenode 1 8200 17 FT_local (ft_reset ft_demo ft_blank) = Inr (FT_done (Inr v), s')"
proof -
  have n: "nodes ft_demo \<le> wrap32 (global_null ft_demo)"
    by (simp add: global_null_def add64_def wrap64_def wrap32_def)
  have "\<exists>v s'. ft_run mpi_seq ft_demo Homenode 1 (start_address ft_demo + 8200) (4 * nodes ft_demo + 9) FT_local
      (ft_reset ft_demo ft_blank) = Inr (FT_done (Inr v), s')"
    by (rule first_touch_completes [OF seq.mpi_rma_axioms ft_demo_space, where T = "\<lambda>r. (Homenode, 0, FT_idle)"
        and ?s0.0 = ft_blank])
      (use n in \<open>simp_all add: ft_start_def\<close>)
  then show ?thesis by simp
qed

theorem first_touch_placement_witness:
  "\<exists>s T a v. (ft_sys mpi_seq ft_demo)\<^sup>*\<^sup>* (ft_start ft_demo ft_blank) (s, T) \<and> T 1 = (Homenode, 8200, FT_done (Inr v))
     \<and> result_ok ft_demo a Homenode 8200 (Inr v)"
proof -
  let ?T = "\<lambda>r :: nat. (Homenode, 0 :: nat, FT_idle)"
  have n: "nodes ft_demo \<le> wrap32 (global_null ft_demo)"
    by (simp add: global_null_def add64_def wrap64_def wrap32_def)
  have st: "ft_start ft_demo ft_blank = (ft_reset ft_demo ft_blank, ?T)" by (simp add: ft_start_def)
  have c: "ft_sys mpi_seq ft_demo (ft_reset ft_demo ft_blank, ?T) (ft_reset ft_demo ft_blank, ?T(1 := (Homenode, start_address ft_demo + 8200, FT_local)))"
    by (rule ft_sys.call [where pc = FT_idle]) simp_all
  have "ft_rel ft_demo Map.empty (ft_reset ft_demo ft_blank, ?T(1 := (Homenode, start_address ft_demo + 8200, FT_local)))"
    by (rule ft_rel_call [OF ft_demo_space, where pc = FT_idle]) (use ft_start_rel [OF ft_demo_space, of ft_blank] st in simp_all)
  then have "alone ft_demo ?T Homenode 1 (start_address ft_demo + 8200) FT_local (ft_reset ft_demo ft_blank)"
    by (auto simp: alone_def)
  with seq.alone_run [OF ft_demo_space, of 1 Homenode ?T _ FT_local _ 17] n
  have "\<exists>v s'. ft_run mpi_seq ft_demo Homenode 1 8200 17 FT_local (ft_reset ft_demo ft_blank) = Inr (FT_done (Inr v), s')" by simp
  then obtain v s' where "ft_run mpi_seq ft_demo Homenode 1 8200 17 FT_local (ft_reset ft_demo ft_blank) = Inr (FT_done (Inr v), s')" by blast
  then have "(ft_sys mpi_seq ft_demo)\<^sup>*\<^sup>* (ft_reset ft_demo ft_blank, ?T(1 := (Homenode, 8200, FT_local)))
      (s', ?T(1 := (Homenode, 8200, FT_done (Inr v))))"
    by (intro ft_run_sys) simp_all
  with c have r: "(ft_sys mpi_seq ft_demo)\<^sup>*\<^sup>* (ft_start ft_demo ft_blank) (s', ?T(1 := (Homenode, 8200, FT_done (Inr v))))"
    unfolding st by (simp add: converse_rtranclp_into_rtranclp)
  from first_touch_placement [OF seq.mpi_rma_axioms ft_demo_space r rtranclp.rtrancl_refl] obtain a
    where "\<forall>r k ptr w. r < nodes ft_demo \<and> (?T(1 := (Homenode, 8200, FT_done (Inr v)))) r = (k, ptr, FT_done w) \<longrightarrow> result_ok ft_demo a k ptr w"
    by blast
  then have "result_ok ft_demo a Homenode 8200 (Inr v)" by (elim allE [of _ 1]) simp
  with r show ?thesis by (intro exI [of _ s']) force
qed

text \<open>
  \<^verbatim>\<open>peek_homenode\<close> of a page nobody has touched does not return \<^verbatim>\<open>invalid_node_id\<close>, as the comment
  at its caller says: the marker fails the range check and the call throws.
\<close>

lemma peek_homenode_untouched:
  assumes "mpi_rma M" and "ft_space D" and "r < nodes D" and "x < total_size D"
  shows "ft_run M D Peek_homenode r (start_address D + x) (3 + n) FT_local (ft_reset D s0) = Inl (System_error msg_fetch_homenode_fail)"
proof -
  let ?n = "global_null D" and ?p = "page D (start_address D + x)"
  have e: "entry (ft_reset D s0) r ?p = (?n, ?n, ?n)" "pub D (ft_reset D s0) ?p = (?n, ?n, ?n)"
    using ft_page_less [OF assms(2,4)] assms(2,3) by (simp_all add: ft_reset_simps ft_space_def)
  have "nodes D \<le> invalid_node_id" using assms(2) by (simp add: ft_space_def invalid_node_id_def)
  then have "check_home D invalid_node_id = Inl (System_error msg_fetch_homenode_fail)" by (simp add: check_home_def)
  then show ?thesis
    by (simp add: eval_nat_numeral mpi_rma.step_local [OF assms(1) e(1)] mpi_rma.step_public [OF assms(1) e(2)]
        mpi_rma.step_spin [OF assms(1) e(1)])
qed

lemma peek_homenode_untouched_example:
  "ft_run mpi_seq ft_demo Peek_homenode 1 8200 3 FT_local (ft_reset ft_demo ft_blank) = Inl (System_error msg_fetch_homenode_fail)"
  using peek_homenode_untouched [OF seq.mpi_rma_axioms ft_demo_space, of 1 8200 0 ft_blank] by simp

text \<open>
  Claim C38. \<^verbatim>\<open>homenode\<close> compares only the low 32 bits with the null value. When these are the number of a
  node, the first touch of a page by that node spins for ever on the entry it has just written: with a
  global memory of 4 GiB this happens to node 1.
\<close>

theorem homenode_spins_forever:
  assumes "mpi_rma M" and "ft_space D" and "r < nodes D" and "wrap32 (global_null D) = r" and "x < total_size D"
  shows "\<exists>s. \<forall>n. ft_run M D Homenode r (start_address D + x) (8 + n) FT_local (ft_reset D s0) = Inr (FT_spin, s)"
proof -
  define ptr where "ptr = start_address D + x"
  let ?n = "global_null D" and ?p = "page D ptr" and ?c = "page D ptr mod nodes D"
  let ?run = "ft_run M D Homenode r ptr" and ?step = "ft_step M D Homenode r ptr"
  have N: "0 < nodes D" "0 < size_per_node D" using assms(2) by (simp_all add: ft_space_def)
  have w: "wrap32 r = wrap32 ?n" using assms(4) by (auto simp: wrap32_def)
  note spin = mpi_rma.homenode_spin_stays [OF assms(1) _ w]
  let ?s0 = "ft_reset D s0"
  let ?s1 = "?s0\<lparr>owners_dir := (owners_dir ?s0)(?c := (owners_dir ?s0 ?c)(3 * ?p + 2 := r))\<rparr>"
  let ?s2 = "?s1\<lparr>offsets_tbl := (offsets_tbl ?s1)(r := (offsets_tbl ?s1 r)(r := 0 + granularity))\<rparr>"
  let ?s3 = "store_local_owners_dir [r, 0, r] r (3 * ?p) ?s2"
  have e: "entry ?s0 r ?p = (?n, ?n, ?n)" "pub D ?s0 ?p = (?n, ?n, ?n)"
    using ft_page_less [OF assms(2,5)] assms(2,3) by (simp_all add: ptr_def ft_reset_simps ft_space_def)
  have t: "offsets_tbl ?s1 r r = 0" using assms(3) by (simp add: ft_reset_simps)
  have steps: "?step FT_local ?s0 = Inr (FT_public, ?s0)" "?step FT_public ?s0 = Inr (FT_claim, ?s0)"
      "?step FT_claim ?s0 = Inr (FT_search r 0, ?s1)" "?step (FT_search r 0) ?s1 = Inr (FT_offset r 0 0, ?s1)"
      "?step (FT_offset r 0 0) ?s1 = Inr (FT_cache r 0 0 True, ?s2)"
      "?step (FT_cache r 0 0 True) ?s2 = Inr (FT_store_local r 0, ?s2)"
      "?step (FT_store_local r 0) ?s2 = Inr (if r \<noteq> ?c then FT_store_public r 0 else FT_spin, ?s3)"
      "?step (FT_store_public r 0) ?s3 = Inr (FT_spin, store_local_owners_dir [r, 0, r] ?c (3 * ?p) ?s3)"
    using mpi_rma.step_local [OF assms(1) e(1)] mpi_rma.step_public(1) [OF assms(1) e(2)]
      mpi_rma.step_claim [OF assms(1) e(2) N(1)] mpi_rma.step_search [OF assms(1)] t N(2)
      mpi_rma.step_offset [OF assms(1), of 0] mpi_rma.step_cache [OF assms(1)] mpi_rma.step_store [OF assms(1)]
    by (simp_all add: granularity_def)
  note st = steps [THEN ft_run_Suc]
  let ?s4 = "store_local_owners_dir [r, 0, r] ?c (3 * ?p) ?s3"
  have own: "entry ?s3 r ?p = (r, 0, r)" "r \<noteq> ?c \<Longrightarrow> entry ?s4 r ?p = (r, 0, r)" by simp_all
  have "\<exists>s. \<forall>n. ?run (Suc (Suc n)) (FT_store_local r 0) ?s2 = Inr (FT_spin, s)"
  proof (cases "r = ?c")
    case True
    then have pc: "(if r \<noteq> ?c then FT_store_public r 0 else FT_spin) = FT_spin" by simp
    show ?thesis unfolding st(7) pc by (intro exI allI) (rule spin [OF own(1)])
  next
    case False
    then have pc: "(if r \<noteq> ?c then FT_store_public r 0 else FT_spin) = FT_store_public r 0" by simp
    show ?thesis unfolding st(7) pc st(8) by (intro exI allI) (rule spin [OF own(2) [OF False]])
  qed
  moreover have "?run (8 + n) FT_local ?s0 = ?run (Suc (Suc n)) (FT_store_local r 0) ?s2" for n
  proof -
    have "8 + n = Suc (Suc (Suc (Suc (Suc (Suc (Suc (Suc n)))))))" by simp
    then show ?thesis by (simp only: st(1-6))
  qed
  ultimately show ?thesis by (simp only: ptr_def)
qed

definition ft_4gib :: base_distribution where
  "ft_4gib = \<lparr>nodes = 2, start_address = 0, total_size = 4294967296, size_per_node = 2147483648\<rparr>"

theorem homenode_spins_forever_witness:
  "\<exists>s. \<forall>n. ft_run mpi_seq ft_4gib Homenode 1 0 (8 + n) FT_local (ft_reset ft_4gib ft_blank) = Inr (FT_spin, s)"
  using homenode_spins_forever [OF seq.mpi_rma_axioms, of ft_4gib 1 0]
  by (simp add: ft_4gib_def ft_space_def granularity_def global_null_def add64_def wrap64_def wrap32_def)

end
