(* ===== verification/Global_Locks.thy ===== *)
theory Global_Locks
  imports Coherence_Main Mpi_Atomics
begin

text \<open>
  The locks that work across nodes: the test-and-set lock of \<^verbatim>\<open>global_tas_lock.hpp\<close> on a word of
  global memory, and the hierarchical lock of \<^verbatim>\<open>cohort_lock.hpp\<close>. The atomic operations are those of
  \<^verbatim>\<open>mpi.cpp\<close> on the cluster; handing the lock over from one node to another composes them with the
  release and acquire of the coherence protocol.
\<close>

section \<open>The effect of relaxed atomics\<close>

definition word_size :: "nat \<Rightarrow> bool" where
  "word_size k \<longleftrightarrow> k = 4 \<or> k = 8"

context dsm
begin

lemma set_object_window:
  "upd (home_of c x) (set_data_window c (splice v (off_of c x) (data_window c (s (home_of c x))))) s = set_object c x v s"
  by (simp add: set_object_def upd_def)

lemma atomic_exchange_relaxed:
  assumes "x < size_of_all c" and "word_size (length v)"
  shows "atomic_exchange E c r (gptr c x) v mo_relaxed s = Inr (object_bytes c x (length v) s, set_object c x v s)"
proof -
  obtain g where "global_ptr_convert (policy c) (gptr c x) = Inr g" "mpi_target c g = Inr (home_of c x, off_of c x)"
    using gptr_convert [OF assms(1) few_nodes] by blast
  with assms(2) show ?thesis
    by (auto simp: atomic_exchange_def ordered_def mpi_exchange_def fitting_mpi_int_def word_size_def
        fetch_and_replace object_bytes_def set_object_window)
qed

lemma atomic_store_relaxed:
  assumes "x < size_of_all c" and "word_size (length v)"
  shows "atomic_store E c r (gptr c x) v mo_relaxed s = Inr (set_object c x v s)"
proof -
  obtain g where "global_ptr_convert (policy c) (gptr c x) = Inr g" "mpi_target c g = Inr (home_of c x, off_of c x)"
    using gptr_convert [OF assms(1) few_nodes] by blast
  with assms(2) show ?thesis
    by (auto simp: atomic_store_def ordered_def mpi_store_def fitting_mpi_int_def word_size_def put set_object_window)
qed

lemma atomic_load_relaxed:
  assumes "x < size_of_all c" and "word_size k"
  shows "atomic_load E c r (gptr c x) k mo_relaxed s = Inr (object_bytes c x k s, s)"
proof -
  obtain g where "global_ptr_convert (policy c) (gptr c x) = Inr g" "mpi_target c g = Inr (home_of c x, off_of c x)"
    using gptr_convert [OF assms(1) few_nodes] by blast
  with assms(2) show ?thesis
    by (auto simp: atomic_load_def ordered_def mpi_load_def fitting_mpi_int_def word_size_def get object_bytes_def)
qed

lemma atomic_compare_exchange_relaxed:
  assumes "x < size_of_all c" and "word_size (length v)" and "length e = length v"
  shows "atomic_compare_exchange E c r (gptr c x) e v mo_relaxed s =
     Inr (object_bytes c x (length v) s = e, if object_bytes c x (length v) s = e then set_object c x v s else s)"
proof -
  obtain g where g: "global_ptr_convert (policy c) (gptr c x) = Inr g" "mpi_target c g = Inr (home_of c x, off_of c x)"
    using gptr_convert [OF assms(1) few_nodes] by blast
  have "set_data_window c (data_window c nd) nd = nd" for nd
  proof -
    have "(\<lambda>j. if cacheoffset c \<le> j then backing nd (cacheoffset c + (j - cacheoffset c)) else backing nd j) = backing nd"
      by (rule ext) simp
    then show ?thesis by (simp add: set_data_window_def data_window_def)
  qed
  then have "upd h (set_data_window c (data_window c (s h))) s = s" for h by (simp add: upd_def)
  with g assms(2,3) show ?thesis
    by (auto simp: atomic_compare_exchange_def ordered_def mpi_compare_exchange_def fitting_mpi_int_def word_size_def
        compare_and_swap object_bytes_def set_object_window)
qed

lemma atomic_fetch_add_relaxed:
  assumes "x < size_of_all c" and "word_size (length v)" and "T = Unsigned_int \<or> T = Signed_int"
  shows "\<exists>bs. atomic_fetch_add E c r T (gptr c x) v mo_relaxed s =
       Inr (object_bytes c x (length v) s, set_object c x bs s) \<and> length bs = length v
     \<and> le_val bs = (le_val (object_bytes c x (length v) s) + le_val v) mod 256 ^ length v"
proof -
  obtain g where g: "global_ptr_convert (policy c) (gptr c x) = Inr g" "mpi_target c g = Inr (home_of c x, off_of c x)"
    using gptr_convert [OF assms(1) few_nodes] by blast
  let ?w = "data_window c (s (home_of c x))" and ?o = "object_bytes c x (length v) s"
  have f: "MPI_Fetch_and_sum E t v (off_of c x) ?w = (?o, splice (le_add 0 ?o v) (off_of c x) ?w)"
    if "mpi_integer t" "mpi_type_size t = length v" for t
    using fetch_and_sum(1) [of t v "off_of c x" ?w] fetch_and_sum_int [of t v "off_of c x" ?w] that
    by (simp add: object_bytes_def prod_eq_iff)
  have "atomic_fetch_add E c r T (gptr c x) v mo_relaxed s = Inr (?o, set_object c x (le_add 0 ?o v) s)"
    using assms(2,3) g f [of MPI_INT32_T] f [of MPI_INT64_T] f [of MPI_UINT32_T] f [of MPI_UINT64_T]
    by (auto simp: atomic_fetch_add_def ordered_def mpi_fetch_add_int_def mpi_fetch_add_uint_def fitting_mpi_int_def
        fitting_mpi_uint_def mpi_fetch_add_def word_size_def set_object_window)
  then show ?thesis using le_val_add [of ?o v 0] by (intro exI [of _ "le_add 0 ?o v"]) simp
qed

section \<open>Atomics and the coherence invariant\<close>

text \<open>
  An atomic write goes to the home memory behind the backs of the caches. It keeps the invariant
  when no other node caches the page of the word.
\<close>

definition word_at :: "nat \<Rightarrow> nat \<Rightarrow> nat \<Rightarrow> bool" where
  "word_at p j k \<longleftrightarrow> is_page c p \<and> j + k \<le> PAGE_SIZE c \<and> 0 < k"

definition uncached :: "cluster \<Rightarrow> nat \<Rightarrow> bool" where
  "uncached s p \<longleftrightarrow> (\<forall>n < numtasks c. home_of c p \<noteq> n \<longrightarrow> \<not> cached c s n p)"

lemma set_object_home_byte:
  assumes w: "word_at p j (length v)" and q: "is_page c q" "i < PAGE_SIZE c"
  shows "home_byte c (set_object c (p + j) v s) q i =
     (if q = p \<and> j \<le> i \<and> i < j + length v then v ! (i - j) else home_byte c s q i)"
proof -
  have "j < j + length v" "j + length v \<le> PAGE_SIZE c" and p: "is_page c p" using w by (auto simp: word_at_def)
  then have j: "j < PAGE_SIZE c" by linarith
  have h: "home_of c (p + j) = home_of c p" "off_of c (p + j) = off_of c p + j" using page_home page_off p j by auto
  show ?thesis
  proof (cases "q = p")
    case True
    then show ?thesis by (auto simp: home_byte_def set_object_def h splice_def)
  next
    case False
    have "off_of c q + i < off_of c p + j \<or> off_of c p + j + length v \<le> off_of c q + i" if "home_of c q = home_of c p"
    proof (rule ccontr)
      assume b: "\<not> (off_of c q + i < off_of c p + j \<or> off_of c p + j + length v \<le> off_of c q + i)"
      let ?d = "off_of c q + i - off_of c p"
      have "?d < j + length v" "off_of c q + i = off_of c p + ?d" using b by linarith+
      moreover from this have "?d < PAGE_SIZE c" using w by (simp add: word_at_def)
      ultimately show False using page_ranges_disjoint [OF q(1) p that False q(2), of ?d] by simp
    qed
    then show ?thesis using False by (auto simp: home_byte_def set_object_def h splice_out upd_def)
  qed
qed

lemma set_object_views:
  fixes s :: cluster and x :: nat and v :: "byte list"
  defines "t \<equiv> set_object c x v s"
  shows "cached c t = cached c s" and "dirty_at c t = dirty_at c s" and "sharers c t = sharers c s"
    and "writers c t = writers c s" and "twin_byte c t = twin_byte c s" and "vprot (t n) = vprot (s n)"
    and "globalSharers (t n) = globalSharers (s n)" and "wb_buffer (t n) = wb_buffer (s n)"
    and "node_ok c L D n (t n) = node_ok c L D n (s n)"
    and "i < PAGE_SIZE c \<Longrightarrow> cache_byte c t n q i = cache_byte c s n q i"
proof -
  have f: "cacheControl (t n) = cacheControl (s n)" "touchedcache (t n) = touchedcache (s n)" "vmap (t n) = vmap (s n)"
    "vprot (t n) = vprot (s n)" "wb_buffer (t n) = wb_buffer (s n)" "cache_locks (t n) = cache_locks (s n)"
    "globalSharers (t n) = globalSharers (s n)" "pagecopy (t n) = pagecopy (s n)" for n
    by (simp_all add: t_def set_object_def set_data_window_def upd_def)
  show "cached c t = cached c s" and "dirty_at c t = dirty_at c s" and "sharers c t = sharers c s"
    and "writers c t = writers c s" and "twin_byte c t = twin_byte c s"
    by (simp_all add: fun_eq_iff cached_def dirty_at_def sharers_def writers_def twin_byte_def f)
  show "vprot (t n) = vprot (s n)" "globalSharers (t n) = globalSharers (s n)" "wb_buffer (t n) = wb_buffer (s n)"
    by (rule f)+
  show "node_ok c L D n (t n) = node_ok c L D n (s n)" by (rule node_ok_cong) (rule f)+
  show "cache_byte c t n q i = cache_byte c s n q i" if "i < PAGE_SIZE c"
    using cache_area [OF cache_index_less that, of q]
    by (simp add: cache_byte_def t_def set_object_def set_data_window_def upd_def)
qed

lemma set_object_coherent:
  assumes co: "coherent c s" and w: "word_at p j (length v)" and u: "uncached s p"
  shows "coherent c (set_object c (p + j) v s)" and "uncached (set_object c (p + j) v s) p"
proof -
  let ?t = "set_object c (p + j) v s"
  note sv = set_object_views [where x = "p + j" and v = v and s = s]
  show "uncached ?t p" using u by (simp add: uncached_def sv)
  have "data_ok c ?t" unfolding data_ok_def
  proof (intro allI impI, elim conjE)
    fix n q i assume a: "n < numtasks c" "is_page c q" "i < PAGE_SIZE c" "home_of c q \<noteq> n"
      "cached c ?t n q" "writers c ?t (home_of c q) q \<subseteq> {n}"
    have "q \<noteq> p" using u a by (auto simp: uncached_def sv)
    then have "home_byte c ?t q i = home_byte c s q i" using set_object_home_byte [OF w a(2,3)] by simp
    then show "home_byte c ?t q i = (if dirty_at c ?t n q then twin_byte c ?t n q i else cache_byte c ?t n q i)"
      using co a unfolding coherent_def data_ok_def sv sv(10) [OF a(3)] by simp
  qed
  then show "coherent c ?t" using co by (simp add: coherent_def dir_ok_def link_ok_def sv)
qed

end

section \<open>global\_tas\_lock.hpp\<close>

definition tas_init :: nat where
  "tas_init = 2 ^ 64 - 2"

definition tas_locked :: nat where
  "tas_locked = 2 ^ 64 - 1"

text \<open>An ordinary store by an application thread, with the faults it takes.\<close>

definition write_byte :: "ext \<Rightarrow> swdsm_config \<Rightarrow> nat \<Rightarrow> nat \<Rightarrow> byte \<Rightarrow> cluster \<Rightarrow> argo_error + cluster" where
  "write_byte E c n x v s =
     (case store_byte c n x v s of
        Some t \<Rightarrow> Inr t
      | None \<Rightarrow> bindE (handler E c n x write_access s) (\<lambda>s.
          case store_byte c n x v s of
            Some t \<Rightarrow> Inr t
          | None \<Rightarrow> bindE (handler E c n x write_access s) (\<lambda>s.
              case store_byte c n x v s of Some t \<Rightarrow> Inr t | None \<Rightarrow> Inl Diverges)))"

text \<open>The constructor stores \<^verbatim>\<open>init\<close> into the lock field at \<open>x\<close> by an ordinary store.\<close>

definition tas_new :: "ext \<Rightarrow> swdsm_config \<Rightarrow> nat \<Rightarrow> nat \<Rightarrow> cluster \<Rightarrow> argo_error + cluster" where
  "tas_new E c n x s =
     foldE (\<lambda>i. write_byte E c n (x + i) (le_bytes 8 tas_init ! i)) [0..<8] s"

definition tas_try_lock ::
  "ext \<Rightarrow> swdsm_config \<Rightarrow> nat \<Rightarrow> global_ptr \<Rightarrow> cluster \<Rightarrow> argo_error + bool \<times> cluster" where
  "tas_try_lock E c self lastuser s =
     bindE (atomic_exchange E c self lastuser (le_bytes 8 tas_locked) mo_relaxed s) (\<lambda>(out, s).
       let old = le_val out
       in if old \<noteq> tas_locked
          then if old = self \<or> old = tas_init then Inr (True, s)
               else bindE (backend_acquire E c self s) (\<lambda>s. Inr (True, s))
          else Inr (False, s))"

definition tas_unlock ::
  "ext \<Rightarrow> swdsm_config \<Rightarrow> nat \<Rightarrow> global_ptr \<Rightarrow> cluster \<Rightarrow> argo_error + cluster" where
  "tas_unlock E c self lastuser s =
     bindE (backend_release E c self s) (\<lambda>s. atomic_store E c self lastuser (le_bytes 8 self) mo_release s)"

text \<open>\<^verbatim>\<open>lock\<close> repeats \<^verbatim>\<open>try_lock\<close>; \<open>fuel\<close> bounds the attempts and the flag tells whether one succeeded.\<close>

fun tas_lock ::
  "nat \<Rightarrow> ext \<Rightarrow> swdsm_config \<Rightarrow> nat \<Rightarrow> global_ptr \<Rightarrow> cluster \<Rightarrow> argo_error + bool \<times> cluster" where
  "tas_lock 0 E c self lastuser s = Inr (False, s)"
| "tas_lock (Suc fuel) E c self lastuser s =
     bindE (tas_try_lock E c self lastuser s) (\<lambda>(taken, s).
       if taken then Inr (True, s) else tas_lock fuel E c self lastuser s)"

section \<open>Mutual exclusion across nodes\<close>

text \<open>
  The nodes' steps between their atomic accesses to the lock word at \<open>x\<close>: the exchange, the acquire
  that may follow it, the two releases of \<^verbatim>\<open>unlock\<close> and the store, and any other activity of the memory
  system. The lock word is used by the lock only, so everything but the exchange and the store leaves
  it unchanged.
\<close>

datatype tas_pc = L_idle | L_got nat | L_crit | L_released

type_synonym tas_state = "(nat \<Rightarrow> tas_pc) \<times> cluster"

definition lock_word :: "swdsm_config \<Rightarrow> nat \<Rightarrow> cluster \<Rightarrow> nat" where
  "lock_word c x s = le_val (object_bytes c x 8 s)"

inductive tas_step :: "ext \<Rightarrow> swdsm_config \<Rightarrow> nat \<Rightarrow> tas_state \<Rightarrow> tas_state \<Rightarrow> bool" for E c x where
  xchg: "n < numtasks c \<Longrightarrow> pc n = L_idle \<Longrightarrow>
     atomic_exchange E c n (gptr c x) (le_bytes 8 tas_locked) mo_relaxed s = Inr (out, s') \<Longrightarrow>
     tas_step E c x (pc, s) (pc(n := if le_val out \<noteq> tas_locked then L_got (le_val out) else L_idle), s')"
| enter: "pc n = L_got old \<Longrightarrow>
     (if old = n \<or> old = tas_init then Inr s else backend_acquire E c n s) = Inr s' \<Longrightarrow>
     lock_word c x s' = lock_word c x s \<Longrightarrow> tas_step E c x (pc, s) (pc(n := L_crit), s')"
| leave: "pc n = L_crit \<Longrightarrow> bindE (backend_release E c n s) (backend_release E c n) = Inr s' \<Longrightarrow>
     lock_word c x s' = lock_word c x s \<Longrightarrow> tas_step E c x (pc, s) (pc(n := L_released), s')"
| store: "pc n = L_released \<Longrightarrow>
     atomic_store E c n (gptr c x) (le_bytes 8 n) mo_relaxed s = Inr s' \<Longrightarrow>
     tas_step E c x (pc, s) (pc(n := L_idle), s')"
| work: "dsm_step E c s s' \<Longrightarrow> lock_word c x s' = lock_word c x s \<Longrightarrow> tas_step E c x (pc, s) (pc, s')"

definition tas_inv :: "swdsm_config \<Rightarrow> nat \<Rightarrow> tas_state \<Rightarrow> bool" where
  "tas_inv c x st \<longleftrightarrow> (case st of (pc, s) \<Rightarrow>
     (\<forall>n. pc n \<noteq> L_idle \<longrightarrow> n < numtasks c \<and> lock_word c x s = tas_locked)
   \<and> (\<forall>m n. pc m \<noteq> L_idle \<and> pc n \<noteq> L_idle \<longrightarrow> m = n))"

lemma tas_inv_move:
  assumes "tas_inv c x (pc, s)" and "pc n \<noteq> L_idle" and "lock_word c x s' = lock_word c x s"
  shows "tas_inv c x (pc(n := q), s')"
proof -
  have "n < numtasks c" "lock_word c x s = tas_locked" using assms(1,2) by (simp_all add: tas_inv_def)
  with assms show ?thesis by (auto simp: tas_inv_def)
qed

context dsm
begin

lemma le_word: "n < 2 ^ 64 \<Longrightarrow> le_val (le_bytes 8 n) = n"
  by (simp add: le_val_bytes)

lemma tas_step_inv:
  assumes "tas_step E c x st st'" and x: "x < size_of_all c" and inv: "tas_inv c x st"
  shows "tas_inv c x st'"
  using assms(1)
proof cases
  case (xchg n pc s out s')
  have o: "out = object_bytes c x 8 s" "s' = set_object c x (le_bytes 8 tas_locked) s"
    using xchg(5) atomic_exchange_relaxed [OF x, of "le_bytes 8 tas_locked" n s] by (simp_all add: word_size_def)
  have l: "lock_word c x s' = tas_locked" by (simp add: lock_word_def o(2) le_word tas_locked_def)
  show ?thesis using xchg inv l by (auto simp: tas_inv_def lock_word_def o(1))
next
  case (store pc n s s')
  have "s' = set_object c x (le_bytes 8 n) s"
    using store(4) atomic_store_relaxed [OF x, of "le_bytes 8 n" n s] by (simp add: word_size_def)
  then show ?thesis using store inv by (auto simp: tas_inv_def)
next
  case (enter pc n old s s')
  then show ?thesis using inv tas_inv_move [of c x pc s n s'] by simp
next
  case (leave pc n s s')
  then show ?thesis using inv tas_inv_move [of c x pc s n s'] by simp
next
  case (work s s' pc)
  then show ?thesis using inv unfolding tas_inv_def by simp blast
qed

lemma tas_steps_inv: "(tas_step E c x)\<^sup>*\<^sup>* st st' \<Longrightarrow> x < size_of_all c \<Longrightarrow> tas_inv c x st \<Longrightarrow> tas_inv c x st'"
  by (induction rule: rtranclp_induct) (auto intro: tas_step_inv)

section \<open>Handing the lock over\<close>

lemma release_again:
  assumes co: "coherent c s" and w: "w < numtasks c" and e: "wb_buffer (s w) = []"
  shows "\<exists>t. argo_release E c w s = Inr t \<and> coherent c t \<and> wrote_back c w {} s t \<and> wb_buffer (t w) = []"
  using argo_release_effect [OF co w] e by simp

lemma uncached_wrote_back: "wrote_back c w X s t \<Longrightarrow> uncached t p = uncached s p"
  by (simp add: uncached_def wrote_back_views(1))

lemma no_own_write_wrote_back:
  assumes "wrote_back c w X s t" and "n \<noteq> w" and "j < PAGE_SIZE c"
  shows "no_own_write c t n p j = no_own_write c s n p j"
proof -
  have loc: "same_local c (s n) (t n)" using assms(1) by (simp add: wrote_back_def)
  show ?thesis
    using wrote_back_views(2) [OF assms(1), of n p] same_local_bytes [of s n t j p, OF loc assms(3)] assms(2)
    by (simp add: no_own_write_def)
qed

lemma tas_unlock_effect:
  assumes co: "coherent c s" and w: "w < numtasks c" and x: "x < size_of_all c"
    and v: "load_byte c w x s = Some v" and pub: "published c s w (page_of c x) (x mod PAGE_SIZE c)"
    and l: "word_at p j 8" "uncached s p" and ne: "\<not> (page_of c x = p \<and> j \<le> x mod PAGE_SIZE c \<and> x mod PAGE_SIZE c < j + 8)"
    and n: "n \<noteq> w" "no_own_write c s n (page_of c x) (x mod PAGE_SIZE c)"
  shows "\<exists>t. tas_unlock E c w (gptr c (p + j)) s = Inr t \<and> coherent c t \<and> uncached t p
     \<and> lock_word c (p + j) t = w \<and> home_byte c t (page_of c x) (x mod PAGE_SIZE c) = v
     \<and> no_own_write c t n (page_of c x) (x mod PAGE_SIZE c)"
proof -
  let ?a = "page_of c x" and ?i = "x mod PAGE_SIZE c" and ?w = "le_bytes 8 w"
  note sp = address_split [OF x]
  obtain s1 where s1: "argo_release E c w s = Inr s1" "coherent c s1" "wb_buffer (s1 w) = []"
      "wrote_back c w (set (wb_buffer (s w))) s s1" "home_byte c s1 ?a ?i = v"
    using release_publishes [OF co w x v pub] by blast
  obtain s2 where s2: "argo_release E c w s1 = Inr s2" "coherent c s2" "wrote_back c w {} s1 s2"
    using release_again [OF s1(2) w s1(3)] by blast
  have h2: "home_byte c s2 ?a ?i = v" using s2(3) s1(5) sp(1,3) by (simp add: wrote_back_def)
  have u2: "uncached s2 p" using l(2) uncached_wrote_back [OF s1(4)] uncached_wrote_back [OF s2(3)] by simp
  have o2: "no_own_write c s2 n ?a ?i"
    using n no_own_write_wrote_back [OF s1(4) n(1) sp(3)] no_own_write_wrote_back [OF s2(3) n(1) sp(3)] by simp
  have pj: "p + j < size_of_all c" using l(1) page_byte_less [of p j] by (auto simp: word_at_def)
  let ?t = "set_object c (p + j) ?w s2"
  have wl: "word_at p j (length ?w)" using l(1) by simp
  have "atomic_store E c w (gptr c (p + j)) ?w mo_release s1 = Inr ?t"
    using s2(1) atomic_store_relaxed [OF pj, of ?w w s2]
    by (simp add: atomic_store_def ordered_def backend_release_def word_size_def)
  then have "tas_unlock E c w (gptr c (p + j)) s = Inr ?t"
    using s1(1) by (simp add: tas_unlock_def backend_release_def)
  moreover have "coherent c ?t" "uncached ?t p" using set_object_coherent [OF s2(2) wl u2] by simp_all
  moreover have "home_byte c ?t ?a ?i = v" using set_object_home_byte [OF wl sp(1,3)] ne h2 by auto
  moreover have "lock_word c (p + j) ?t = w" using w few_nodes by (simp add: lock_word_def le_word)
  moreover have "no_own_write c ?t n ?a ?i" using o2 sp(3) by (simp add: no_own_write_def set_object_views)
  ultimately show ?thesis by blast
qed

lemma tas_try_lock_effect:
  assumes co: "coherent c s" and n: "n < numtasks c" and x: "x < size_of_all c"
    and l: "word_at p j 8" "uncached s p" and ne: "\<not> (page_of c x = p \<and> j \<le> x mod PAGE_SIZE c \<and> x mod PAGE_SIZE c < j + 8)"
    and lw: "lock_word c (p + j) s = w" "w < numtasks c" "n \<noteq> w"
    and own: "no_own_write c s n (page_of c x) (x mod PAGE_SIZE c)"
  shows "\<exists>t u. tas_try_lock E c n (gptr c (p + j)) s = Inr (True, t)
     \<and> read_byte E c n x t = Inr (Some (home_byte c s (page_of c x) (x mod PAGE_SIZE c)), u)"
proof -
  let ?a = "page_of c x" and ?i = "x mod PAGE_SIZE c" and ?l = "le_bytes 8 tas_locked"
  note sp = address_split [OF x]
  have wl: "word_at p j (length ?l)" using l(1) by simp
  let ?s = "set_object c (p + j) ?l s"
  have pj: "p + j < size_of_all c" using l(1) page_byte_less [of p j] by (auto simp: word_at_def)
  have cs: "coherent c ?s" by (rule set_object_coherent(1) [OF co wl l(2)])
  have o: "no_own_write c ?s n ?a ?i" using own sp(3) by (simp add: no_own_write_def set_object_views)
  obtain t u where t: "argo_acquire E c n ?s = Inr t" "read_byte E c n x t = Inr (Some (home_byte c ?s ?a ?i), u)"
    using acquire_reads_home [OF cs n x o] by blast
  have "home_byte c ?s ?a ?i = home_byte c s ?a ?i" using set_object_home_byte [OF wl sp(1,3)] ne by auto
  moreover have "tas_try_lock E c n (gptr c (p + j)) s = Inr (True, t)"
    using atomic_exchange_relaxed [OF pj, of ?l n s] t(1) lw few_nodes
    by (simp add: tas_try_lock_def word_size_def backend_acquire_def Let_def lock_word_def tas_locked_def tas_init_def)
  ultimately show ?thesis using t(2) by auto
qed

text \<open>With the lock free, one attempt of \<^verbatim>\<open>lock\<close> is enough.\<close>

lemma tas_lock_free:
  assumes co: "coherent c s" and n: "n < numtasks c" and l: "word_at p j 8" "uncached s p"
    and lw: "lock_word c (p + j) s \<noteq> tas_locked"
  shows "\<exists>t. tas_lock (Suc fuel) E c n (gptr c (p + j)) s = Inr (True, t) \<and> coherent c t"
proof -
  let ?l = "le_bytes 8 tas_locked"
  have wl: "word_at p j (length ?l)" using l(1) by simp
  let ?s = "set_object c (p + j) ?l s"
  have pj: "p + j < size_of_all c" using l(1) page_byte_less [of p j] by (auto simp: word_at_def)
  have cs: "coherent c ?s" by (rule set_object_coherent(1) [OF co wl l(2)])
  obtain t where t: "argo_acquire E c n ?s = Inr t" "coherent c t" using argo_acquire_effect [OF cs n] by (auto simp: invalidating_def)
  have "tas_try_lock E c n (gptr c (p + j)) s = Inr (True, ?s) \<or> tas_try_lock E c n (gptr c (p + j)) s = Inr (True, t)"
    using atomic_exchange_relaxed [OF pj, of ?l n s] t(1) lw
    by (simp add: tas_try_lock_def word_size_def backend_acquire_def Let_def lock_word_def)
  then show ?thesis using cs t(2) by auto
qed

end

section \<open>cohort\_lock.hpp\<close>

text \<open>
  The state of the lock object on one ArgoDSM node. It is only accessed by the thread that holds the
  local lock of its NUMA node. The three locks below it are used through their operations: a call gives
  the list of operations on them in the order of the code.
\<close>

record cohort_lock =
  has_global_lock :: bool
  numanodes :: int
  handovers :: "int \<Rightarrow> int"
  numahandover :: int
  nodelockowner :: int
  cohort_node :: int

datatype lock_action = Lock_local int | Unlock_local int | Lock_node | Unlock_node | Lock_global | Unlock_global

definition MAX_HANDOVER :: int where
  "MAX_HANDOVER = 8192"

definition MAX_HANDOVER_NODELOCK :: int where
  "MAX_HANDOVER_NODELOCK = 128"

definition NO_OWNER :: int where
  "NO_OWNER = -1"

definition numa_node :: int where
  "numa_node = 0"

text \<open>The constructor; \<open>n\<close> is the number of NUMA nodes, \<open>1\<close> without libnuma.\<close>

definition cohort_new :: "int \<Rightarrow> cohort_lock" where
  "cohort_new n = \<lparr>has_global_lock = False, numanodes = n, handovers = \<lambda>_. 0, numahandover = 0,
     nodelockowner = NO_OWNER, cohort_node = 0\<rparr>"

definition cohort_lock_op :: "cohort_lock \<Rightarrow> lock_action list \<times> cohort_lock" where
  "cohort_lock_op L =
     (let L = L\<lparr>cohort_node := numa_node\<rparr>; node = cohort_node L
      in if node \<noteq> nodelockowner L
         then let L = L\<lparr>nodelockowner := node\<rparr>
              in if \<not> has_global_lock L
                 then ([Lock_local node, Lock_node, Lock_global], L\<lparr>has_global_lock := True\<rparr>)
                 else ([Lock_local node, Lock_node], L)
         else ([Lock_local node], L))"

text \<open>
  \<open>local_contended\<close> and \<open>node_contended\<close> are what \<^verbatim>\<open>is_contended\<close> of the local lock and of the node
  lock return.
\<close>

definition cohort_unlock :: "bool \<Rightarrow> bool \<Rightarrow> cohort_lock \<Rightarrow> lock_action list \<times> cohort_lock" where
  "cohort_unlock local_contended node_contended L =
     (let node = cohort_node L
      in if local_contended \<and> handovers L node < MAX_HANDOVER
         then ([Unlock_local node], L\<lparr>handovers := (handovers L)(node := handovers L node + 1)\<rparr>)
         else let L = L\<lparr>handovers := (handovers L)(node := 0), nodelockowner := NO_OWNER\<rparr>
              in if node_contended \<and> numahandover L < MAX_HANDOVER_NODELOCK
                 then ([Unlock_node, Unlock_local node], L\<lparr>numahandover := numahandover L + 1\<rparr>)
                 else ([Unlock_global, Unlock_node, Unlock_local node],
                       L\<lparr>has_global_lock := False, numahandover := 0\<rparr>))"

text \<open>
  Between calls the node owns the node lock exactly when \<open>nodelockowner\<close> is its NUMA node, and then it
  has the global lock too; the counters stay in range.
\<close>

definition cohort_ok :: "cohort_lock \<Rightarrow> bool" where
  "cohort_ok L \<longleftrightarrow> (nodelockowner L = numa_node \<longrightarrow> has_global_lock L)
     \<and> nodelockowner L \<in> {NO_OWNER, numa_node}
     \<and> 0 \<le> handovers L numa_node \<and> handovers L numa_node \<le> MAX_HANDOVER
     \<and> 0 \<le> numahandover L \<and> numahandover L \<le> MAX_HANDOVER_NODELOCK"

text \<open>A thread enters and leaves the critical section; the contention it sees on leaving varies.\<close>

fun cohort_rounds :: "(bool \<times> bool) list \<Rightarrow> cohort_lock \<Rightarrow> lock_action list \<times> cohort_lock" where
  "cohort_rounds [] L = ([], L)"
| "cohort_rounds ((lc, nc) # cs) L =
     (let (a1, L1) = cohort_lock_op L; (a2, L2) = cohort_unlock lc nc L1; (a3, L3) = cohort_rounds cs L2
      in (a1 @ a2 @ a3, L3))"

text \<open>How many more rounds can pass before the global lock has to be released.\<close>

definition rounds_left :: "cohort_lock \<Rightarrow> int" where
  "rounds_left L = (MAX_HANDOVER_NODELOCK - numahandover L) * (MAX_HANDOVER + 1) + (MAX_HANDOVER - handovers L numa_node)"

lemmas cohort_defs = cohort_ok_def NO_OWNER_def numa_node_def MAX_HANDOVER_def MAX_HANDOVER_NODELOCK_def

lemma cohort_lock_holds:
  assumes "cohort_ok L" and "cohort_lock_op L = (a, L')"
  shows "cohort_ok L'" and "has_global_lock L'" and "nodelockowner L' = numa_node" and "cohort_node L' = numa_node"
    and "rounds_left L' = rounds_left L" and "Unlock_global \<notin> set a"
    and "has_global_lock L \<longleftrightarrow> Lock_global \<notin> set a"
  using assms by (auto simp: cohort_lock_op_def cohort_defs rounds_left_def Let_def split: if_splits)

lemma cohort_unlock_keeps:
  assumes "cohort_ok L" and "cohort_node L = numa_node" and "has_global_lock L" and "cohort_unlock lc nc L = (a, L')"
  shows "cohort_ok L'" and "Lock_global \<notin> set a" and "has_global_lock L' \<longleftrightarrow> Unlock_global \<notin> set a"
    and "Unlock_global \<notin> set a \<Longrightarrow> rounds_left L' < rounds_left L" and "0 \<le> rounds_left L"
  using assms by (auto simp: cohort_unlock_def cohort_defs rounds_left_def Let_def split: if_splits)

lemma cohort_round_bound:
  assumes "cohort_ok L" and "cohort_rounds cs L = (a, L')" and "Unlock_global \<notin> set a"
  shows "int (length cs) \<le> rounds_left L + 1"
  using assms
proof (induction cs arbitrary: L a L')
  case Nil
  then show ?case by (simp add: rounds_left_def cohort_defs)
next
  case (Cons ct cs)
  obtain lc nc where ct: "ct = (lc, nc)" by fastforce
  obtain a1 L1 where l: "cohort_lock_op L = (a1, L1)" by fastforce
  obtain a2 L2 where u: "cohort_unlock lc nc L1 = (a2, L2)" by fastforce
  obtain a3 L3 where r: "cohort_rounds cs L2 = (a3, L3)" by fastforce
  have ng: "Unlock_global \<notin> set a2" "Unlock_global \<notin> set a3" using Cons.prems(2,3) by (auto simp: ct l u r)
  note h = cohort_lock_holds [OF Cons.prems(1) l]
  note k = cohort_unlock_keeps [OF h(1,4,2) u]
  have "int (length cs) \<le> rounds_left L2 + 1" by (rule Cons.IH [OF k(1) r ng(2)])
  then show ?case using k(4) [OF ng(1)] h(5) by simp
qed

text \<open>Lock and unlock of the global lock alternate: the node takes it only when it does not have it.\<close>

fun alternates :: "bool \<Rightarrow> lock_action list \<Rightarrow> bool" where
  "alternates held [] = True"
| "alternates held (x # xs) =
     (if x = Lock_global then \<not> held \<and> alternates True xs
      else if x = Unlock_global then held \<and> alternates False xs
      else alternates held xs)"

lemma cohort_alternates:
  assumes "cohort_ok L" and "cohort_rounds cs L = (a, L')"
  shows "alternates (has_global_lock L) a"
  using assms
proof (induction cs arbitrary: L a L')
  case (Cons ct cs)
  obtain lc nc where ct: "ct = (lc, nc)" by fastforce
  obtain a1 L1 where l: "cohort_lock_op L = (a1, L1)" by fastforce
  obtain a2 L2 where u: "cohort_unlock lc nc L1 = (a2, L2)" by fastforce
  obtain a3 L3 where r: "cohort_rounds cs L2 = (a3, L3)" by fastforce
  note h = cohort_lock_holds [OF Cons.prems(1) l]
  have IH: "alternates (has_global_lock L2) a3" by (rule Cons.IH [OF cohort_unlock_keeps(1) [OF h(1,4,2) u] r])
  have "alternates True (a2 @ a3)"
    using u IH h(2) by (auto simp: cohort_unlock_def Let_def split: if_splits)
  then have "alternates (has_global_lock L) (a1 @ a2 @ a3)"
    using l Cons.prems(1) by (auto simp: cohort_lock_op_def Let_def cohort_defs split: if_splits)
  then show ?case using Cons.prems(2) by (simp add: ct l u r)
qed simp

lemma cohort_rounds_append:
  "cohort_rounds (xs @ ys) L = (a, M) \<Longrightarrow> cohort_rounds xs L = (a1, L1) \<Longrightarrow>
     \<exists>a2. cohort_rounds ys L1 = (a2, M) \<and> a = a1 @ a2"
  by (induction xs arbitrary: L a a1 L1) (fastforce simp: Let_def split: prod.splits)+

lemma cohort_rounds_ok:
  assumes "cohort_ok L" and "cohort_rounds cs L = (a, L')"
  shows "cohort_ok L'"
  using assms
proof (induction cs arbitrary: L a L')
  case (Cons ct cs)
  obtain lc nc where ct: "ct = (lc, nc)" by fastforce
  obtain a1 L1 where l: "cohort_lock_op L = (a1, L1)" by fastforce
  obtain a2 L2 where u: "cohort_unlock lc nc L1 = (a2, L2)" by fastforce
  obtain a3 L3 where r: "cohort_rounds cs L2 = (a3, L3)" by fastforce
  note h = cohort_lock_holds [OF Cons.prems(1) l]
  have "cohort_ok L3" by (rule Cons.IH [OF cohort_unlock_keeps(1) [OF h(1,4,2) u] r])
  then show ?case using Cons.prems(2) by (simp add: ct l u r)
qed simp

section \<open>Properties\<close>

text \<open>
  Claim C20. The cohort lock is fair to the other nodes: on a lock object in its initial state, whatever
  contention the threads see, the global lock is taken and released in turns, and among any
  \<open>129 * 8193\<close> rounds of \<^verbatim>\<open>lock\<close> and \<^verbatim>\<open>unlock\<close> on a node one releases it.
\<close>

theorem cohort_bounded_handover:
  assumes "cohort_rounds (before @ cs) (cohort_new n) = (a, L)"
    and "cohort_rounds before (cohort_new n) = (a1, L1)" and "length cs = 129 * 8193 + 1"
  shows "alternates False a \<and> (\<exists>a2. a = a1 @ a2 \<and> Unlock_global \<in> set a2)"
proof -
  have ok: "cohort_ok (cohort_new n)" by (simp add: cohort_new_def cohort_defs)
  obtain a2 where r: "cohort_rounds cs L1 = (a2, L)" "a = a1 @ a2"
    using cohort_rounds_append assms(1,2) by blast
  have ok1: "cohort_ok L1" by (rule cohort_rounds_ok [OF ok assms(2)])
  have "rounds_left L1 \<le> 128 * 8193 + 8192" using ok1 by (simp add: rounds_left_def cohort_defs)
  then have "Unlock_global \<in> set a2" using cohort_round_bound [OF ok1 r(1)] assms(3) by fastforce
  moreover have "alternates False a" using cohort_alternates [OF ok assms(1)] by (simp add: cohort_new_def)
  ultimately show ?thesis using r(2) by blast
qed

theorem cohort_bounded_handover_witness:
  "\<exists>a L a1 L1. cohort_rounds ([] @ replicate (129 * 8193 + 1) (True, True)) (cohort_new 1) = (a, L)
     \<and> alternates False a \<and> Unlock_global \<in> set a"
proof -
  obtain a L where r: "cohort_rounds ([] @ replicate (129 * 8193 + 1) (True, True)) (cohort_new 1) = (a, L)"
    by (metis surj_pair)
  from cohort_bounded_handover [OF r, of "[]" "cohort_new 1"] r show ?thesis by auto
qed

end
