(* ===== verification/Singlenode.thy ===== *)
theory Singlenode
  imports Global_Locks First_Touch
begin

text \<open>
  The backend for one node, \<^verbatim>\<open>src/backend/singlenode/singlenode.cpp\<close>: its state and start-up, the
  directory it prepares for the first-touch policy, the barrier for the threads of the node as a
  step relation, and the atomic operations, which copy bytes under a mutex. The global memory is a
  function from addresses to bytes. The barrier is proved to separate its rounds, and the atomic
  operations to compute what those of the MPI backend compute.
\<close>

section \<open>State and start-up\<close>

record singlenode =
  sn_memory :: nat
  sn_memory_size :: nat
  sn_space :: base_distribution
  sn_owners_dir :: "nat \<Rightarrow> nat"

definition my_node_id :: nat where
  "my_node_id = 0"

definition singlenode_nodes :: nat where
  "singlenode_nodes = 1"

text \<open>The loop that fills the directory; the entries of a page are home node, offset and owner.\<close>

definition fill_owners_dir :: "nat \<Rightarrow> (nat \<Rightarrow> nat) \<Rightarrow> nat \<Rightarrow> nat" where
  "fill_owners_dir sz dir =
     fold (\<lambda>j dir. dir(j := 0, j + 1 := mul64 (j div 3) granularity, j + 2 := 0))
       (c_range 0 (3 * (sz div granularity)) 3) dir"

text \<open>
  \<^verbatim>\<open>init\<close>, given the address that \<^verbatim>\<open>vm::allocate_mappable\<close> returned for the memory and the contents of the
  memory it returned for the directory.
\<close>

definition singlenode_init :: "nat \<Rightarrow> nat \<Rightarrow> nat \<Rightarrow> (nat \<Rightarrow> nat) \<Rightarrow> singlenode" where
  "singlenode_init pol argo_size mem dir =
     \<lparr>sn_memory = mem, sn_memory_size = argo_size, sn_space = set_memory_space singlenode_nodes mem argo_size,
      sn_owners_dir = (if is_first_touch_policy pol then fill_owners_dir argo_size dir else dir)\<rparr>"

definition singlenode_reset_coherence :: "nat \<Rightarrow> (nat \<Rightarrow> nat) \<Rightarrow> singlenode \<Rightarrow> singlenode" where
  "singlenode_reset_coherence pol dir s =
     (if is_first_touch_policy pol
      then s\<lparr>sn_owners_dir := fill_owners_dir (sn_memory_size s) dir\<rparr> else s)"

definition singlenode_load_local_owners_dir :: "nat \<Rightarrow> nat \<Rightarrow> singlenode \<Rightarrow> nat list" where
  "singlenode_load_local_owners_dir cnt disp s = slice disp cnt (sn_owners_dir s)"

section \<open>The barrier\<close>

text \<open>
  \<open>barrier_counter\<close> and \<open>barrier_flag\<close> with the places a thread can wait at: \<open>SB_last\<close> for the end
  of the previous round, \<open>SB_wait\<close> for the flag to be set and \<open>SB_leave\<close> for it to be cleared. All
  code between two waits runs under \<^verbatim>\<open>barrier_mutex\<close>; a waiting thread goes on when its condition holds,
  which is when it is notified, since every change of the flag is followed by \<^verbatim>\<open>notify_all\<close>. A step
  per wait allows more interleavings than the mutex does.
\<close>

datatype sb_pc = SB_out | SB_last | SB_wait | SB_leave

record sn_barrier =
  barrier_counter :: nat
  barrier_flag :: bool
  sb_pc :: "nat \<Rightarrow> sb_pc"

definition sb_init :: sn_barrier where
  "sb_init = \<lparr>barrier_counter = 0, barrier_flag = False, sb_pc = (\<lambda>_. SB_out)\<rparr>"

definition sb_enter :: "nat \<Rightarrow> nat \<Rightarrow> sn_barrier \<Rightarrow> sn_barrier" where
  "sb_enter threadcount t s =
     (let n = add64 (barrier_counter s) 1
      in s\<lparr>barrier_counter := n, sb_pc := (sb_pc s)(t := if n = threadcount then SB_last else SB_wait)\<rparr>)"

definition sb_open :: "nat \<Rightarrow> sn_barrier \<Rightarrow> sn_barrier" where
  "sb_open t s = s\<lparr>barrier_flag := True, sb_pc := (sb_pc s)(t := SB_wait)\<rparr>"

definition sb_pass :: "nat \<Rightarrow> sn_barrier \<Rightarrow> sn_barrier" where
  "sb_pass t s =
     (let n = sub64 (barrier_counter s) 1
      in s\<lparr>barrier_counter := n, barrier_flag := (if n = 0 then False else barrier_flag s),
           sb_pc := (sb_pc s)(t := SB_leave)\<rparr>)"

definition sb_return :: "nat \<Rightarrow> sn_barrier \<Rightarrow> sn_barrier" where
  "sb_return t s = s\<lparr>sb_pc := (sb_pc s)(t := SB_out)\<rparr>"

text \<open>
  The threads \<open>0..<n\<close> call \<^verbatim>\<open>barrier(n)\<close> again and again; \<open>E t\<close> and \<open>L t\<close> count the calls that thread
  \<open>t\<close> has made and the ones it has returned from.
\<close>

inductive sb_step ::
  "nat \<Rightarrow> sn_barrier \<times> (nat \<Rightarrow> nat) \<times> (nat \<Rightarrow> nat) \<Rightarrow> sn_barrier \<times> (nat \<Rightarrow> nat) \<times> (nat \<Rightarrow> nat) \<Rightarrow> bool" for n where
  enter: "t < n \<Longrightarrow> sb_pc s t = SB_out \<Longrightarrow> sb_step n (s, E, L) (sb_enter n t s, E(t := E t + 1), L)"
| opened: "t < n \<Longrightarrow> sb_pc s t = SB_last \<Longrightarrow> \<not> barrier_flag s \<Longrightarrow> sb_step n (s, E, L) (sb_open t s, E, L)"
| pass: "t < n \<Longrightarrow> sb_pc s t = SB_wait \<Longrightarrow> barrier_flag s \<Longrightarrow> sb_step n (s, E, L) (sb_pass t s, E, L)"
| return: "t < n \<Longrightarrow> sb_pc s t = SB_leave \<Longrightarrow> \<not> barrier_flag s \<Longrightarrow> sb_step n (s, E, L) (sb_return t s, E, L(t := L t + 1))"

inductive_cases sb_stepE: "sb_step n (s, E, L) st"

text \<open>The threads that are counted, and the invariant with the number \<open>r\<close> of finished rounds.\<close>

definition gathered :: "nat \<Rightarrow> sn_barrier \<Rightarrow> nat set" where
  "gathered n s = {t. t < n \<and> (sb_pc s t = SB_wait \<or> sb_pc s t = SB_last)}"

definition sb_inv :: "nat \<Rightarrow> nat \<Rightarrow> sn_barrier \<Rightarrow> (nat \<Rightarrow> nat) \<Rightarrow> (nat \<Rightarrow> nat) \<Rightarrow> bool" where
  "sb_inv n r s E L \<longleftrightarrow> barrier_counter s = card (gathered n s)
   \<and> (if barrier_flag s
      then gathered n s \<noteq> {} \<and> (\<forall>t < n. (sb_pc s t = SB_wait \<or> sb_pc s t = SB_leave) \<and> E t = r + 1 \<and> L t = r)
      else (gathered n s = {..<n} \<longleftrightarrow> (\<exists>t < n. sb_pc s t = SB_last))
        \<and> (\<forall>t < n. \<forall>u < n. sb_pc s t = SB_last \<and> sb_pc s u = SB_last \<longrightarrow> t = u)
        \<and> (\<forall>t < n. (case sb_pc s t of SB_out \<Rightarrow> E t = r \<and> L t = r | SB_leave \<Rightarrow> E t = r \<and> L t + 1 = r
                                    | _ \<Rightarrow> E t = r + 1 \<and> L t = r)))"

lemma sb_inv_gather:
  assumes "sb_inv n r s E L" and "\<not> barrier_flag s"
  shows "gathered n s = {..<n} \<longleftrightarrow> (\<exists>t < n. sb_pc s t = SB_last)"
    and "t < n \<Longrightarrow> u < n \<Longrightarrow> sb_pc s t = SB_last \<Longrightarrow> sb_pc s u = SB_last \<Longrightarrow> t = u"
    and "t < n \<Longrightarrow> sb_pc s t = SB_wait \<or> sb_pc s t = SB_last \<Longrightarrow> E t = r + 1 \<and> L t = r"
    and "t < n \<Longrightarrow> sb_pc s t = SB_out \<Longrightarrow> E t = r \<and> L t = r"
    and "t < n \<Longrightarrow> sb_pc s t = SB_leave \<Longrightarrow> E t = r \<and> L t + 1 = r"
proof -
  from assms have "gathered n s = {..<n} \<longleftrightarrow> (\<exists>t < n. sb_pc s t = SB_last)"
    and u: "\<forall>t < n. \<forall>u < n. sb_pc s t = SB_last \<and> sb_pc s u = SB_last \<longrightarrow> t = u"
    and c: "\<forall>t < n. (case sb_pc s t of SB_out \<Rightarrow> E t = r \<and> L t = r | SB_leave \<Rightarrow> E t = r \<and> L t + 1 = r
                                    | _ \<Rightarrow> E t = r + 1 \<and> L t = r)"
    unfolding sb_inv_def by simp_all
  then show "gathered n s = {..<n} \<longleftrightarrow> (\<exists>t < n. sb_pc s t = SB_last)"
    and "t < n \<Longrightarrow> u < n \<Longrightarrow> sb_pc s t = SB_last \<Longrightarrow> sb_pc s u = SB_last \<Longrightarrow> t = u" by blast+
  from c show "t < n \<Longrightarrow> sb_pc s t = SB_wait \<or> sb_pc s t = SB_last \<Longrightarrow> E t = r + 1 \<and> L t = r"
    and "t < n \<Longrightarrow> sb_pc s t = SB_out \<Longrightarrow> E t = r \<and> L t = r"
    and "t < n \<Longrightarrow> sb_pc s t = SB_leave \<Longrightarrow> E t = r \<and> L t + 1 = r"
    by auto
qed

lemma finite_gathered [simp]: "finite (gathered n s)"
  by (simp add: gathered_def)

lemma gathered_le: "gathered n s \<subseteq> {..<n}"
  by (auto simp: gathered_def)

lemma card_gathered: "card (gathered n s) \<le> n"
  using card_mono [OF _ gathered_le] by fastforce

lemma gathered_all: "card (gathered n s) = n \<longleftrightarrow> gathered n s = {..<n}"
  using card_subset_eq [OF _ gathered_le, of n s] by fastforce

lemma gathered_enter:
  assumes "t < n" and "sb_pc s t = SB_out"
  shows "gathered n (sb_enter n t s) = insert t (gathered n s)" and "t \<notin> gathered n s"
  using assms by (auto simp: gathered_def sb_enter_def Let_def)

lemma gathered_pass:
  assumes "t < n" and "sb_pc s t = SB_wait"
  shows "gathered n (sb_pass t s) = gathered n s - {t}" and "t \<in> gathered n s"
  using assms by (auto simp: gathered_def sb_pass_def Let_def)

lemma gathered_other:
  "t < n \<Longrightarrow> sb_pc s t = SB_last \<Longrightarrow> gathered n (sb_open t s) = gathered n s"
  "t < n \<Longrightarrow> sb_pc s t = SB_leave \<Longrightarrow> gathered n (sb_return t s) = gathered n s"
  by (auto simp: gathered_def sb_open_def sb_return_def)

lemma sb_enter_inv:
  assumes n: "n < 2 ^ 64" and i: "sb_inv n r s E L" and t: "t < n" "sb_pc s t = SB_out"
  shows "sb_inv n r (sb_enter n t s) (E(t := E t + 1)) L"
proof -
  note g = gathered_enter [OF t]
  have nf: "\<not> barrier_flag s" using i t unfolding sb_inv_def by (metis sb_pc.distinct(3,5))
  have c: "barrier_counter s = card (gathered n s)" using i by (simp add: sb_inv_def)
  have lt: "card (gathered n s) < n" using g t card_gathered [of n s] gathered_all [of n s] by fastforce
  then have nx: "add64 (barrier_counter s) 1 = card (gathered n (sb_enter n t s))" using c g n by (simp add: add64_id)
  have nl: "sb_pc s u \<noteq> SB_last" if "u < n" for u
    using i nf that lt gathered_all [of n s] by (auto simp: sb_inv_def)
  let ?last = "add64 (barrier_counter s) 1 = n"
  have l: "?last \<longleftrightarrow> gathered n (sb_enter n t s) = {..<n}" unfolding nx by (rule gathered_all)
  have pc: "sb_pc (sb_enter n t s) u = (if u = t then if ?last then SB_last else SB_wait else sb_pc s u)" for u
    by (simp add: sb_enter_def Let_def)
  show ?thesis
    using i nf nl t nx l unfolding sb_inv_def pc
    by (auto simp: sb_enter_def Let_def split: sb_pc.splits)
qed

lemma sb_open_inv:
  assumes i: "sb_inv n r s E L" and t: "t < n" "sb_pc s t = SB_last" and nf: "\<not> barrier_flag s"
  shows "sb_inv n r (sb_open t s) E L"
proof -
  note v = sb_inv_gather [OF i nf]
  have all: "gathered n s = {..<n}" using v(1) t by auto
  have "E u = r + 1 \<and> L u = r \<and> (u \<noteq> t \<longrightarrow> sb_pc s u = SB_wait)" if u: "u < n" for u
  proof -
    have "sb_pc s u = SB_wait \<or> sb_pc s u = SB_last" using all u by (auto simp: gathered_def)
    moreover have "u \<noteq> t \<Longrightarrow> sb_pc s u \<noteq> SB_last" using v(2) t u by blast
    ultimately show ?thesis using v(3) u by blast
  qed
  moreover have "gathered n s \<noteq> {}" using t by (auto simp: gathered_def)
  moreover have "barrier_counter s = card (gathered n s)" using i by (simp add: sb_inv_def)
  ultimately show ?thesis using gathered_other(1) [OF t] by (simp add: sb_inv_def sb_open_def)
qed

lemma sb_pass_inv:
  assumes n: "n < 2 ^ 64" and i: "sb_inv n r s E L" and t: "t < n" "sb_pc s t = SB_wait" and f: "barrier_flag s"
  shows "\<exists>r. sb_inv n r (sb_pass t s) E L"
proof -
  note g = gathered_pass [OF t]
  have c: "barrier_counter s = card (gathered n s)" and
    pc: "\<And>u. u < n \<Longrightarrow> (sb_pc s u = SB_wait \<or> sb_pc s u = SB_leave) \<and> E u = r + 1 \<and> L u = r"
    using i f by (simp_all add: sb_inv_def)
  have "0 < card (gathered n s)" using g(2) card_gt_0_iff by fastforce
  then have nx: "sub64 (barrier_counter s) 1 = card (gathered n (sb_pass t s))"
    using c g n card_gathered [of n s] by (simp add: sub64_id)
  have p: "sb_pc (sb_pass t s) u = (if u = t then SB_leave else sb_pc s u)" for u by (simp add: sb_pass_def Let_def)
  have cn: "barrier_counter (sb_pass t s) = card (gathered n (sb_pass t s))"
    and fl: "barrier_flag (sb_pass t s) \<longleftrightarrow> gathered n (sb_pass t s) \<noteq> {}"
    using nx f card_eq_0_iff [of "gathered n (sb_pass t s)"]
    by (simp_all add: sb_pass_def [of t s, THEN arg_cong, of barrier_counter] sb_pass_def [of t s, THEN arg_cong, of barrier_flag] Let_def)
  show ?thesis
  proof (cases "gathered n (sb_pass t s) = {}")
    case True
    have lv: "sb_pc (sb_pass t s) u = SB_leave" if "u < n" for u
      using True pc [OF that] that p [of u] by (auto simp: gathered_def)
    have "sb_inv n (r + 1) (sb_pass t s) E L"
      unfolding sb_inv_def using cn fl True lv pc t by auto
    then show ?thesis ..
  next
    case False
    have "sb_inv n r (sb_pass t s) E L" unfolding sb_inv_def using cn fl False p pc by auto
    then show ?thesis ..
  qed
qed

lemma sb_return_inv:
  assumes i: "sb_inv n r s E L" and t: "t < n" "sb_pc s t = SB_leave" and nf: "\<not> barrier_flag s"
  shows "sb_inv n r (sb_return t s) E (L(t := L t + 1))"
proof -
  have g: "gathered n (sb_return t s) = gathered n s" using gathered_other(2) [OF t] .
  have p: "sb_pc (sb_return t s) u = (if u = t then SB_out else sb_pc s u)"
    "barrier_flag (sb_return t s) = barrier_flag s" "barrier_counter (sb_return t s) = barrier_counter s" for u
    by (simp_all add: sb_return_def)
  have ex: "(\<exists>u < n. sb_pc (sb_return t s) u = SB_last) \<longleftrightarrow> (\<exists>u < n. sb_pc s u = SB_last)"
    unfolding p using t(2) by (metis sb_pc.distinct)
  show ?thesis using i nf t unfolding sb_inv_def g ex unfolding p by (auto split: sb_pc.splits)
qed

lemma sb_steps_inv:
  assumes "(sb_step n)\<^sup>*\<^sup>* (sb_init, \<lambda>_. 0, \<lambda>_. 0) st" and "0 < n" and "n < 2 ^ 64"
  shows "\<exists>r. case st of (s, E, L) \<Rightarrow> sb_inv n r s E L"
  using assms(1)
proof (induction rule: rtranclp_induct)
  case base
  have "gathered n sb_init = {}" by (auto simp: gathered_def sb_init_def)
  then have "sb_inv n 0 sb_init (\<lambda>_. 0) (\<lambda>_. 0)" using assms(2) by (auto simp: sb_inv_def sb_init_def)
  then show ?case by auto
next
  case (step st st')
  obtain s E L where st: "st = (s, E, L)" by (metis prod_cases3)
  with step.IH obtain r where i: "sb_inv n r s E L" by auto
  from step.hyps(2) show ?case unfolding st
    by (elim sb_stepE)
      (use sb_enter_inv [OF assms(3) i] sb_open_inv [OF i] sb_pass_inv [OF assms(3) i] sb_return_inv [OF i] in auto)
qed

section \<open>The prepared first-touch directory\<close>

lemma fill_owners_dir_entries:
  assumes "p < sz div granularity" and "sz < 2 ^ 62"
  shows "fill_owners_dir sz dir (3 * p) = 0" and "fill_owners_dir sz dir (3 * p + 1) = p * granularity"
    and "fill_owners_dir sz dir (3 * p + 2) = 0"
proof -
  let ?f = "\<lambda>j dir. dir(j := 0, j + 1 := mul64 (j div 3) granularity, j + 2 := 0)"
  have r: "c_range 0 (3 * m) 3 = map (\<lambda>k. k * 3) [0..<m]" for m proof -
    have "(3 * m + 3 - 1) div 3 = m" by (intro div_nat_eqI) simp_all
    then show ?thesis by (simp add: c_range_def)
  qed
  have "fold ?f (map (\<lambda>k. k * 3) [0..<m]) dir (3 * p) = 0
      \<and> fold ?f (map (\<lambda>k. k * 3) [0..<m]) dir (3 * p + 1) = mul64 p granularity
      \<and> fold ?f (map (\<lambda>k. k * 3) [0..<m]) dir (3 * p + 2) = 0" if "p < m" for m
    using that
  proof (induction m)
    case (Suc m)
    show ?case
    proof (cases "p = m")
      case False
      then have "p < m" "3 * p + 2 < m * 3" using Suc.prems by simp_all
      then show ?thesis using Suc.IH by simp
    qed (simp add: mult.commute)
  qed simp
  note this [OF assms(1)]
  moreover have "p * granularity < 2 ^ 64"
  proof -
    have "p * granularity \<le> sz div granularity * granularity" using assms(1) by (intro mult_le_mono1) simp
    also have "\<dots> \<le> sz" by simp
    finally show ?thesis using assms(2) by simp
  qed
  ultimately show "fill_owners_dir sz dir (3 * p) = 0" "fill_owners_dir sz dir (3 * p + 1) = p * granularity"
    "fill_owners_dir sz dir (3 * p + 2) = 0"
    by (simp_all add: fill_owners_dir_def r mul64_id)
qed

section \<open>Atomic operations\<close>

text \<open>
  An object is a run of bytes at an address; \<^verbatim>\<open>atomic_op_mutex\<close> makes every operation atomic. The
  addition of floating point numbers is an argument.
\<close>

type_synonym memory = "nat \<Rightarrow> byte"

definition sn_exchange :: "nat \<Rightarrow> byte list \<Rightarrow> nat \<Rightarrow> memory \<Rightarrow> byte list \<times> memory" where
  "sn_exchange obj desired sz m = (slice obj sz m, splice (take sz desired) obj m)"

definition sn_store :: "nat \<Rightarrow> byte list \<Rightarrow> nat \<Rightarrow> memory \<Rightarrow> memory" where
  "sn_store obj desired sz m = splice (take sz desired) obj m"

definition sn_load :: "nat \<Rightarrow> nat \<Rightarrow> memory \<Rightarrow> byte list" where
  "sn_load obj sz m = slice obj sz m"

definition sn_compare_exchange :: "nat \<Rightarrow> byte list \<Rightarrow> nat \<Rightarrow> byte list \<Rightarrow> memory \<Rightarrow> byte list \<times> memory" where
  "sn_compare_exchange obj desired sz expected m =
     (slice obj sz m,
      if slice obj sz m = take sz expected then splice (take sz desired) obj m else m)"

text \<open>
  \<^verbatim>\<open>*ptr += *val\<close> on signed integers: one and two bytes are added as \<^verbatim>\<open>int\<close> and cut back; on four and
  eight bytes an overflow is undefined.
\<close>

definition signed_val :: "byte list \<Rightarrow> int" where
  "signed_val bs = (if 2 * le_val bs < 256 ^ length bs then int (le_val bs) else int (le_val bs) - 256 ^ length bs)"

definition signed_fits :: "nat \<Rightarrow> int \<Rightarrow> bool" where
  "signed_fits k i \<longleftrightarrow> - (256 ^ k) \<le> 2 * i \<and> 2 * i < 256 ^ k"

definition sn_fetch_add_int :: "nat \<Rightarrow> byte list \<Rightarrow> nat \<Rightarrow> memory \<Rightarrow> argo_error + byte list \<times> memory" where
  "sn_fetch_add_int obj val sz m =
     (let out = slice obj sz m
      in if sz = 1 \<or> sz = 2 \<or> sz = 4 \<or> sz = 8
         then if (sz = 4 \<or> sz = 8) \<and> \<not> signed_fits sz (signed_val out + signed_val val)
              then Inl (Undefined_behaviour ''signed integer overflow'')
              else Inr (out, splice (le_add 0 out val) obj m)
         else Inl (Invalid_argument ''Invalid size (must be power either 1, 2, 4 or 8)''))"

definition sn_fetch_add_uint :: "nat \<Rightarrow> byte list \<Rightarrow> nat \<Rightarrow> memory \<Rightarrow> argo_error + byte list \<times> memory" where
  "sn_fetch_add_uint obj val sz m =
     (let out = slice obj sz m
      in if sz = 1 \<or> sz = 2 \<or> sz = 4 \<or> sz = 8
         then Inr (out, splice (le_add 0 out val) obj m)
         else Inl (Invalid_argument ''Invalid size (must be power either 1, 2, 4 or 8)''))"

definition sn_fetch_add_float ::
  "(byte list \<Rightarrow> byte list \<Rightarrow> byte list) \<Rightarrow> nat \<Rightarrow> byte list \<Rightarrow> nat \<Rightarrow> memory \<Rightarrow> argo_error + byte list \<times> memory" where
  "sn_fetch_add_float fadd obj val sz m =
     (let out = slice obj sz m
      in if sz = 4 \<or> sz = 8 \<or> sz = 16
         then Inr (out, splice (fadd out val) obj m)
         else Inl (Invalid_argument ''Invalid size (must be power either 1, 2, 4 or 8)''))"

section \<open>The two backends compute the same\<close>

text \<open>The global memory of a cluster as one function of the address: the bytes at their home nodes.\<close>

definition flat :: "swdsm_config \<Rightarrow> cluster \<Rightarrow> memory" where
  "flat c s = (\<lambda>a. if startAddr c \<le> a \<and> a < startAddr c + size_of_all c
                   then home_byte c s (page_of c (a - startAddr c)) ((a - startAddr c) mod PAGE_SIZE c) else 0)"

context dsm
begin

lemma word_in_space:
  assumes "word_at p j k" and "i < k"
  shows "p + j + i < size_of_all c" and "page_of c (p + j + i) = p" and "(p + j + i) mod PAGE_SIZE c = j + i"
proof -
  have p: "is_page c p" "j + i < PAGE_SIZE c" using assms by (auto simp: word_at_def)
  then show "p + j + i < size_of_all c" "page_of c (p + j + i) = p" "(p + j + i) mod PAGE_SIZE c = j + i"
    using page_byte_less [OF p] page_split [of "PAGE_SIZE c" p "j + i"]
    by (simp_all add: is_page_def align_backwards_def cacheline add.assoc)
qed

lemma flat_word:
  assumes w: "word_at p j k"
  shows "slice (startAddr c + (p + j)) k (flat c s) = object_bytes c (p + j) k s"
proof (rule nth_equalityI)
  have p: "is_page c p" "j < PAGE_SIZE c" using w by (auto simp: word_at_def)
  fix i assume "i < length (slice (startAddr c + (p + j)) k (flat c s))"
  then have i: "i < k" by simp
  note x = word_in_space [OF w i]
  show "slice (startAddr c + (p + j)) k (flat c s) ! i = object_bytes c (p + j) k s ! i"
    using i x page_home [OF p] page_off [OF p]
    by (simp add: flat_def object_bytes_def home_byte_def add.assoc)
qed simp

lemma flat_set_object:
  assumes w: "word_at p j (length v)"
  shows "flat c (set_object c (p + j) v s) = splice v (startAddr c + (p + j)) (flat c s)"
proof
  fix a
  let ?b = "a - startAddr c" and ?A = "startAddr c"
  show "flat c (set_object c (p + j) v s) a = splice v (?A + (p + j)) (flat c s) a"
  proof (cases "?A \<le> a \<and> a < ?A + size_of_all c")
    case True
    then have b: "?b < size_of_all c" by auto
    note pb = page_of_address [OF b] page_mod [OF b]
    have pg: "is_page c (page_of c ?b)" "?b mod PAGE_SIZE c < PAGE_SIZE c" using pb page_pos by simp_all
    have eq: "page_of c ?b = p \<and> j \<le> ?b mod PAGE_SIZE c \<and> ?b mod PAGE_SIZE c < j + length v
        \<longleftrightarrow> ?A + (p + j) \<le> a \<and> a < ?A + (p + j) + length v" (is "?l \<longleftrightarrow> ?r")
    proof
      assume ?l
      then show ?r using pb True by linarith
    next
      assume ?r
      then have "?b - (p + j) < length v" "?b = p + j + (?b - (p + j))" by linarith+
      then show ?l using word_in_space(2,3) [OF w, of "?b - (p + j)"] by simp
    qed
    have ix: "?b mod PAGE_SIZE c - j = a - (?A + (p + j))" if ?l using that pb by linarith
    show ?thesis
      using set_object_home_byte [OF w pg, of s] True eq ix by (auto simp: flat_def splice_def)
  next
    case False
    have "p + j + length v \<le> size_of_all c"
      using word_in_space(1) [OF w, of "length v - 1"] w by (simp add: word_at_def)
    then show ?thesis using False by (auto simp: flat_def splice_def)
  qed
qed

lemma atomic_fetch_add_bytes:
  assumes "x < size_of_all c" and "word_size (length v)" and "T = Unsigned_int \<or> T = Signed_int"
  shows "atomic_fetch_add E c r T (gptr c x) v mo_relaxed s =
     Inr (object_bytes c x (length v) s, set_object c x (le_add 0 (object_bytes c x (length v) s) v) s)"
proof -
  let ?o = "object_bytes c x (length v) s"
  obtain bs where bs: "atomic_fetch_add E c r T (gptr c x) v mo_relaxed s = Inr (?o, set_object c x bs s)"
      "length bs = length v" "le_val bs = (le_val ?o + le_val v) mod 256 ^ length v"
    using atomic_fetch_add_relaxed [OF assms] by blast
  have "le_val bs = le_val (le_add 0 ?o v)" using bs(3) le_val_add [of ?o v 0] by simp
  then have "bs = le_add 0 ?o v" using le_bytes_val [of bs] le_bytes_val [of "le_add 0 ?o v"] bs(2) by simp
  then show ?thesis using bs(1) by simp
qed

end

section \<open>Properties\<close>

text \<open>
  Claim C40. The barrier of the single-node backend separates its rounds. When the threads \<open>0..<n\<close> call
  \<^verbatim>\<open>barrier(n)\<close> again and again, in any interleaving, a thread returns from its \<open>k\<close>-th call only after
  every thread has made its \<open>k\<close>-th call, and once all threads are inside a call one of them can go on.
\<close>

theorem singlenode_barrier_rounds:
  assumes "(sb_step n)\<^sup>*\<^sup>* (sb_init, \<lambda>_. 0, \<lambda>_. 0) (s, E, L)" and "0 < n" and "n < 2 ^ 64"
  shows "(\<forall>t u. t < n \<and> u < n \<longrightarrow> L t \<le> E u)
     \<and> ((\<forall>t < n. sb_pc s t \<noteq> SB_out) \<longrightarrow> (\<exists>s' L'. sb_step n (s, E, L) (s', E, L')))"
proof -
  obtain r where i: "sb_inv n r s E L" using sb_steps_inv [OF assms] by auto
  have "L t \<le> r \<and> r \<le> E t" if "t < n" for t
  proof (cases "barrier_flag s")
    case False
    note v = sb_inv_gather [OF i False]
    show ?thesis using v(3-5) [OF that] by (cases "sb_pc s t") auto
  qed (use i that in \<open>simp add: sb_inv_def\<close>)
  then have "L t \<le> E u" if "t < n" "u < n" for t u using that order_trans by blast
  moreover have "\<exists>s' L'. sb_step n (s, E, L) (s', E, L')" if all: "\<forall>t < n. sb_pc s t \<noteq> SB_out"
  proof (cases "barrier_flag s")
    case True
    then have "gathered n s \<noteq> {}" "\<And>t. t < n \<Longrightarrow> sb_pc s t \<noteq> SB_last" using i by (auto simp: sb_inv_def)
    then obtain t where "t < n" "sb_pc s t = SB_wait" by (auto simp: gathered_def)
    then show ?thesis using True sb_step.pass by blast
  next
    case False
    show ?thesis
    proof (cases "\<exists>t < n. sb_pc s t = SB_leave")
      case True
      then show ?thesis using False sb_step.return by blast
    next
      case no: False
      have "sb_pc s t = SB_wait \<or> sb_pc s t = SB_last" if "t < n" for t
        using all no that by (cases "sb_pc s t") auto
      then have "gathered n s = {..<n}" by (auto simp: gathered_def)
      then obtain t where "t < n" "sb_pc s t = SB_last" using sb_inv_gather(1) [OF i False] by auto
      then show ?thesis using False sb_step.opened by blast
    qed
  qed
  ultimately show ?thesis by blast
qed

theorem singlenode_barrier_rounds_witness:
  "\<exists>s E L. (sb_step 1)\<^sup>*\<^sup>* (sb_init, \<lambda>_. 0, \<lambda>_. 0) (s, E, L) \<and> L 0 = 1 \<and> (L 0 :: nat) \<le> E 0"
proof -
  let ?s1 = "sb_enter 1 0 sb_init" and ?E = "(\<lambda>_ :: nat. 0 :: nat)(0 := 0 + 1)"
  let ?s2 = "sb_open 0 ?s1"
  let ?s3 = "sb_pass 0 ?s2"
  have "sb_step 1 (sb_init, \<lambda>_. 0, \<lambda>_. 0) (?s1, ?E, \<lambda>_. 0)" by (rule sb_step.enter) (simp_all add: sb_init_def)
  moreover have "sb_step 1 (?s1, ?E, \<lambda>_. 0) (?s2, ?E, \<lambda>_. 0)"
    by (rule sb_step.opened) (simp_all add: sb_init_def sb_enter_def add64_def wrap64_def)
  moreover have "sb_step 1 (?s2, ?E, \<lambda>_. 0) (?s3, ?E, \<lambda>_. 0)" by (rule sb_step.pass) (simp_all add: sb_open_def)
  moreover have "sb_step 1 (?s3, ?E, \<lambda>_. 0) (sb_return 0 ?s3, ?E, (\<lambda>_. 0)(0 := 0 + 1))"
    by (rule sb_step.return) (simp_all add: sb_pass_def sb_open_def sb_enter_def sb_init_def add64_def sub64_def wrap64_def)
  ultimately have "(sb_step 1)\<^sup>*\<^sup>* (sb_init, \<lambda>_. 0, \<lambda>_. 0) (sb_return 0 ?s3, ?E, (\<lambda>_. 0)(0 := 0 + 1))"
    by (meson converse_rtranclp_into_rtranclp r_into_rtranclp)
  with singlenode_barrier_rounds [OF this] show ?thesis by (metis fun_upd_same add_0 less_one one_less_numeral_iff
        one_less_power semiring_norm(76) zero_less_numeral zero_less_one)
qed

text \<open>
  With the first-touch policy the single-node backend finds every page in the directory it has
  prepared: \<^verbatim>\<open>homenode\<close> and \<^verbatim>\<open>local_offset\<close> return after one load each, the node is 0, the offset is the
  position in the memory, and none of the directory functions that this backend leaves empty is
  called, for the directory stays as it is.
\<close>

lemma singlenode_first_touch:
  assumes "mpi_rma M" and "granularity dvd sz" and "mem + sz < 2 ^ 62" and "x < sz"
    and "s = singlenode_init (policy_number first_touch) sz mem dir" and "owners_dir d my_node_id = sn_owners_dir s"
  shows "ft_run M (sn_space s) Homenode my_node_id (mem + x) 2 FT_local d = Inr (FT_done (Inr my_node_id), d)
     \<and> ft_run M (sn_space s) Local_offset my_node_id (mem + x) 2 FT_local d = Inr (FT_done (Inr x), d)"
proof -
  let ?D = "sn_space s"
  have D: "?D = \<lparr>nodes = 1, start_address = mem, total_size = sz, size_per_node = sz\<rparr>"
    by (simp add: assms(5) singlenode_init_def set_memory_space_def singlenode_nodes_def)
  have sp: "ft_space ?D" using assms(2-4) by (simp add: D ft_space_def)
  have pg: "page ?D (mem + x) = x div granularity" and dr: "page_drift ?D (mem + x) = x mod granularity"
    using assms(3,4) by (simp_all add: page_def page_drift_def D sub64_add_left)
  have lt: "x div granularity < sz div granularity"
    using ft_page_less [OF sp, of x] assms(4) pg by (simp add: D pages_def)
  have nl: "global_null ?D = sz + 1" using ft_space_null(1) [OF sp] by (simp add: D)
  have od: "owners_dir d my_node_id = fill_owners_dir sz dir"
    using assms(5,6) by (simp add: singlenode_init_def is_first_touch_policy_def)
  have e: "entry d my_node_id (page ?D (mem + x)) = (0, x div granularity * granularity, 0)"
    using fill_owners_dir_entries [OF lt, of dir] assms(3) by (simp add: entry_def pg od)
  have ne: "wrap32 0 \<noteq> wrap32 (global_null ?D)"
  proof
    assume "wrap32 0 = wrap32 (global_null ?D)"
    then have "(sz + 1) mod 2 ^ 32 = 0" by (simp add: wrap32_def nl)
    then have "(2 :: nat) dvd sz + 1" by (meson dvd_trans mod_0_imp_dvd dvd_power zero_less_numeral)
    moreover have "2 dvd sz" using assms(2) by (rule dvd_trans [rotated]) (simp add: granularity_def)
    ultimately show False by presburger
  qed
  have w: "wrap32 0 = 0" by (simp add: wrap32_def)
  have q: "x div granularity * granularity + x mod granularity = x" by simp
  have "x div granularity * granularity \<le> x" by simp
  then have qn: "x div granularity * granularity \<noteq> sz + 1" using assms(4) by linarith
  note st = mpi_rma.step_local [OF assms(1) e] mpi_rma.step_spin [OF assms(1) e]
  have "add64 (x div granularity * granularity) (x mod granularity) = x" using q assms(3,4) by (simp add: add64_id)
  moreover have "check_home ?D 0 = Inr 0" "check_offset ?D x = Inr x"
    using assms(4) by (simp_all add: D check_home_def check_offset_def)
  ultimately show ?thesis using ne w qn unfolding my_node_id_def
    by (simp add: eval_nat_numeral st [unfolded my_node_id_def] nl dr)
qed

end
