(* ===== verification/Barrier_Threads.thy ===== *)
theory Barrier_Threads
  imports Coherence_Main
begin

text \<open>
  The barrier of the MPI backend as its threads run it. \<^verbatim>\<open>swdsm_argo_barrier\<close> is called by \<open>n\<close> threads on each
  node; a POSIX barrier gathers them, a mutex picks the one that flushes, meets the other nodes and
  invalidates, and a second POSIX barrier lets all go. Threads that are outside a call run the
  application. The rounds are shown to be separated across the whole cluster, with the flushes of
  all nodes before the invalidation of any.
\<close>

section \<open>The threads of a node\<close>

text \<open>
  Where a thread is: outside, in the first \<^verbatim>\<open>pthread_barrier_wait\<close>, at \<^verbatim>\<open>pthread_mutex_trylock\<close>; the thread that got
  \<^verbatim>\<open>barriermutex\<close> before its flush, in the first \<^verbatim>\<open>MPI_Barrier\<close>, before \<^verbatim>\<open>self_invalidation\<close>, before \<^verbatim>\<open>self_upgrade\<close>, in the
  second \<^verbatim>\<open>MPI_Barrier\<close>, in the second \<^verbatim>\<open>pthread_barrier_wait\<close> and before \<^verbatim>\<open>pthread_mutex_unlock\<close>; the other
  threads in the second \<^verbatim>\<open>pthread_barrier_wait\<close>.
\<close>

datatype bar_pc = B_out | B_wait1 | B_try | B_flush | B_mpi1 | B_inv | B_up | B_mpi2 | B_wait2w | B_unlock | B_wait2

text \<open>
  The two shared variables of a node, and counters of what has happened: calls and returns of each thread,
  flushes, invalidations and calls of \<^verbatim>\<open>MPI_Barrier\<close> of the node.
\<close>

record bar_node =
  bpc :: "nat \<Rightarrow> bar_pc"
  barriermutex :: bool
  calls :: "nat \<Rightarrow> nat"
  returns :: "nat \<Rightarrow> nat"
  flushes :: nat
  invalidations :: nat
  meetings :: nat

definition bar_init :: bar_node where
  "bar_init = \<lparr>bpc = (\<lambda>_. B_out), barriermutex = False, calls = (\<lambda>_. 0), returns = (\<lambda>_. 0),
     flushes = 0, invalidations = 0, meetings = 0\<rparr>"

definition goto :: "nat \<Rightarrow> bar_pc \<Rightarrow> bar_node \<Rightarrow> bar_node" where
  "goto t pc b = b\<lparr>bpc := (bpc b)(t := pc)\<rparr>"

definition bar_call :: "nat \<Rightarrow> bar_node \<Rightarrow> bar_node" where
  "bar_call t b = (goto t B_wait1 b)\<lparr>calls := (calls b)(t := calls b t + 1)\<rparr>"

definition bar_return :: "nat \<Rightarrow> bar_node \<Rightarrow> bar_node" where
  "bar_return t b = (goto t B_out b)\<lparr>returns := (returns b)(t := returns b t + 1)\<rparr>"

text \<open>\<^verbatim>\<open>pthread_barrier_wait\<close> lets all threads go when the last one has arrived.\<close>

definition bar_gathered :: "nat \<Rightarrow> bar_pc set \<Rightarrow> bar_node \<Rightarrow> bool" where
  "bar_gathered n pcs b \<longleftrightarrow> (\<forall>t < n. bpc b t \<in> pcs)"

definition bar_release1 :: "nat \<Rightarrow> bar_node \<Rightarrow> bar_node" where
  "bar_release1 n b = b\<lparr>bpc := (\<lambda>t. if t < n then B_try else bpc b t)\<rparr>"

definition bar_release2 :: "nat \<Rightarrow> bar_node \<Rightarrow> bar_node" where
  "bar_release2 n b =
     b\<lparr>bpc := (\<lambda>t. if t < n then (if bpc b t = B_wait2w then B_unlock else B_out) else bpc b t),
       returns := (\<lambda>t. if t < n \<and> bpc b t \<noteq> B_wait2w then returns b t + 1 else returns b t)\<rparr>"

definition bar_trylock :: "nat \<Rightarrow> bar_node \<Rightarrow> bar_node" where
  "bar_trylock t b = (if barriermutex b then goto t B_wait2 b else (goto t B_flush b)\<lparr>barriermutex := True\<rparr>)"

definition bar_unlock :: "nat \<Rightarrow> bar_node \<Rightarrow> bar_node" where
  "bar_unlock t b = (bar_return t b)\<lparr>barriermutex := False\<rparr>"

text \<open>\<^verbatim>\<open>MPI_Barrier\<close>: every node has a thread in a call, and these calls return.\<close>

definition at_mpi :: "nat \<Rightarrow> bar_node \<Rightarrow> bool" where
  "at_mpi n b \<longleftrightarrow> (\<exists>t < n. bpc b t = B_mpi1 \<or> bpc b t = B_mpi2)"

definition bar_meet :: "bar_node \<Rightarrow> bar_node" where
  "bar_meet b = b\<lparr>bpc := (\<lambda>t. case bpc b t of B_mpi1 \<Rightarrow> B_inv | B_mpi2 \<Rightarrow> B_wait2w | pc \<Rightarrow> pc), meetings := meetings b + 1\<rparr>"

definition pass_barrier :: "nat \<Rightarrow> cluster \<Rightarrow> cluster" where
  "pass_barrier r = upd r (\<lambda>nd. nd\<lparr>barriers := add64 (barriers nd) 1\<rparr>)"

section \<open>The steps of the cluster\<close>

text \<open>What a thread of node \<open>r\<close> does to the memory outside a barrier.\<close>

inductive node_op :: "ext \<Rightarrow> swdsm_config \<Rightarrow> nat \<Rightarrow> cluster \<Rightarrow> cluster \<Rightarrow> bool" for E c r where
  fault: "x < size_of_all c \<Longrightarrow> (mt = read_access \<longrightarrow> vprot (s r) (page_of c x) = PROT_NONE) \<Longrightarrow>
    handler E c r x mt s = Inr t \<Longrightarrow> node_op E c r s t"
| store: "x < size_of_all c \<Longrightarrow> store_byte c r x v s = Some t \<Longrightarrow> node_op E c r s t"
| acquire: "argo_acquire E c r s = Inr t \<Longrightarrow> node_op E c r s t"
| release: "argo_release E c r s = Inr t \<Longrightarrow> node_op E c r s t"

lemma node_op_step: "node_op E c r s t \<Longrightarrow> r < numtasks c \<Longrightarrow> dsm_step E c s t"
  by (induction rule: node_op.induct) (auto intro: dsm_step.intros)

type_synonym bar_state = "cluster \<times> (nat \<Rightarrow> bar_node)"

inductive bar_step :: "ext \<Rightarrow> swdsm_config \<Rightarrow> nat \<Rightarrow> upgrade_type \<Rightarrow> bar_state \<Rightarrow> bar_state \<Rightarrow> bool" for E c n upgrade where
  application: "r < numtasks c \<Longrightarrow> t < n \<Longrightarrow> bpc (b r) t = B_out \<Longrightarrow> node_op E c r m m' \<Longrightarrow> bar_step E c n upgrade (m, b) (m', b)"
| call: "r < numtasks c \<Longrightarrow> t < n \<Longrightarrow> bpc (b r) t = B_out \<Longrightarrow> bar_step E c n upgrade (m, b) (m, b(r := bar_call t (b r)))"
| gather1: "r < numtasks c \<Longrightarrow> bar_gathered n {B_wait1} (b r) \<Longrightarrow> bar_step E c n upgrade (m, b) (m, b(r := bar_release1 n (b r)))"
| single: "numtasks c = 1 \<Longrightarrow> r < numtasks c \<Longrightarrow> t < n \<Longrightarrow> bpc (b r) t = B_try \<Longrightarrow>
    bar_step E c n upgrade (m, b) (pass_barrier r m, b(r := bar_return t (b r)))"
| trylock: "numtasks c \<noteq> 1 \<Longrightarrow> r < numtasks c \<Longrightarrow> t < n \<Longrightarrow> bpc (b r) t = B_try \<Longrightarrow>
    bar_step E c n upgrade (m, b) (m, b(r := bar_trylock t (b r)))"
| flush: "r < numtasks c \<Longrightarrow> t < n \<Longrightarrow> bpc (b r) t = B_flush \<Longrightarrow> wb_flush E c r m = Inr m' \<Longrightarrow>
    bar_step E c n upgrade (m, b) (m', b(r := (goto t B_mpi1 (b r))\<lparr>flushes := flushes (b r) + 1\<rparr>))"
| meet: "\<forall>r < numtasks c. at_mpi n (b r) \<Longrightarrow>
    bar_step E c n upgrade (m, b) (m, \<lambda>r. if r < numtasks c then bar_meet (b r) else b r)"
| invalidate: "r < numtasks c \<Longrightarrow> t < n \<Longrightarrow> bpc (b r) t = B_inv \<Longrightarrow> self_invalidation E c r m = Inr m' \<Longrightarrow>
    bar_step E c n upgrade (m, b)
      (m', b(r := (goto t (if upgrade = upgrade_none then B_wait2w else B_up) (b r))\<lparr>invalidations := invalidations (b r) + 1\<rparr>))"
| upgrade: "r < numtasks c \<Longrightarrow> t < n \<Longrightarrow> bpc (b r) t = B_up \<Longrightarrow> self_upgrade c upgrade r m = Inr m' \<Longrightarrow>
    bar_step E c n upgrade (m, b) (m', b(r := goto t B_mpi2 (b r)))"
| gather2: "r < numtasks c \<Longrightarrow> bar_gathered n {B_wait2, B_wait2w} (b r) \<Longrightarrow>
    bar_step E c n upgrade (m, b) (m, b(r := bar_release2 n (b r)))"
| unlock: "r < numtasks c \<Longrightarrow> t < n \<Longrightarrow> bpc (b r) t = B_unlock \<Longrightarrow>
    bar_step E c n upgrade (m, b) (pass_barrier r m, b(r := bar_unlock t (b r)))"

section \<open>The invariant of a node\<close>

text \<open>Between two rounds: \<open>a\<close> rounds are over, but for the thread that still holds the mutex.\<close>

definition gathering :: "nat \<Rightarrow> nat \<Rightarrow> nat \<Rightarrow> bar_node \<Rightarrow> bool" where
  "gathering n U a b \<longleftrightarrow>
     (\<forall>t < n. bpc b t = B_out \<and> calls b t = a \<and> returns b t = a
            \<or> bpc b t = B_wait1 \<and> calls b t = a + 1 \<and> returns b t = a
            \<or> bpc b t = B_unlock \<and> calls b t = a \<and> returns b t + 1 = a)
   \<and> (barriermutex b \<longleftrightarrow> (\<exists>t < n. bpc b t = B_unlock))
   \<and> (\<forall>t < n. \<forall>u < n. bpc b t = B_unlock \<and> bpc b u = B_unlock \<longrightarrow> t = u)
   \<and> flushes b = a \<and> invalidations b = a \<and> meetings b = U * a"

text \<open>What the thread with the mutex has done in this round: flushes, invalidations, meetings.\<close>

fun progress :: "nat \<Rightarrow> bar_pc \<Rightarrow> (nat \<times> nat \<times> nat) option" where
  "progress U B_flush = Some (0, 0, 0)"
| "progress U B_mpi1 = Some (1, 0, 0)"
| "progress U B_inv = Some (1, 0, 1)"
| "progress U B_up = (if U = 2 then Some (1, 1, 1) else None)"
| "progress U B_mpi2 = (if U = 2 then Some (1, 1, 1) else None)"
| "progress U B_wait2w = Some (1, 1, U)"
| "progress U _ = None"

text \<open>Inside a round: all threads have called; nobody has the mutex yet, or the thread \<open>w\<close> has it.\<close>

definition racing :: "nat \<Rightarrow> nat \<Rightarrow> nat \<Rightarrow> bar_node \<Rightarrow> bool" where
  "racing n U a b \<longleftrightarrow>
     (\<forall>t < n. bpc b t = B_try \<and> calls b t = a + 1 \<and> returns b t = a)
   \<and> \<not> barriermutex b \<and> flushes b = a \<and> invalidations b = a \<and> meetings b = U * a"

definition working :: "nat \<Rightarrow> nat \<Rightarrow> nat \<Rightarrow> nat \<Rightarrow> bar_node \<Rightarrow> bool" where
  "working n U a w b \<longleftrightarrow>
     (\<forall>t < n. calls b t = a + 1 \<and> returns b t = a \<and> (t \<noteq> w \<longrightarrow> bpc b t = B_try \<or> bpc b t = B_wait2))
   \<and> w < n \<and> barriermutex b
   \<and> progress U (bpc b w) = Some (flushes b - a, invalidations b - a, meetings b - U * a)
   \<and> a \<le> flushes b \<and> a \<le> invalidations b \<and> U * a \<le> meetings b"

definition node_inv :: "nat \<Rightarrow> nat \<Rightarrow> bar_node \<Rightarrow> bool" where
  "node_inv n U b \<longleftrightarrow> (\<exists>a. gathering n U a b \<or> racing n U a b \<or> (\<exists>w. working n U a w b))"

lemma node_invI:
  "gathering n U a b \<Longrightarrow> node_inv n U b" "racing n U a b \<Longrightarrow> node_inv n U b" "working n U a w b \<Longrightarrow> node_inv n U b"
  by (auto simp: node_inv_def)

lemma node_inv_cases:
  assumes "node_inv n U b"
  obtains (gathering) a where "gathering n U a b" | (racing) a where "racing n U a b" | (working) a w where "working n U a w b"
  using assms by (auto simp: node_inv_def)

lemmas bar_defs = goto_def bar_call_def bar_return_def bar_release1_def bar_release2_def bar_trylock_def bar_unlock_def bar_meet_def

lemma node_inv_init: "node_inv n U bar_init"
  by (rule node_invI(1) [where a = 0]) (simp add: gathering_def bar_init_def)

lemma node_inv_call:
  assumes "node_inv n U b" and "t < n" "bpc b t = B_out"
  shows "node_inv n U (bar_call t b)"
  using assms
proof (cases rule: node_inv_cases)
  case (gathering a)
  have u: "bpc (bar_call t b) u = B_unlock \<longleftrightarrow> bpc b u = B_unlock" for u using assms(3) by (simp add: bar_defs)
  have "gathering n U a (bar_call t b)"
    using gathering assms(2,3) unfolding gathering_def u by (auto simp: bar_defs)
  then show ?thesis by (rule node_invI)
next
  case (working a w)
  then show ?thesis using assms by (cases "t = w") (auto simp: working_def)
qed (auto simp: racing_def)

lemma node_inv_release1:
  assumes "node_inv n U b" and "bar_gathered n {B_wait1} b" and "0 < n"
  shows "node_inv n U (bar_release1 n b)"
  using assms(1)
proof (cases rule: node_inv_cases)
  case (gathering a)
  have "bpc b t = B_wait1" if "t < n" for t using assms(2) that by (simp add: bar_gathered_def)
  then have "racing n U a (bar_release1 n b)" using gathering by (simp add: gathering_def racing_def bar_defs)
  then show ?thesis by (rule node_invI)
next
  case (racing a)
  then have "bpc b 0 = B_try" using assms(3) by (simp add: racing_def)
  then show ?thesis using assms(2,3) by (simp add: bar_gathered_def)
next
  case (working a w)
  then have "w < n" and p: "progress U (bpc b w) \<noteq> None" unfolding working_def by auto
  then have "bpc b w = B_wait1" using assms(2) by (simp add: bar_gathered_def)
  with p show ?thesis by simp
qed

lemma node_inv_trylock:
  assumes "node_inv n U b" and "t < n" "bpc b t = B_try"
  shows "node_inv n U (bar_trylock t b)"
  using assms(1)
proof (cases rule: node_inv_cases)
  case (racing a)
  then have "working n U a t (bar_trylock t b)" using assms(2) by (auto simp: racing_def working_def bar_defs)
  then show ?thesis by (rule node_invI)
next
  case (working a w)
  moreover from this assms have "t \<noteq> w" by (auto simp: working_def)
  ultimately have "working n U a w (bar_trylock t b)" using assms by (auto simp: working_def bar_defs)
  then show ?thesis by (rule node_invI)
qed (use assms in \<open>auto simp: gathering_def\<close>)

text \<open>The thread with the mutex is the only one past \<^verbatim>\<open>trylock\<close>.\<close>

lemma node_inv_worker:
  assumes "node_inv n U b" and "t < n" and "progress U (bpc b t) \<noteq> None \<or> bpc b t = B_up \<or> bpc b t = B_mpi2"
  obtains a where "working n U a t b"
  using assms(1)
proof (cases rule: node_inv_cases)
  case (working a w)
  then show ?thesis using that assms by (cases "t = w") (auto simp: working_def)
qed (use assms in \<open>auto simp: racing_def gathering_def\<close>)

text \<open>How often a round calls \<^verbatim>\<open>MPI_Barrier\<close>.\<close>

definition meetings_per_round :: "upgrade_type \<Rightarrow> nat" where
  "meetings_per_round upgrade = (if upgrade = upgrade_none then 1 else 2)"

lemma working_goto:
  assumes "working n U a t b" and "progress U pc = Some (f - a, i - a, m - U * a)" and "a \<le> f" "a \<le> i" "U * a \<le> m"
  shows "working n U a t ((goto t pc b)\<lparr>flushes := f, invalidations := i, meetings := m\<rparr>)"
  using assms by (simp add: working_def goto_def)

lemma working_counts:
  assumes "working n U a t b" and "progress U (bpc b t) = Some (x, y, z)"
  shows "flushes b = a + x" "invalidations b = a + y" "meetings b = U * a + z"
  using assms by (auto simp: working_def)

lemma node_inv_flush:
  assumes "node_inv n U b" and "t < n" "bpc b t = B_flush"
  shows "node_inv n U ((goto t B_mpi1 b)\<lparr>flushes := flushes b + 1\<rparr>)"
proof -
  from node_inv_worker [OF assms(1,2)] assms(3) obtain a where w: "working n U a t b" by auto
  from working_counts [OF w, of 0 0 0] assms(3)
  have "working n U a t ((goto t B_mpi1 b)\<lparr>flushes := flushes b + 1, invalidations := invalidations b, meetings := meetings b\<rparr>)"
    by (intro working_goto [OF w]) auto
  then show ?thesis by (intro node_invI(3)) (simp add: goto_def)
qed

lemma node_inv_invalidate:
  assumes "node_inv n (meetings_per_round upgrade) b" and "t < n" "bpc b t = B_inv"
  shows "node_inv n (meetings_per_round upgrade)
     ((goto t (if upgrade = upgrade_none then B_wait2w else B_up) b)\<lparr>invalidations := invalidations b + 1\<rparr>)"
proof -
  let ?U = "meetings_per_round upgrade" and ?pc = "if upgrade = upgrade_none then B_wait2w else B_up"
  from node_inv_worker [OF assms(1,2)] assms(3) obtain a where w: "working n ?U a t b" by auto
  from working_counts [OF w, of 1 0 1] assms(3)
  have "working n ?U a t ((goto t ?pc b)\<lparr>flushes := flushes b, invalidations := invalidations b + 1, meetings := meetings b\<rparr>)"
    by (intro working_goto [OF w]) (auto simp: meetings_per_round_def)
  then show ?thesis by (intro node_invI(3)) (simp add: goto_def)
qed

lemma node_inv_upgrade:
  assumes "node_inv n U b" and "t < n" "bpc b t = B_up"
  shows "node_inv n U (goto t B_mpi2 b)"
proof -
  from node_inv_worker [OF assms(1,2)] assms(3) obtain a where w: "working n U a t b" by auto
  moreover from this have "U = 2" using assms(3) by (auto simp: working_def split: if_splits)
  ultimately have "working n U a t (goto t B_mpi2 b)" using assms(3) by (auto simp: working_def goto_def)
  then show ?thesis by (rule node_invI)
qed

lemma node_inv_meet:
  assumes "node_inv n U b" and "at_mpi n b"
  shows "node_inv n U (bar_meet b)"
proof -
  obtain t where t: "t < n" "bpc b t = B_mpi1 \<or> bpc b t = B_mpi2" using assms(2) by (auto simp: at_mpi_def)
  from t(2) have "progress U (bpc b t) \<noteq> None \<or> bpc b t = B_up \<or> bpc b t = B_mpi2" by auto
  from node_inv_worker [OF assms(1) t(1) this] obtain a where w: "working n U a t b" .
  have "bpc (bar_meet b) u = bpc b u" if "u < n" "u \<noteq> t" for u
    using w that by (auto simp: working_def bar_meet_def)
  moreover have "progress U (bpc (bar_meet b) t) = Some (flushes b - a, invalidations b - a, meetings b + 1 - U * a)"
    using w t(2) by (auto simp: working_def bar_meet_def split: if_splits)
  ultimately have "working n U a t (bar_meet b)" using w by (simp add: working_def) (simp add: bar_meet_def)
  then show ?thesis by (rule node_invI)
qed

lemma node_inv_release2:
  assumes "node_inv n U b" and "bar_gathered n {B_wait2, B_wait2w} b" and "0 < n"
  shows "node_inv n U (bar_release2 n b)"
  using assms(1)
proof (cases rule: node_inv_cases)
  case (working a w)
  then have w: "w < n" "progress U (bpc b w) \<noteq> None" "barriermutex b" unfolding working_def by auto
  then have p: "bpc b w = B_wait2w" using assms(2) by (auto simp: bar_gathered_def)
  have o: "bpc b t = B_wait2 \<and> calls b t = a + 1 \<and> returns b t = a" if "t < n" "t \<noteq> w" for t
  proof -
    have "bpc b t \<in> {B_wait2, B_wait2w}" using assms(2) that(1) unfolding bar_gathered_def by blast
    moreover have "bpc b t = B_try \<or> bpc b t = B_wait2" "calls b t = a + 1" "returns b t = a"
      using working that unfolding working_def by blast+
    ultimately show ?thesis by auto
  qed
  have "bpc (bar_release2 n b) t = (if t = w then B_unlock else B_out) \<and> calls (bar_release2 n b) t = a + 1
      \<and> returns (bar_release2 n b) t = (if t = w then a else a + 1)" if "t < n" for t
    using p o [OF that] working that by (cases "t = w") (auto simp: bar_defs working_def)
  moreover have "flushes b = a + 1" "invalidations b = a + 1" "meetings b = U * (a + 1)"
    using working_counts [OF working, of 1 1 U] p by simp_all
  ultimately have "gathering n U (a + 1) (bar_release2 n b)" using w(1,3) by (auto simp: gathering_def) (simp_all add: bar_defs)
  then show ?thesis by (rule node_invI)
next
  case (racing a)
  then have "bpc b 0 = B_try" using assms(3) by (simp add: racing_def)
  then show ?thesis using assms(2,3) by (auto simp: bar_gathered_def)
next
  case (gathering a)
  then have "bpc b 0 \<in> {B_out, B_wait1, B_unlock}" using assms(3) unfolding gathering_def by blast
  moreover have "bpc b 0 \<in> {B_wait2, B_wait2w}" using assms(2,3) unfolding bar_gathered_def by blast
  ultimately show ?thesis by auto
qed

lemma node_inv_unlock:
  assumes "node_inv n U b" and "t < n" "bpc b t = B_unlock"
  shows "node_inv n U (bar_unlock t b)"
  using assms(1)
proof (cases rule: node_inv_cases)
  case (gathering a)
  then have u: "bpc b u \<noteq> B_unlock" if "u < n" "u \<noteq> t" for u using assms(2,3) that unfolding gathering_def by blast
  then have "bpc (bar_unlock t b) u \<noteq> B_unlock" if "u < n" for u using that by (simp add: bar_defs)
  with gathering assms(2,3) u have "gathering n U a (bar_unlock t b)"
    unfolding gathering_def by (auto simp: bar_defs)
  then show ?thesis by (rule node_invI)
next
  case (working a w)
  then show ?thesis using assms(2,3) unfolding working_def by (cases "t = w") auto
qed (use assms in \<open>auto simp: racing_def\<close>)

section \<open>The invariant of the cluster\<close>

text \<open>All nodes have been in the same number of calls of \<^verbatim>\<open>MPI_Barrier\<close>.\<close>

definition cluster_inv :: "swdsm_config \<Rightarrow> nat \<Rightarrow> upgrade_type \<Rightarrow> (nat \<Rightarrow> bar_node) \<Rightarrow> bool" where
  "cluster_inv c n upgrade b \<longleftrightarrow> (\<exists>B. \<forall>r < numtasks c. node_inv n (meetings_per_round upgrade) (b r) \<and> meetings (b r) = B)"

lemma cluster_invD:
  assumes "cluster_inv c n upgrade b"
  shows "r < numtasks c \<Longrightarrow> node_inv n (meetings_per_round upgrade) (b r)"
    and "r < numtasks c \<Longrightarrow> q < numtasks c \<Longrightarrow> meetings (b r) = meetings (b q)"
  using assms unfolding cluster_inv_def by blast+

lemma cluster_inv_upd:
  assumes "cluster_inv c n upgrade b" and "node_inv n (meetings_per_round upgrade) d" and "meetings d = meetings (b r)"
  shows "cluster_inv c n upgrade (b(r := d))"
  using assms unfolding cluster_inv_def by (metis fun_upd_apply)

lemma bar_step_inv:
  assumes "bar_step E c n upgrade (m, b) (m', b')" and inv: "cluster_inv c n upgrade b" and n: "0 < n" and N: "numtasks c \<noteq> 1"
  shows "cluster_inv c n upgrade b'"
  using assms(1)
proof cases
  case (meet)
  have "node_inv n (meetings_per_round upgrade) (b' r) \<and> meetings (b' r) = meetings (b 0) + 1" if "r < numtasks c" for r
    using node_inv_meet [OF cluster_invD(1) [OF inv that]] cluster_invD(2) [OF inv that, of 0] meet that by (auto simp: bar_meet_def)
  then show ?thesis unfolding cluster_inv_def by blast
next
  case (gather1 r)
  then show ?thesis using cluster_inv_upd [OF inv node_inv_release1 [OF cluster_invD(1) [OF inv]]] n by (simp add: bar_release1_def)
next
  case (gather2 r)
  then show ?thesis using cluster_inv_upd [OF inv node_inv_release2 [OF cluster_invD(1) [OF inv]]] n by (simp add: bar_release2_def)
next
  case (call r t)
  then show ?thesis using cluster_inv_upd [OF inv node_inv_call [OF cluster_invD(1) [OF inv]]] by (simp add: bar_defs)
next
  case (trylock r t)
  then show ?thesis using cluster_inv_upd [OF inv node_inv_trylock [OF cluster_invD(1) [OF inv]]] by (simp add: bar_defs)
next
  case (flush r t)
  then show ?thesis using cluster_inv_upd [OF inv node_inv_flush [OF cluster_invD(1) [OF inv]]] by (simp add: goto_def)
next
  case (invalidate r t)
  then show ?thesis using cluster_inv_upd [OF inv node_inv_invalidate [OF cluster_invD(1) [OF inv]]] by (simp add: goto_def)
next
  case (upgrade r t)
  then show ?thesis using cluster_inv_upd [OF inv node_inv_upgrade [OF cluster_invD(1) [OF inv]]] by (simp add: goto_def)
next
  case (unlock r t)
  then show ?thesis using cluster_inv_upd [OF inv node_inv_unlock [OF cluster_invD(1) [OF inv]]] by (simp add: bar_defs)
qed (use inv N in simp_all)

text \<open>A call that returns is after the invalidation of its node, that is after the flush of every node, and that after the calls of all threads.\<close>

lemma node_inv_order:
  assumes "node_inv n U b" and "U = 1 \<or> U = 2"
  shows "invalidations b \<le> (meetings b + U - 1) div U" and "(meetings b + U - 1) div U \<le> flushes b"
    and "t < n \<Longrightarrow> flushes b \<le> calls b t" and "t < n \<Longrightarrow> returns b t \<le> invalidations b"
proof -
  have "invalidations b \<le> (meetings b + U - 1) div U \<and> (meetings b + U - 1) div U \<le> flushes b
    \<and> (\<forall>t < n. flushes b \<le> calls b t \<and> returns b t \<le> invalidations b)"
    using assms(1)
  proof (cases rule: node_inv_cases)
    case (gathering a)
    then have e: "flushes b = a" "invalidations b = a" "meetings b = U * a" by (simp_all add: gathering_def)
    have "a \<le> calls b t \<and> returns b t \<le> a" if "t < n" for t
    proof -
      have "calls b t = a \<and> returns b t = a \<or> calls b t = a + 1 \<and> returns b t = a \<or> calls b t = a \<and> returns b t + 1 = a"
        using gathering that unfolding gathering_def by blast
      then show ?thesis by linarith
    qed
    moreover have "(U * a + U - 1) div U = a" using assms(2) by auto
    ultimately show ?thesis by (simp add: e)
  next
    case (racing a)
    then show ?thesis using assms(2) by (auto simp: racing_def)
  next
    case (working a w)
    then obtain x y z where p: "progress U (bpc b w) = Some (x, y, z)" unfolding working_def by auto
    then have "x \<le> 1 \<and> y \<le> (z + U - 1) div U \<and> (z + U - 1) div U \<le> x"
      using assms(2) by (cases "bpc b w") (auto split: if_splits)
    then show ?thesis using working_counts [OF working p] working assms(2) by (auto simp: working_def)
  qed
  then show "invalidations b \<le> (meetings b + U - 1) div U" "(meetings b + U - 1) div U \<le> flushes b"
    "t < n \<Longrightarrow> flushes b \<le> calls b t" "t < n \<Longrightarrow> returns b t \<le> invalidations b" by auto
qed

lemma bar_steps_inv:
  assumes "(bar_step E c n upgrade)\<^sup>*\<^sup>* (m0, \<lambda>_. bar_init) (m, b)" and "0 < n" and "numtasks c \<noteq> 1"
  shows "cluster_inv c n upgrade b"
  using assms(1)
proof (induction "(m, b)" arbitrary: m b rule: rtranclp_induct)
  case base
  then show ?case using node_inv_init by (auto simp: cluster_inv_def bar_init_def)
next
  case (step st)
  obtain m1 b1 where "st = (m1, b1)" by (cases st)
  then show ?case using step bar_step_inv [OF _ _ assms(2,3)] by blast
qed

lemma cluster_order:
  assumes inv: "cluster_inv c n upgrade b" and "r < numtasks c" "q < numtasks c" "t < n" "u < n"
  shows "returns (b r) t \<le> invalidations (b r)" "invalidations (b r) \<le> flushes (b q)" "flushes (b q) \<le> calls (b q) u"
proof -
  have U: "meetings_per_round upgrade = 1 \<or> meetings_per_round upgrade = 2" by (simp add: meetings_per_round_def)
  note o = node_inv_order [OF cluster_invD(1) [OF inv] U]
  show "returns (b r) t \<le> invalidations (b r)" "flushes (b q) \<le> calls (b q) u" using o(3,4) assms(2-5) by blast+
  show "invalidations (b r) \<le> flushes (b q)"
    using o(1) [OF assms(2)] o(2) [OF assms(3)] cluster_invD(2) [OF inv assms(2,3)] by simp
qed

section \<open>Memory and progress\<close>

context dsm
begin

lemma pass_barrier_coherent: "coherent c m \<Longrightarrow> coherent c (pass_barrier r m)"
  unfolding pass_barrier_def by (rule count_coherent)

lemma bar_step_coherent:
  assumes "bar_step E c n upgrade_none (m, b) (m', b')" and co: "coherent c m" and inv: "cluster_inv c n upgrade_none b"
  shows "coherent c m'"
  using assms(1)
proof cases
  case (application r t)
  then show ?thesis using node_op_step dsm_step_coherent co by blast
next
  case (flush r t)
  then show ?thesis using argo_release_effect [OF co, of r] by (auto simp: argo_release_def)
next
  case (invalidate r t)
  then show ?thesis using argo_acquire_effect [OF co, of r] by (auto simp: argo_acquire_def invalidating_def)
next
  case (upgrade r t)
  then have "node_inv n 1 (b r)" using cluster_invD(1) [OF inv] by (simp add: meetings_per_round_def)
  then show ?thesis using node_inv_worker [of n 1 "b r" t] upgrade by (auto simp: working_def)
qed (use co pass_barrier_coherent in auto)

lemma bar_steps_coherent:
  assumes "(bar_step E c n upgrade_none)\<^sup>*\<^sup>* (m0, \<lambda>_. bar_init) (m, b)" and "coherent c m0" and "0 < n" and "numtasks c \<noteq> 1"
  shows "coherent c m"
  using assms(1)
proof (induction "(m, b)" arbitrary: m b rule: rtranclp_induct)
  case base
  then show ?case using assms(2) by simp
next
  case (step st)
  obtain m1 b1 where st: "st = (m1, b1)" by (cases st)
  then show ?case using step bar_step_coherent bar_steps_inv [OF _ assms(3,4)] by blast
qed

text \<open>A node whose threads are all inside a call can go on, or waits for the other nodes.\<close>

lemma node_progress:
  assumes co: "coherent c m" and inv: "cluster_inv c n upgrade_none b" and r: "r < numtasks c" and n: "0 < n" and N: "numtasks c \<noteq> 1"
    and inside: "\<forall>t < n. bpc (b r) t \<noteq> B_out"
  shows "at_mpi n (b r) \<or> (\<exists>st. bar_step E c n upgrade_none (m, b) st)"
proof -
  have "node_inv n 1 (b r)" using cluster_invD(1) [OF inv r] by (simp add: meetings_per_round_def)
  then show ?thesis
  proof (cases rule: node_inv_cases)
    case (gathering a)
    show ?thesis
    proof (cases "\<exists>t < n. bpc (b r) t = B_unlock")
      case True
      then show ?thesis using bar_step.unlock [OF r] by blast
    next
      case False
      then have "bar_gathered n {B_wait1} (b r)" using gathering inside unfolding gathering_def bar_gathered_def by blast
      then show ?thesis using bar_step.gather1 [OF r] by blast
    qed
  next
    case (racing a)
    then have "bpc (b r) 0 = B_try" using n by (simp add: racing_def)
    then show ?thesis using bar_step.trylock [OF N r n] by blast
  next
    case (working a w)
    then have w: "w < n" "progress 1 (bpc (b r) w) \<noteq> None" "\<forall>t < n. t \<noteq> w \<longrightarrow> bpc (b r) t = B_try \<or> bpc (b r) t = B_wait2"
      unfolding working_def by auto
    obtain f v where fl: "wb_flush E c r m = Inr f" and iv: "self_invalidation E c r m = Inr v"
      using argo_release_effect [OF co r] argo_acquire_effect [OF co r] by (auto simp: argo_release_def argo_acquire_def)
    consider "bpc (b r) w = B_flush" | "bpc (b r) w = B_mpi1" | "bpc (b r) w = B_inv" | "bpc (b r) w = B_wait2w"
      using w(2) by (cases "bpc (b r) w") auto
    then show ?thesis
    proof cases
      case 1
      then show ?thesis using bar_step.flush [OF r w(1) _ fl] by blast
    next
      case 2
      then show ?thesis using w(1) by (auto simp: at_mpi_def)
    next
      case 3
      then show ?thesis using bar_step.invalidate [OF r w(1) _ iv] by blast
    next
      case 4
      show ?thesis
      proof (cases "\<exists>t < n. bpc (b r) t = B_try")
        case True
        then show ?thesis using bar_step.trylock [OF N r] by blast
      next
        case False
        then have "bar_gathered n {B_wait2, B_wait2w} (b r)" using w(3) 4 unfolding bar_gathered_def by auto
        then show ?thesis using bar_step.gather2 [OF r] by blast
      qed
    qed
  qed
qed

lemma cluster_progress:
  assumes "coherent c m" and "cluster_inv c n upgrade_none b" and "0 < n" and "numtasks c \<noteq> 1"
    and "\<forall>r < numtasks c. \<forall>t < n. bpc (b r) t \<noteq> B_out"
  shows "\<exists>st. bar_step E c n upgrade_none (m, b) st"
proof (cases "\<forall>r < numtasks c. at_mpi n (b r)")
  case True
  then show ?thesis by (blast intro: bar_step.meet)
next
  case False
  then show ?thesis using node_progress [OF assms(1,2)] assms(3-5) by blast
qed

end

end
