(* ===== verification/Selective_Coherence.thy ===== *)
theory Selective_Coherence
  imports Coherence_Main
begin

text \<open>
  The selective acquire and release of \<^verbatim>\<open>coherence.cpp\<close>, which work on the pages of a range of addresses. A
  release of a range writes its modified pages back; an acquire of a range leaves no stale page in it. Both
  touch the cache entry of a page without asking which page is in it, so the results need that
  the entries of the range hold no other page; what goes wrong otherwise is shown as well.
\<close>

text \<open>No modified page but \<open>p\<close> itself is in the cache entry of \<open>p\<close>.\<close>

definition releasable :: "swdsm_config \<Rightarrow> cluster \<Rightarrow> nat \<Rightarrow> nat \<Rightarrow> bool" where
  "releasable c s r p \<longleftrightarrow> (home_of c p \<noteq> r \<and> dirty (slot c s r p) = DIRTY \<longrightarrow> tag (slot c s r p) = p)"

text \<open>The entries of the modified remote pages among \<open>ps\<close>.\<close>

definition dirty_slots :: "swdsm_config \<Rightarrow> cluster \<Rightarrow> nat \<Rightarrow> nat set \<Rightarrow> nat set" where
  "dirty_slots c s r ps = getCacheIndex c ` {p \<in> ps. home_of c p \<noteq> r \<and> dirty_at c s r p}"

text \<open>
  The cache entry of \<open>p\<close> holds \<open>p\<close> or nothing valid, and no modification; an entry that was never used is
  not marked as used.
\<close>

definition acquirable :: "swdsm_config \<Rightarrow> cluster \<Rightarrow> nat \<Rightarrow> nat \<Rightarrow> bool" where
  "acquirable c s r p \<longleftrightarrow> (home_of c p \<noteq> r \<longrightarrow>
     dirty (slot c s r p) = CLEAN \<and> (tag (slot c s r p) = p \<or> state (slot c s r p) = INVALID)
   \<and> (tag (slot c s r p) = GLOBAL_NULL c \<longrightarrow> \<not> keep_page r (get_classification_index c p) (s r)))"

text \<open>What a selective acquire of node \<open>r\<close> may do: invalidate entries.\<close>

definition invalidates :: "nat \<Rightarrow> cluster \<Rightarrow> cluster \<Rightarrow> bool" where
  "invalidates r s t \<longleftrightarrow> globalSharers (t r) = globalSharers (s r) \<and> (\<forall>n. n \<noteq> r \<longrightarrow> t n = s n)
     \<and> (\<forall>i. cacheControl (t r) i = cacheControl (s r) i
          \<or> cacheControl (t r) i = (cacheControl (s r) i)\<lparr>dirty := CLEAN, state := INVALID\<rparr>)"

lemma invalidates_refl: "invalidates r s s"
  by (simp add: invalidates_def)

lemma invalidates_trans:
  assumes "invalidates r s t" and "invalidates r t u"
  shows "invalidates r s u"
  unfolding invalidates_def
proof (intro conjI allI)
  fix i
  let ?inv = "\<lambda>e. e\<lparr>dirty := CLEAN, state := INVALID\<rparr> :: control_data"
  have "cacheControl (t r) i = cacheControl (s r) i \<or> cacheControl (t r) i = ?inv (cacheControl (s r) i)"
       "cacheControl (u r) i = cacheControl (t r) i \<or> cacheControl (u r) i = ?inv (cacheControl (t r) i)"
    using assms by (simp_all add: invalidates_def)
  then show "cacheControl (u r) i = cacheControl (s r) i \<or> cacheControl (u r) i = ?inv (cacheControl (s r) i)" by (elim disjE) simp_all
qed (use assms in \<open>auto simp: invalidates_def\<close>)

lemma keep_page_cong: "globalSharers nd' = globalSharers nd \<Longrightarrow> keep_page r k nd' = keep_page r k nd"
  by (simp add: keep_page_def)

lemma invalidates_slot:
  assumes "invalidates r s t"
  shows "tag (cacheControl (t r) i) = tag (cacheControl (s r) i)"
    and "state (cacheControl (t r) i) = VALID \<Longrightarrow> cacheControl (t r) i = cacheControl (s r) i"
    and "state (cacheControl (s r) i) = INVALID \<Longrightarrow> state (cacheControl (t r) i) = INVALID"
    and "dirty (cacheControl (s r) i) = CLEAN \<Longrightarrow> dirty (cacheControl (t r) i) = CLEAN"
    and "keep_page r k (t r) = keep_page r k (s r)"
proof -
  have i: "cacheControl (t r) i = cacheControl (s r) i \<or> cacheControl (t r) i = (cacheControl (s r) i)\<lparr>dirty := CLEAN, state := INVALID\<rparr>"
    using assms by (simp add: invalidates_def)
  then show "tag (cacheControl (t r) i) = tag (cacheControl (s r) i)" by auto
  show "state (cacheControl (t r) i) = VALID \<Longrightarrow> cacheControl (t r) i = cacheControl (s r) i" using i by auto
  show "state (cacheControl (s r) i) = INVALID \<Longrightarrow> state (cacheControl (t r) i) = INVALID" using i by auto
  show "dirty (cacheControl (s r) i) = CLEAN \<Longrightarrow> dirty (cacheControl (t r) i) = CLEAN" using i by auto
  show "keep_page r k (t r) = keep_page r k (s r)" using assms by (intro keep_page_cong) (simp add: invalidates_def)
qed

lemma invalidates_acquirable: "invalidates r s t \<Longrightarrow> acquirable c s r p \<Longrightarrow> acquirable c t r p"
  using invalidates_slot [of r s t] unfolding acquirable_def by metis

section \<open>The pages of a range\<close>

context dsm
begin

text \<open>Every address of the range is on one of the pages, and all of them are pages of the global memory.\<close>

lemma selective_pages_range:
  assumes st: "PAGE_SIZE c dvd startAddr c" "startAddr c + size_of_all c < 2 ^ 64" and x: "x0 + sz \<le> size_of_all c" "0 < sz"
  shows "p \<in> set (selective_pages c (startAddr c + x0) sz) \<Longrightarrow> is_page c p"
    and "x0 \<le> x \<Longrightarrow> x < x0 + sz \<Longrightarrow> page_of c x \<in> set (selective_pages c (startAddr c + x0) sz)"
proof -
  let ?g = "PAGE_SIZE c" and ?a = "x0 div PAGE_SIZE c * PAGE_SIZE c"
  obtain k where k: "startAddr c = ?g * k" using st(1) by (elim dvdE)
  have "(startAddr c + x0) mod ?g = x0 mod ?g" "sub64 (startAddr c + x0) (startAddr c) = x0"
    using st(2) x by (simp_all add: k sub64_id)
  then have e: "selective_pages c (startAddr c + x0) sz = c_range ?a (x0 + sz) ?g"
    by (simp add: selective_pages_def Let_def)
  show "is_page c p" if "p \<in> set (selective_pages c (startAddr c + x0) sz)"
  proof -
    have "p < x0 + sz" using c_range_bounds [OF that [unfolded e] page_pos] by blast
    moreover have "?g dvd p" using that by (auto simp: e c_range_def)
    ultimately show ?thesis using x by (simp add: is_page_def)
  qed
  show "page_of c x \<in> set (selective_pages c (startAddr c + x0) sz)" if "x0 \<le> x" "x < x0 + sz"
  proof -
    let ?m = "x div ?g - x0 div ?g"
    have le: "x0 div ?g \<le> x div ?g" using that(1) by (rule div_le_mono)
    then have p: "page_of c x = ?a + ?m * ?g" by (simp add: align_backwards_def cacheline diff_mult_distrib)
    have "page_of c x < x0 + sz" using that(2) by (simp add: align_backwards_def cacheline order.strict_trans1 [OF div_times_less_eq_dividend])
    then have "?m * ?g < x0 + sz - ?a" using p by linarith
    then have "?m < (x0 + sz - ?a + ?g - 1) div ?g"
      using page_pos by (simp add: less_eq_div_iff_mult_less_eq Suc_le_eq [symmetric])
    then show ?thesis unfolding e c_range_def p set_map set_upt by (intro imageI) simp
  qed
qed

lemma selective_page:
  assumes st: "PAGE_SIZE c dvd startAddr c" "startAddr c + size_of_all c < 2 ^ 64" and x: "x < size_of_all c"
  shows "selective_pages c (startAddr c + x) 1 = [page_of c x]"
proof -
  let ?g = "PAGE_SIZE c"
  obtain k where "startAddr c = ?g * k" using st(1) by (elim dvdE)
  then have m: "(startAddr c + x) mod ?g = x mod ?g" "sub64 (startAddr c + x) (startAddr c) = x" using st(2) x by (simp_all add: sub64_id)
  have "Suc x - x div ?g * ?g + ?g - Suc 0 = x mod ?g + ?g"
    using div_mult_mod_eq [of x ?g] page_pos by linarith
  moreover have "(x mod ?g + ?g) div ?g = 1" using page_pos by (simp add: div_add_self2)
  ultimately have "c_range (x div ?g * ?g) (Suc x) ?g = [x div ?g * ?g]" unfolding c_range_def by simp
  then show ?thesis using m by (simp add: selective_pages_def align_backwards_def cacheline)
qed

section \<open>Release of a range\<close>

text \<open>The cache entry of a page that is modified: it is written back, cleaned and taken out of the write buffer.\<close>

lemma release_dirty_page:
  assumes p: "is_page c p" "home_of c p \<noteq> r" and ok: "node_ok c {} D r (s r)" and d: "dirty_at c s r p"
  shows "\<exists>t. selective_release_page E c r p s = Inr t \<and> wrote_back c r {getCacheIndex c p} s t
     \<and> wb_buffer (t r) = remove1 (getCacheIndex c p) (wb_buffer (s r))"
proof -
  define i where "i = getCacheIndex c p"
  have i: "i < cachesize c" "tag (cacheControl (s r) i) = p" "dirty (cacheControl (s r) i) = DIRTY" "\<not> cache_locks (s r) i"
    using cache_index_less [of p] d ok by (auto simp: i_def dirty_at_def node_ok_def)
  have vm: "vmap (s r) p = Some (PAGE_SIZE c * i)" using node_home(2) [OF ok p(1)] i(2) by (simp add: i_def)
  define s1 where "s1 = upd r (\<lambda>nd. mprotect c p (PAGE_SIZE c) PROT_READ (nd\<lparr>cache_locks := (cache_locks nd)(i := True)\<rparr>)) s"
  define m where "m = page_merge c r i p (home_of c p) (off_of c p) (PAGE_SIZE c) s1"
  define t where "t = cache_unlock r i (upd r (set_dirty i CLEAN)
      (upd r (\<lambda>nd. nd\<lparr>wb_buffer := remove1 i (wb_buffer nd)\<rparr>) (upd r (\<lambda>nd. nd\<lparr>write_misses := add64 (write_misses nd) 1\<rparr>) m)))"
  have st: "storepageDIFF E c r i p s1 = Inr (upd r (\<lambda>nd. nd\<lparr>write_misses := add64 (write_misses nd) 1\<rparr>) m)"
    unfolding m_def using p vm i(1) by (intro storepageDIFF_merge get_homenode_eq get_offset_eq)
      (auto simp: is_page_def s1_def intro!: in_cacheI)
  have "selective_release_page E c r p s = Inr t"
    using p i st home_less [OF p(1)] few_nodes
    by (simp add: selective_release_page_def Let_def peek_home get_homenode_eq page_less cache_lock_def i_def [symmetric]
        store_lines_eq s1_def wb_erase_def delegate wb_erase_locked_def t_def invalid_node_id_def)
  moreover have "wrote_back c r {i} s t"
    unfolding wrote_back_def
  proof (intro conjI allI impI)
    fix n
    show "same_local c (s n) (t n)"
      using i(4) page_merge_local [of s1 n r i p "home_of c p" "off_of c p" "PAGE_SIZE c"]
      by (cases "n = r") (auto simp: t_def m_def s1_def cache_unlock_def set_dirty_def same_local_def fun_upd_idem_iff)
  next
    fix q j assume q: "is_page c q \<and> j < PAGE_SIZE c"
    have "home_byte c t = home_byte c m" by (rule home_byte_cong) (simp add: t_def cache_unlock_def set_dirty_def upd_def)
    moreover have "vmap (s1 r) p = Some (PAGE_SIZE c * getCacheIndex c p)" using vm by (simp add: s1_def i_def)
    moreover have "home_byte c s1 = home_byte c s" by (rule home_byte_cong) (simp add: s1_def upd_def)
    moreover have "cache_byte c s1 = cache_byte c s" "twin_byte c s1 = twin_byte c s"
      by (intro ext; simp add: cache_byte_def twin_byte_def s1_def upd_def)+
    moreover have "getCacheIndex c q \<in> {i} \<and> tag (slot c s r q) = q \<longleftrightarrow> q = p"
      using i(2) i_def by (metis singletonD singletonI)
    ultimately show "home_byte c t q j =
        (if getCacheIndex c q \<in> {i} \<and> tag (slot c s r q) = q \<and> cache_byte c s r q j \<noteq> twin_byte c s r q j
         then cache_byte c s r q j else home_byte c s q j)"
      using page_merge_home_byte [of p s1 r q j] p(1) q unfolding i_def [symmetric] m_def [symmetric] by auto
  qed (use i(2) in \<open>auto simp: t_def m_def s1_def cache_unlock_def set_dirty_def mprotect_page i_def\<close>)
  moreover have "wb_buffer (t r) = remove1 i (wb_buffer (s r))"
    by (simp add: t_def m_def s1_def set_dirty_def cache_unlock_def)
  ultimately show ?thesis by (auto simp: i_def)
qed

text \<open>Locking and unlocking an entry leaves the state as it is.\<close>

lemma relock: "\<not> cache_locks (s r) i \<Longrightarrow> cache_unlock r i (upd r (\<lambda>nd. nd\<lparr>cache_locks := (cache_locks nd)(i := True)\<rparr>) s) = s"
proof -
  assume "\<not> cache_locks (s r) i"
  then have "(cache_locks (s r))(i := False) = cache_locks (s r)" by (simp add: fun_upd_idem)
  then show ?thesis by (simp add: cache_unlock_def upd_def)
qed

lemma release_other_page:
  assumes p: "is_page c p" and ok: "node_ok c {} {} r (s r)" and d: "home_of c p \<noteq> r \<Longrightarrow> dirty (slot c s r p) = CLEAN"
  shows "selective_release_page E c r p s = Inr s"
proof -
  have "\<not> cache_locks (s r) (getCacheIndex c p)" using ok by (simp add: node_ok_def)
  then show ?thesis
    using p d home_less [OF p(1)] relock
    by (simp add: selective_release_page_def Let_def peek_home get_homenode_eq page_less cache_lock_def)
qed

lemma release_page_coherent:
  assumes co: "coherent c s" and r: "r < numtasks c" and p: "is_page c p" "releasable c s r p"
  shows "\<exists>t. selective_release_page E c r p s = Inr t \<and> coherent c t \<and> wrote_back c r (dirty_slots c s r {p}) s t
     \<and> wb_buffer (t r) = filter (\<lambda>i. i \<notin> dirty_slots c s r {p}) (wb_buffer (s r))"
proof (cases "home_of c p \<noteq> r \<and> dirty (slot c s r p) = DIRTY")
  case True
  have ok: "node_ok c {} {} r (s r)" using co r by (simp add: coherent_def)
  have d: "dirty_at c s r p" using True p(2) by (simp add: releasable_def dirty_at_def)
  have X: "dirty_slots c s r {p} = {getCacheIndex c p}" using True d by (auto simp: dirty_slots_def)
  obtain t where t: "selective_release_page E c r p s = Inr t" "wrote_back c r {getCacheIndex c p} s t"
      "wb_buffer (t r) = remove1 (getCacheIndex c p) (wb_buffer (s r))"
    using release_dirty_page [OF p(1) _ ok d] True by blast
  have "distinct (wb_buffer (s r))" using ok by (simp add: node_ok_def buffer_ok_def)
  then have b: "wb_buffer (t r) = filter (\<lambda>i. i \<notin> {getCacheIndex c p}) (wb_buffer (s r))"
    using t(3) by (simp add: distinct_remove1_removeAll removeAll_filter_not_eq eq_commute)
  have "coherent_at c r {} {} t"
    by (rule wrote_back_coherent [OF _ r t(2) _ b]) (use co buffered [OF co r d] in \<open>simp_all add: coherent_at_empty\<close>)
  then show ?thesis using t(1,2) b X by (simp add: coherent_at_empty)
next
  case False
  have ok: "node_ok c {} {} r (s r)" using co r by (simp add: coherent_def)
  have "dirty (slot c s r p) = CLEAN" if "home_of c p \<noteq> r" using False that by (cases "dirty (slot c s r p)") auto
  moreover have "dirty_slots c s r {p} = {}" using False by (auto simp: dirty_slots_def dirty_at_def)
  ultimately show ?thesis using release_other_page [of p r s] p(1) ok co by (simp add: wrote_back_empty)
qed

lemma release_pages:
  assumes "coherent c s" and r: "r < numtasks c" and "\<And>p. p \<in> set ps \<Longrightarrow> is_page c p \<and> releasable c s r p"
  shows "\<exists>t. foldE (selective_release_page E c r) ps s = Inr t \<and> coherent c t \<and> wrote_back c r (dirty_slots c s r (set ps)) s t"
  using assms(1,3)
proof (induction ps arbitrary: s)
  case Nil
  then show ?case by (simp add: dirty_slots_def wrote_back_empty)
next
  case (Cons p ps)
  obtain s1 where s1: "selective_release_page E c r p s = Inr s1" "coherent c s1" "wrote_back c r (dirty_slots c s r {p}) s s1"
    using release_page_coherent [OF Cons.prems(1) r] Cons.prems(2) [of p] by auto
  note v = wrote_back_views [OF s1(3)]
  have cc: "cacheControl (s1 r) i = (if i \<in> dirty_slots c s r {p} then (cacheControl (s r) i)\<lparr>dirty := CLEAN\<rparr> else cacheControl (s r) i)" for i
    using s1(3) by (simp add: wrote_back_def)
  have "is_page c q \<and> releasable c s1 r q" if "q \<in> set ps" for q
    using Cons.prems(2) [of q] that by (auto simp: releasable_def cc)
  from Cons.IH [OF s1(2) this] obtain t where
    t: "foldE (selective_release_page E c r) ps s1 = Inr t" "coherent c t" "wrote_back c r (dirty_slots c s1 r (set ps)) s1 t" by blast
  have "dirty_slots c s r {p} \<inter> dirty_slots c s1 r (set ps) = {}" by (auto simp: dirty_slots_def [of c s1] v)
  from wrote_back_union [OF s1(3) t(3) this] have "wrote_back c r (dirty_slots c s r (set (p # ps))) s t"
    by (rule back_subst [where P = "\<lambda>X. wrote_back c r X s t"]) (auto simp: dirty_slots_def v)
  then show ?case using s1(1) t by auto
qed

section \<open>Acquire of a range\<close>

text \<open>The mark of an entry that holds nothing valid may be set or cleared.\<close>

lemma touch_coherent:
  assumes co: "coherent c s" and r: "r < numtasks c" and i: "i < cachesize c" "state (cacheControl (s r) i) = INVALID"
    and b: "b \<Longrightarrow> tag (cacheControl (s r) i) \<noteq> GLOBAL_NULL c"
  shows "coherent c (upd r (\<lambda>nd. nd\<lparr>touchedcache := (touchedcache nd)(i := b)\<rparr>) s)"
proof -
  let ?t = "upd r (\<lambda>nd. nd\<lparr>touchedcache := (touchedcache nd)(i := b)\<rparr>) s"
  have c0: "coherent_at c r {} {} s" using co by (simp add: coherent_at_empty)
  have ok: "node_ok c {} {} r (s r)" using c0 r by (rule coherent_at_node)
  have "slot_ok c r (?t r) k" if "k < cachesize c" for k
  proof -
    have "slot_ok c r (s r) k" using ok that by (simp add: node_ok_def)
    then show ?thesis using i b by (auto simp: slot_ok_def Let_def)
  qed
  moreover have "pages_ok c r (?t r) = pages_ok c r (s r)" by (rule pages_ok_cong) simp_all
  ultimately have "node_ok c {} {} r (?t r)" using ok by (simp add: node_ok_def buffer_ok_def)
  then have "coherent_at c r {} {} ?t"
    by (rule local_step_coherent [OF c0 r, rotated]) (simp_all add: cached_def dirty_at_def)
  then show ?thesis by (simp add: coherent_at_empty)
qed

lemma unlock_after:
  assumes "\<not> cache_locks (s r) i" and "\<And>nd l. f (nd\<lparr>cache_locks := l\<rparr>) = (f nd)\<lparr>cache_locks := l\<rparr>" and "cache_locks (f (s r)) = cache_locks (s r)"
  shows "cache_unlock r i (upd r f (upd r (\<lambda>nd. nd\<lparr>cache_locks := (cache_locks nd)(i := True)\<rparr>) s)) = upd r f s"
proof -
  have "(cache_locks (s r))(i := False) = cache_locks (f (s r))" using assms(1,3) by (simp add: fun_upd_idem)
  then show ?thesis by (simp add: cache_unlock_def upd_def assms(2))
qed

lemma acquire_page_eq:
  assumes p: "is_page c p" "home_of c p \<noteq> r" and ok: "node_ok c {} {} r (s r)"
  shows "selective_acquire_page c r p s = Inr (if keep_page r (get_classification_index c p) (s r)
     then upd r (\<lambda>nd. nd\<lparr>touchedcache := (touchedcache nd)(getCacheIndex c p := True)\<rparr>) s
     else upd r (invalidate_entry c (getCacheIndex c p) p) s)"
proof -
  let ?i = "getCacheIndex c p" and ?l = "\<lambda>nd. nd\<lparr>cache_locks := (cache_locks nd)(getCacheIndex c p := True)\<rparr>"
  have l: "\<not> cache_locks (s r) ?i" using ok by (simp add: node_ok_def)
  have k: "keep_page r (get_classification_index c p) (?l (s r)) = keep_page r (get_classification_index c p) (s r)"
    by (rule keep_page_cong) simp
  have u: "cache_unlock r ?i (upd r (\<lambda>nd. nd\<lparr>touchedcache := (touchedcache nd)(?i := True)\<rparr>) (upd r ?l s))
        = upd r (\<lambda>nd. nd\<lparr>touchedcache := (touchedcache nd)(?i := True)\<rparr>) s"
      "cache_unlock r ?i (upd r (invalidate_entry c ?i p) (upd r ?l s)) = upd r (invalidate_entry c ?i p) s"
    by (rule unlock_after [of s r ?i "\<lambda>nd. nd\<lparr>touchedcache := (touchedcache nd)(?i := True)\<rparr>"]; simp add: l)
      (rule unlock_after [of s r ?i "invalidate_entry c ?i p"]; simp add: l invalidate_entry_def mprotect_page)
  show ?thesis
    using p l home_less [OF p(1)] few_nodes k u
    by (simp add: selective_acquire_page_def Let_def peek_home get_homenode_eq page_less cache_lock_def invalid_node_id_def del: upd_upd)
qed

lemma acquire_page_coherent:
  assumes co: "coherent c s" and r: "r < numtasks c" and p: "is_page c p" "acquirable c s r p"
  shows "\<exists>t. selective_acquire_page c r p s = Inr t \<and> coherent c t \<and> invalidates r s t \<and> home_byte c t = home_byte c s
     \<and> (home_of c p \<noteq> r \<and> cached c t r p \<longrightarrow> keep_page r (get_classification_index c p) (t r))"
proof (cases "home_of c p = r")
  case True
  then have "selective_acquire_page c r p s = Inr s"
    using p home_less [OF p(1)] by (simp add: selective_acquire_page_def peek_home get_homenode_eq page_less)
  then show ?thesis using co True by (simp add: invalidates_refl)
next
  case False
  let ?i = "getCacheIndex c p" and ?k = "keep_page r (get_classification_index c p) (s r)"
  let ?touch = "\<lambda>b. upd r (\<lambda>nd. nd\<lparr>touchedcache := (touchedcache nd)(?i := b)\<rparr>) s"
  define t where "t = (if ?k then ?touch True else upd r (invalidate_entry c ?i p) s)"
  have c0: "coherent_at c r {} {} s" using co by (simp add: coherent_at_empty)
  have ok: "node_ok c {} {} r (s r)" using c0 r by (rule coherent_at_node)
  have sk: "slot_ok c r (s r) ?i" using ok cache_index_less [of p] by (simp add: node_ok_def)
  have q: "dirty (slot c s r p) = CLEAN" "tag (slot c s r p) = p \<or> state (slot c s r p) = INVALID"
      "tag (slot c s r p) = GLOBAL_NULL c \<Longrightarrow> \<not> ?k"
    using p(2) False by (auto simp: acquirable_def)
  have "coherent c t"
  proof (cases ?k)
    case True
    show ?thesis
    proof (cases "state (slot c s r p)")
      case VALID
      then have "?touch True = s" using sk by (intro touch_again) (simp add: slot_ok_def Let_def)
      then show ?thesis using True co by (simp add: t_def)
    next
      case INVALID
      then show ?thesis using touch_coherent [OF co r cache_index_less, of p True] q(3) True by (auto simp: t_def)
    qed
  next
    case nk: False
    show ?thesis
    proof (cases "tag (slot c s r p) = p")
      case True
      then show ?thesis
        using invalidate_coherent [OF c0 r cache_index_less, of p] q(1) nk page_not_null [OF p(1)] by (simp add: t_def coherent_at_empty)
    next
      case other: False
      then have "vprot (s r) p = PROT_NONE" using ok p(1) False by (simp add: node_ok_def pages_ok_def)
      moreover have "(cacheControl (s r) ?i)\<lparr>dirty := CLEAN, state := INVALID\<rparr> = cacheControl (s r) ?i" using q(1,2) other by simp
      ultimately have "upd r (invalidate_entry c ?i p) s = ?touch False"
        by (simp add: upd_def invalidate_entry_def mprotect_page fun_upd_idem)
      then show ?thesis using touch_coherent [OF co r cache_index_less, of p False] q(2) other nk by (auto simp: t_def)
    qed
  qed
  moreover have "invalidates r s t" by (auto simp: t_def invalidates_def upd_def invalidate_entry_def mprotect_def)
  moreover from this have "keep_page r (get_classification_index c p) (t r)" if "cached c t r p"
    using that invalidates_slot(5) [of r s t] by (cases ?k) (auto simp: t_def cached_def invalidate_entry_def mprotect_def)
  moreover have "home_byte c t = home_byte c s"
    by (rule home_byte_cong) (simp add: t_def upd_def invalidate_entry_def mprotect_def)
  moreover have "selective_acquire_page c r p s = Inr t" unfolding t_def using acquire_page_eq [of p r s] p(1) False ok by simp
  ultimately show ?thesis by blast
qed

lemma acquire_pages:
  assumes "coherent c s" and r: "r < numtasks c" and "\<And>p. p \<in> set ps \<Longrightarrow> is_page c p \<and> acquirable c s r p"
  shows "\<exists>t. foldE (selective_acquire_page c r) ps s = Inr t \<and> coherent c t \<and> invalidates r s t \<and> home_byte c t = home_byte c s
     \<and> (\<forall>p \<in> set ps. home_of c p \<noteq> r \<and> cached c t r p \<longrightarrow>
          \<not> dirty_at c t r p \<and> keep_page r (get_classification_index c p) (t r))"
  using assms(1,3)
proof (induction ps arbitrary: s)
  case Nil
  then show ?case by (simp add: invalidates_refl)
next
  case (Cons p ps)
  obtain s1 where s1: "selective_acquire_page c r p s = Inr s1" "coherent c s1" "invalidates r s s1" "home_byte c s1 = home_byte c s"
      "home_of c p \<noteq> r \<and> cached c s1 r p \<longrightarrow> keep_page r (get_classification_index c p) (s1 r)"
    using acquire_page_coherent [OF Cons.prems(1) r] Cons.prems(2) [of p] by auto
  have "is_page c q \<and> acquirable c s1 r q" if "q \<in> set ps" for q
    using Cons.prems(2) [of q] that invalidates_acquirable [OF s1(3)] by simp
  from Cons.IH [OF s1(2) this] obtain t where
    t: "foldE (selective_acquire_page c r) ps s1 = Inr t" "coherent c t" "invalidates r s1 t" "home_byte c t = home_byte c s1" and
    k: "\<forall>q \<in> set ps. home_of c q \<noteq> r \<and> cached c t r q \<longrightarrow> \<not> dirty_at c t r q \<and> keep_page r (get_classification_index c q) (t r)"
    by blast
  have st: "invalidates r s t" using s1(3) t(3) by (rule invalidates_trans)
  have "\<not> dirty_at c t r p \<and> keep_page r (get_classification_index c p) (t r)" if "home_of c p \<noteq> r" "cached c t r p"
  proof -
    have "dirty (slot c s r p) = CLEAN" using Cons.prems(2) [of p] that(1) by (simp add: acquirable_def)
    then have "\<not> dirty_at c t r p" using invalidates_slot(4) [OF st] by (simp add: dirty_at_def)
    moreover have "cached c s1 r p" using that(2) invalidates_slot(2) [OF t(3), of "getCacheIndex c p"] by (auto simp: cached_def)
    ultimately show ?thesis using s1(5) that(1) invalidates_slot(5) [OF t(3)] by simp
  qed
  then show ?case using s1(1,4) t st k by auto
qed

section \<open>Handing data over with a range\<close>

lemma wrote_back_acquirable:
  assumes "wrote_back c w X s t" and "n \<noteq> w" and "acquirable c s n p"
  shows "acquirable c t n p"
proof -
  have "cacheControl (t n) = cacheControl (s n)" "globalSharers (t n) = globalSharers (s n)"
    using assms(1,2) by (simp_all add: wrote_back_def same_local_def)
  then show ?thesis using assms(3) keep_page_cong [of "t n" "s n"] by (simp add: acquirable_def)
qed

lemma selective_handover:
  assumes co: "coherent c s" and w: "w < numtasks c" and n: "n < numtasks c" "n \<noteq> w"
    and st: "PAGE_SIZE c dvd startAddr c" "startAddr c + size_of_all c < 2 ^ 64" and rg: "x0 + sz \<le> size_of_all c" "x0 \<le> x" "x < x0 + sz"
    and rel: "\<forall>p \<in> set (selective_pages c (startAddr c + x0) sz). releasable c s w p"
    and acq: "\<forall>p \<in> set (selective_pages c (startAddr c + x0) sz). acquirable c s n p"
    and v: "load_byte c w x s = Some v" and pub: "published c s w (page_of c x) (x mod PAGE_SIZE c)"
  shows "\<exists>s1 s2 s3. selective_release E c w (startAddr c + x0) sz s = Inr s1
     \<and> selective_acquire c n (startAddr c + x0) sz s1 = Inr s2 \<and> read_byte E c n x s2 = Inr (Some v, s3)"
proof -
  let ?ps = "selective_pages c (startAddr c + x0) sz" and ?a = "page_of c x" and ?j = "x mod PAGE_SIZE c"
  have sz: "0 < sz" and x: "x < size_of_all c" using rg by linarith+
  note pgs = selective_pages_range [OF st rg(1) sz] and sp = address_split [OF x]
  have a: "?a \<in> set ?ps" using pgs(2) rg by blast
  obtain s1 where s1: "foldE (selective_release_page E c w) ?ps s = Inr s1" "coherent c s1"
      "wrote_back c w (dirty_slots c s w (set ?ps)) s s1"
    using release_pages [OF co w, of ?ps] pgs(1) rel by blast
  have v1: "home_byte c s1 ?a ?j = v"
    by (rule written_back_publishes [OF co w x v pub s1(3)]) (use a in \<open>simp add: dirty_slots_def\<close>)
  obtain s2 where s2: "foldE (selective_acquire_page c n) ?ps s1 = Inr s2" "coherent c s2" "home_byte c s2 = home_byte c s1"
      "\<forall>p \<in> set ?ps. home_of c p \<noteq> n \<and> cached c s2 n p \<longrightarrow> \<not> dirty_at c s2 n p \<and> keep_page n (get_classification_index c p) (s2 n)"
    using acquire_pages [OF s1(2) n(1), of ?ps] pgs(1) acq wrote_back_acquirable [OF s1(3) n(2)] by blast
  have "vm_read c (s2 n) x = home_byte c s2 ?a ?j" if "vprot (s2 n) ?a \<noteq> PROT_NONE"
    using vm_read_cases [OF s2(2) n(1) x that] kept_fresh [OF s2(2) n(1) sp(1,3)] s2(4) a by auto
  then have "\<exists>s3. read_byte E c n x s2 = Inr (Some v, s3)"
    using read_byte_home [OF s2(2) n(1) x] v1 s2(3) by simp
  then show ?thesis using s1(1) s2(1) sz by (simp add: selective_release_def selective_acquire_def)
qed

section \<open>A modified page\<close>

text \<open>The write back of a buffer with an entry that is not marked as modified runs into the assertion.\<close>

lemma flush_loop_head:
  assumes "wb_buffer (s r) = i # xs" "dirty (cacheControl (s r) i) = CLEAN" "\<not> cache_locks (s r) i"
  shows "wb_flush_loop E c r s = Some (Inl (Assert_failed ''cacheControl[cache_index].dirty == DIRTY''))"
proof -
  have "pop_write_back E c r s = Inl (Assert_failed ''cacheControl[cache_index].dirty == DIRTY'')"
    using assms by (simp add: pop_write_back_def wb_pop_def write_back_index_def cache_lock_def)
  then show ?thesis using assms(1) by (subst wb_flush_loop.simps) (simp add: wb_empty_def)
qed

lemma flush_loop_clean:
  assumes "i \<in> set (wb_buffer (s r))" "distinct (wb_buffer (s r))" "dirty (cacheControl (s r) i) = CLEAN"
    and "\<forall>k. \<not> cache_locks (s r) k"
    and "\<forall>k \<in> set (wb_buffer (s r)) - {i}. k < cachesize c \<and> slot_ok c r (s r) k \<and> dirty (cacheControl (s r) k) = DIRTY"
  shows "wb_flush_loop E c r s = Some (Inl (Assert_failed ''cacheControl[cache_index].dirty == DIRTY''))"
  using assms
proof (induction "wb_buffer (s r)" arbitrary: s)
  case Nil
  then show ?case by simp
next
  case (Cons x xs)
  note b = Cons.hyps(2) [symmetric]
  show ?case
  proof (cases "x = i")
    case True
    then show ?thesis using flush_loop_head [of s r i xs] b Cons.prems(3,4) by simp
  next
    case False
    then obtain u where u: "pop_write_back E c r s = Inr u" "wrote_back c r {x} s u" "wb_buffer (u r) = xs"
      using pop_dirty_effect [of s r x xs] b Cons.prems(4,5) by auto
    have "wb_flush_loop E c r u = Some (Inl (Assert_failed ''cacheControl[cache_index].dirty == DIRTY''))"
    proof (rule Cons.hyps(1))
      show "\<forall>k \<in> set (wb_buffer (u r)) - {i}. k < cachesize c \<and> slot_ok c r (u r) k \<and> dirty (cacheControl (u r) k) = DIRTY"
      proof
        fix k assume k: "k \<in> set (wb_buffer (u r)) - {i}"
        then have "k \<notin> {x}" and "k \<in> set (wb_buffer (s r)) - {i}" using u(3) b Cons.prems(2) by auto
        then show "k < cachesize c \<and> slot_ok c r (u r) k \<and> dirty (cacheControl (u r) k) = DIRTY"
          using wrote_back_slot_ok [OF u(2), of k] Cons.prems(5) u(2) by (auto simp: wrote_back_def)
      qed
    qed (use b u Cons.prems False in \<open>auto simp: wrote_back_def same_local_def\<close>)
    then show ?thesis using u(1) b by (subst wb_flush_loop.simps) (simp add: wb_empty_def)
  qed
qed

text \<open>
  An acquire of a modified page that other nodes write: the entry is invalidated with the
  modification in it, and stays in the write buffer.
\<close>

lemma acquire_dirty_page:
  assumes co: "coherent c s" and r: "r < numtasks c" and p: "is_page c p" "home_of c p \<noteq> r" and d: "dirty_at c s r p"
    and nk: "\<not> keep_page r (get_classification_index c p) (s r)"
  shows "\<exists>t. selective_acquire_page c r p s = Inr t \<and> vprot (t r) p = PROT_NONE \<and> home_byte c t = home_byte c s
     \<and> argo_release E c r t = Inl (Assert_failed ''cacheControl[cache_index].dirty == DIRTY'')"
proof -
  let ?i = "getCacheIndex c p"
  define t where "t = upd r (invalidate_entry c ?i p) s"
  have ok: "node_ok c {} {} r (s r)" using co r by (simp add: coherent_def)
  have bi: "?i \<in> set (wb_buffer (s r))" by (rule buffered [OF co r d])
  have dk: "k < cachesize c \<and> slot_ok c r (s r) k \<and> dirty (cacheControl (s r) k) = DIRTY" if "k \<in> set (wb_buffer (s r))" for k
    using ok that by (auto simp: node_ok_def buffer_ok_def)
  have "slot_ok c r (t r) k" if "k \<in> set (wb_buffer (s r))" "k \<noteq> ?i" for k
  proof -
    have "tag (cacheControl (s r) k) \<noteq> p" using dk [OF that(1)] that(2) page_not_null [OF p(1)] by (auto simp: slot_ok_def Let_def)
    then show ?thesis using dk [OF that(1)] that(2) by (auto simp: t_def invalidate_entry_def mprotect_page slot_ok_def Let_def)
  qed
  then have "wb_flush_loop E c r t = Some (Inl (Assert_failed ''cacheControl[cache_index].dirty == DIRTY''))"
    using bi dk ok by (intro flush_loop_clean [of ?i])
      (auto simp: t_def invalidate_entry_def mprotect_page node_ok_def buffer_ok_def)
  moreover have "home_byte c t = home_byte c s"
    by (rule home_byte_cong) (simp add: t_def upd_def invalidate_entry_def mprotect_def)
  moreover have "selective_acquire_page c r p s = Inr t"
    using acquire_page_eq [of p r s] p ok nk by (simp add: t_def)
  moreover have "vprot (t r) p = PROT_NONE" by (simp add: t_def invalidate_entry_def mprotect_page)
  ultimately show ?thesis by (simp add: argo_release_def wb_flush_def delegate wb_flush_locked_def)
qed

end

end
