(* ===== verification/Handler_Races.thy ===== *)
theory Handler_Races
  imports Selective_Coherence
begin

text \<open>
  Two ways to leave an entry in the write buffer that is not marked as modified, after which every flush of
  the node fails its assertion. The page fault handler releases the cache lock of a page it has marked as
  modified before it adds the page to the write buffer: another thread of the node can write the page
  back in between. And \<^verbatim>\<open>argo_reset_coherence\<close> clears the marks but not the buffer.
\<close>

context dsm
begin

section \<open>Between the cache lock and the write buffer\<close>

lemma handler_locked_write:
  assumes co: "coherent c s" and r: "r < numtasks c" and x: "x < size_of_all c"
    and h: "home_of c (page_of c x) \<noteq> r" and nd: "\<not> dirty_at c s r (page_of c x)"
  shows "\<exists>u. handler_locked E c r x write_access s = Inr (True, u)
     \<and> coherent_at c r {} {getCacheIndex c (page_of c x)} u \<and> dirty_at c u r (page_of c x)"
proof -
  let ?a = "page_of c x" and ?i = "getCacheIndex c (page_of c x)"
  have a: "is_page c ?a" by (rule address_split(1) [OF x])
  have c0: "coherent_at c r {} {} s" using co by (simp add: coherent_at_empty)
  define s1 where "s1 = upd r (\<lambda>nd. nd\<lparr>cache_locks := (cache_locks nd)(?i := True)\<rparr>) s"
  have c1: "coherent_at c r {?i} {} s1" using locks_coherent(1) [OF c0 r] by (simp add: s1_def)
  have lk: "cache_lock r ?i s = Inr s1"
    using coherent_at_node [OF c0 r] by (simp add: cache_lock_def node_ok_def s1_def)
  have "\<not> dirty_at c s1 r ?a" using nd by (simp add: s1_def dirty_at_def)
  with handler_remote_effect [OF c1 r a h, of write_access] show ?thesis
    using lk h a by (auto simp: handler_locked_def Let_def get_homenode_eq get_offset_eq page_less)
qed

lemma buffer_length:
  assumes "node_ok c L D r nd"
  shows "length (wb_buffer nd) \<le> cachesize c"
proof -
  have "distinct (wb_buffer nd)" "set (wb_buffer nd) \<subseteq> {..<cachesize c}" using assms by (auto simp: node_ok_def buffer_ok_def)
  then show ?thesis using card_mono [of "{..<cachesize c}" "set (wb_buffer nd)"] by (simp add: distinct_card)
qed

lemma fault_window:
  assumes co: "coherent_at c r {} {getCacheIndex c p} u" and r: "r < numtasks c" and p: "is_page c p" "home_of c p \<noteq> r"
    and d: "dirty_at c u r p" and room: "length (wb_buffer (u r)) < wb_max_size c"
  shows "\<exists>v w. selective_release_page E c r p u = Inr v \<and> wb_add E c r (getCacheIndex c p) v = Inr w
     \<and> argo_release E c r w = Inl (Assert_failed ''cacheControl[cache_index].dirty == DIRTY'')"
proof -
  let ?i = "getCacheIndex c p"
  have ok: "node_ok c {} {?i} r (u r)" using co r by (rule coherent_at_node)
  have i: "?i \<notin> set (wb_buffer (u r))" and db: "distinct (wb_buffer (u r))" using ok by (auto simp: node_ok_def buffer_ok_def)
  obtain v where v: "selective_release_page E c r p u = Inr v" "wrote_back c r {?i} u v"
      "wb_buffer (v r) = remove1 ?i (wb_buffer (u r))"
    using release_dirty_page [OF p ok d] by blast
  have bv: "wb_buffer (v r) = wb_buffer (u r)" using v(3) i by (simp add: remove1_idem)
  define w where "w = upd r (\<lambda>nd. (wb_emplace_back ?i nd)\<lparr>wb_page_count := add64 (wb_page_count nd) 1\<rparr>) v"
  have "wb_add E c r ?i v = Inr w"
    using room i by (simp add: wb_add_def delegate wb_add_locked_def wb_has_def bv w_def)
  moreover have "wb_flush_loop E c r w = Some (Inl (Assert_failed ''cacheControl[cache_index].dirty == DIRTY''))"
  proof (rule flush_loop_clean [of ?i])
    show "\<forall>k \<in> set (wb_buffer (w r)) - {?i}. k < cachesize c \<and> slot_ok c r (w r) k \<and> dirty (cacheControl (w r) k) = DIRTY"
    proof
      fix k assume k: "k \<in> set (wb_buffer (w r)) - {?i}"
      then have kb: "k \<in> set (wb_buffer (u r))" "k \<noteq> ?i" by (auto simp: w_def wb_emplace_back_def bv)
      then have ku: "k < cachesize c" "slot_ok c r (u r) k" "dirty (cacheControl (u r) k) = DIRTY"
        using ok by (auto simp: node_ok_def buffer_ok_def)
      have "slot_ok c r (v r) k" using wrote_back_slot_ok [OF v(2)] kb(2) ku(2) by simp
      then have "slot_ok c r (w r) k" using slot_ok_cong [of "w r" k "v r" c r] by (simp add: w_def wb_emplace_back_def)
      moreover have "cacheControl (w r) k = cacheControl (u r) k" using v(2) kb(2) by (simp add: wrote_back_def w_def wb_emplace_back_def)
      ultimately show "k < cachesize c \<and> slot_ok c r (w r) k \<and> dirty (cacheControl (w r) k) = DIRTY" using ku by simp
    qed
  qed (use v(2) bv i db ok in \<open>auto simp: w_def wb_emplace_back_def wrote_back_def same_local_def node_ok_def\<close>)
  ultimately show ?thesis
    using v(1) by (auto simp: argo_release_def wb_flush_def delegate wb_flush_locked_def)
qed

section \<open>Reset with modified pages\<close>

lemma reset_nodes:
  defines "R \<equiv> \<lambda>ns s. fold (\<lambda>n. upd n (reset_node c)) ns s"
  shows "wb_buffer (R ns s q) = wb_buffer (s q)" and "cache_locks (R ns s q) = cache_locks (s q)"
    and "i < cachesize c \<Longrightarrow> q \<in> set ns \<or> dirty (cacheControl (s q) i) = CLEAN \<Longrightarrow> dirty (cacheControl (R ns s q) i) = CLEAN"
  unfolding R_def by (induction ns arbitrary: s) (auto simp: upd_def reset_node_def)

lemma flush_clean_nodes:
  assumes "\<And>q i. q \<in> set ns \<Longrightarrow> i \<in> set (wb_buffer (s q)) \<Longrightarrow> dirty (cacheControl (s q) i) = CLEAN \<and> \<not> cache_locks (s q) i"
    and "r \<in> set ns" "wb_buffer (s r) \<noteq> []"
  shows "foldE (wb_flush E c) ns s = Inl (Assert_failed ''cacheControl[cache_index].dirty == DIRTY'')"
  using assms
proof (induction ns)
  case (Cons q ns)
  show ?case
  proof (cases "wb_buffer (s q)")
    case Nil
    then have "wb_flush E c q s = Inr s"
      by (simp add: wb_flush_def delegate wb_flush_locked_def wb_flush_loop.simps wb_empty_def)
    moreover have "r \<in> set ns" using Cons.prems(2,3) Nil by auto
    ultimately show ?thesis using Cons.IH Cons.prems(1,3) by simp
  next
    case buf: (Cons i xs)
    then have "wb_flush E c q s = Inl (Assert_failed ''cacheControl[cache_index].dirty == DIRTY'')"
      using flush_loop_head [of s q i xs] Cons.prems(1) [of q i] by (simp add: wb_flush_def delegate wb_flush_locked_def)
    then show ?thesis by simp
  qed
qed simp

lemma reset_coherence_dirty:
  assumes co: "coherent c s" and N: "1 < numtasks c" and ns: "set ns = {..<numtasks c}" and r: "r < numtasks c" and d: "dirty_at c s r p"
  shows "argo_reset_coherence E c ns s = Inl (Assert_failed ''cacheControl[cache_index].dirty == DIRTY'')"
proof -
  let ?s = "fold (\<lambda>n. upd n (reset_node c)) ns s"
  have ok: "node_ok c {} {} q (s q)" if "q < numtasks c" for q using co that by (simp add: coherent_def)
  have "foldE (wb_flush E c) ns ?s = Inl (Assert_failed ''cacheControl[cache_index].dirty == DIRTY'')"
  proof (rule flush_clean_nodes [of _ _ r])
    fix q i assume q: "q \<in> set ns" "i \<in> set (wb_buffer (?s q))"
    then have "i < cachesize c" "\<not> cache_locks (s q) i" using ok [of q] ns by (auto simp: node_ok_def buffer_ok_def reset_nodes(1))
    then show "dirty (cacheControl (?s q) i) = CLEAN \<and> \<not> cache_locks (?s q) i" using reset_nodes(2,3) q(1) by simp
  next
    show "r \<in> set ns" using ns r by simp
    show "wb_buffer (?s r) \<noteq> []" using buffered [OF co r d] unfolding reset_nodes(1) by (cases "wb_buffer (s r)") simp_all
  qed
  then show ?thesis using N by (simp add: argo_reset_coherence_def swdsm_argo_barrier_def Let_def)
qed

end

end
