(* ===== verification/Mpi_Lock.thy ===== *)
theory Mpi_Lock
  imports Complex_Main Argo_Prelude
begin

text \<open>
  The lock around an access epoch of an MPI window, \<^verbatim>\<open>src/backend/mpi/mpi_lock.cpp\<close>. A process may have one
  epoch open for a window and a target, so the threads of a node take a spin lock before they call
  \<^verbatim>\<open>MPI_Win_lock\<close>. The model has one window with one target: every node has an \<open>mpi_lock\<close> object for it, and
  the threads of all nodes take their steps in any order. A step ends with a call that other threads
  can see. The values of \<^verbatim>\<open>MPI_Wtime\<close> are arguments of the steps; times are real numbers.
\<close>

section \<open>The object\<close>

record mpi_lock =
  local_lock :: bool
  num_locks :: int
  local_lock_time :: real
  max_local_lock_time :: real
  local_hold_time :: real
  max_local_hold_time :: real
  local_acquire_time :: real
  local_release_time :: real
  mpi_lock_time :: real
  max_mpi_lock_time :: real
  mpi_unlock_time :: real
  max_mpi_unlock_time :: real
  mpi_hold_time :: real
  max_mpi_hold_time :: real
  mpi_acquire_time :: real
  mpi_release_time :: real

definition mpi_lock_new :: mpi_lock where
  "mpi_lock_new = \<lparr>local_lock = False, num_locks = 0, local_lock_time = 0, max_local_lock_time = 0,
     local_hold_time = 0, max_local_hold_time = 0, local_acquire_time = 0, local_release_time = 0,
     mpi_lock_time = 0, max_mpi_lock_time = 0, mpi_unlock_time = 0, max_mpi_unlock_time = 0,
     mpi_hold_time = 0, max_mpi_hold_time = 0, mpi_acquire_time = 0, mpi_release_time = 0\<rparr>"

definition reset_stats :: "mpi_lock \<Rightarrow> mpi_lock" where
  "reset_stats L = L\<lparr>num_locks := 0, local_lock_time := 0, max_local_lock_time := 0, local_hold_time := 0,
     max_local_hold_time := 0, mpi_lock_time := 0, max_mpi_lock_time := 0, mpi_unlock_time := 0,
     max_mpi_unlock_time := 0, mpi_hold_time := 0, max_mpi_hold_time := 0\<rparr>"

text \<open>The assignments of \<^verbatim>\<open>lock\<close> after the two locks are taken, and those of \<^verbatim>\<open>unlock\<close> before the spin lock is released.\<close>

definition lock_stats :: "real \<Rightarrow> real \<Rightarrow> real \<Rightarrow> real \<Rightarrow> mpi_lock \<Rightarrow> mpi_lock" where
  "lock_stats local_start local_end mpi_start mpi_end L =
     L\<lparr>mpi_acquire_time := mpi_end, num_locks := num_locks L + 1,
       max_local_lock_time := (if local_end - local_start > max_local_lock_time L then local_end - local_start
                               else max_local_lock_time L),
       max_mpi_lock_time := (if mpi_end - mpi_start > max_mpi_lock_time L then mpi_end - mpi_start
                             else max_mpi_lock_time L),
       mpi_lock_time := mpi_lock_time L + (mpi_end - mpi_start),
       local_lock_time := local_lock_time L + (local_end - local_start)\<rparr>"

definition unlock_stats :: "real \<Rightarrow> real \<Rightarrow> real \<Rightarrow> mpi_lock \<Rightarrow> mpi_lock" where
  "unlock_stats mpi_start mpi_end now L =
     (let mpi_hold = mpi_end - mpi_acquire_time L; local_hold = now - local_acquire_time L in
      L\<lparr>mpi_release_time := mpi_end,
        mpi_unlock_time := mpi_unlock_time L + (mpi_end - mpi_start),
        mpi_hold_time := mpi_hold_time L + mpi_hold,
        max_mpi_hold_time := (if mpi_hold > max_mpi_hold_time L then mpi_hold else max_mpi_hold_time L),
        local_release_time := now,
        local_hold_time := local_hold_time L + local_hold,
        max_local_hold_time := (if local_hold > max_local_hold_time L then local_hold else max_local_hold_time L)\<rparr>)"

section \<open>The window\<close>

text \<open>
  The lock MPI keeps for the window at its target: the nodes that have an epoch, with its type. A
  node that opens a second epoch, or closes one it has not opened, is in error; an exclusive epoch
  waits for all others, a shared one for an exclusive one.
\<close>

datatype lock_type = MPI_LOCK_SHARED | MPI_LOCK_EXCLUSIVE

type_synonym epochs = "nat \<Rightarrow> lock_type option"

definition compatible :: "lock_type \<Rightarrow> lock_type \<Rightarrow> bool" where
  "compatible a b \<longleftrightarrow> a = MPI_LOCK_SHARED \<and> b = MPI_LOCK_SHARED"

definition grantable :: "nat \<Rightarrow> lock_type \<Rightarrow> epochs \<Rightarrow> bool" where
  "grantable n ty h \<longleftrightarrow> (\<forall>m b. m \<noteq> n \<and> h m = Some b \<longrightarrow> compatible ty b)"

definition MPI_Win_lock :: "nat \<Rightarrow> lock_type \<Rightarrow> epochs \<Rightarrow> argo_error + epochs" where
  "MPI_Win_lock n ty h =
     (if h n \<noteq> None then Inl (Undefined_behaviour ''second epoch on a window'') else Inr (h(n := Some ty)))"

definition MPI_Win_unlock :: "nat \<Rightarrow> epochs \<Rightarrow> argo_error + epochs" where
  "MPI_Win_unlock n h =
     (if h n = None then Inl (Undefined_behaviour ''no epoch on the window'') else Inr (h(n := None)))"

section \<open>The steps of a thread\<close>

text \<open>
  Where a thread is: outside, before the spin lock with the time it has read, before \<^verbatim>\<open>MPI_Win_lock\<close> in
  \<^verbatim>\<open>lock\<close> with its three times or in \<^verbatim>\<open>trylock\<close>, inside the epoch, or before the release of the spin
  lock.
\<close>

datatype ml_pc =
    ML_idle
  | ML_spin lock_type real
  | ML_win lock_type real real real
  | ML_trywin lock_type
  | ML_hold lock_type
  | ML_release

record ml_sys =
  ml_lock :: "nat \<Rightarrow> mpi_lock"
  ml_pcs :: "nat \<Rightarrow> nat \<Rightarrow> ml_pc"
  ml_epochs :: epochs
  ml_clock :: real

definition ml_set :: "nat \<Rightarrow> nat \<Rightarrow> ml_pc \<Rightarrow> mpi_lock \<Rightarrow> real \<Rightarrow> ml_sys \<Rightarrow> ml_sys" where
  "ml_set n t pc L now s =
     s\<lparr>ml_lock := (ml_lock s)(n := L), ml_pcs := (ml_pcs s)(n := (ml_pcs s n)(t := pc)), ml_clock := now\<rparr>"

text \<open>\<^verbatim>\<open>lock\<close>: the time before the spin lock, the spin lock, the window.\<close>

definition ml_lock_start :: "nat \<Rightarrow> nat \<Rightarrow> lock_type \<Rightarrow> real \<Rightarrow> ml_sys \<Rightarrow> ml_sys" where
  "ml_lock_start n t ty local_start s = ml_set n t (ML_spin ty local_start) (ml_lock s n) local_start s"

definition ml_lock_local :: "nat \<Rightarrow> nat \<Rightarrow> lock_type \<Rightarrow> real \<Rightarrow> real \<Rightarrow> real \<Rightarrow> ml_sys \<Rightarrow> ml_sys" where
  "ml_lock_local n t ty local_start local_end mpi_start s =
     ml_set n t (ML_win ty local_start local_end mpi_start)
       ((ml_lock s n)\<lparr>local_lock := True, local_acquire_time := local_end\<rparr>) mpi_start s"

definition ml_lock_window ::
  "nat \<Rightarrow> nat \<Rightarrow> lock_type \<Rightarrow> real \<Rightarrow> real \<Rightarrow> real \<Rightarrow> real \<Rightarrow> ml_sys \<Rightarrow> argo_error + ml_sys" where
  "ml_lock_window n t ty local_start local_end mpi_start mpi_end s =
     bindE (MPI_Win_lock n ty (ml_epochs s)) (\<lambda>h.
       Inr (ml_set n t (ML_hold ty) (lock_stats local_start local_end mpi_start mpi_end (ml_lock s n)) mpi_end
              (s\<lparr>ml_epochs := h\<rparr>)))"

text \<open>\<^verbatim>\<open>trylock\<close>: the result says whether the spin lock was free.\<close>

definition ml_trylock :: "nat \<Rightarrow> nat \<Rightarrow> lock_type \<Rightarrow> real \<Rightarrow> ml_sys \<Rightarrow> bool \<times> ml_sys" where
  "ml_trylock n t ty now s =
     (if local_lock (ml_lock s n) then (False, s)
      else (True, ml_set n t (ML_trywin ty) ((ml_lock s n)\<lparr>local_lock := True, local_acquire_time := now\<rparr>) now s))"

definition ml_trylock_window :: "nat \<Rightarrow> nat \<Rightarrow> lock_type \<Rightarrow> real \<Rightarrow> ml_sys \<Rightarrow> argo_error + ml_sys" where
  "ml_trylock_window n t ty now s =
     bindE (MPI_Win_lock n ty (ml_epochs s)) (\<lambda>h.
       Inr (ml_set n t (ML_hold ty) ((ml_lock s n)\<lparr>mpi_acquire_time := now\<rparr>) now (s\<lparr>ml_epochs := h\<rparr>)))"

text \<open>\<^verbatim>\<open>unlock\<close>: the window, then the spin lock.\<close>

definition ml_unlock_window :: "nat \<Rightarrow> nat \<Rightarrow> real \<Rightarrow> real \<Rightarrow> real \<Rightarrow> ml_sys \<Rightarrow> argo_error + ml_sys" where
  "ml_unlock_window n t mpi_start mpi_end now s =
     bindE (MPI_Win_unlock n (ml_epochs s)) (\<lambda>h.
       Inr (ml_set n t ML_release (unlock_stats mpi_start mpi_end now (ml_lock s n)) now (s\<lparr>ml_epochs := h\<rparr>)))"

definition ml_unlock_local :: "nat \<Rightarrow> nat \<Rightarrow> ml_sys \<Rightarrow> ml_sys" where
  "ml_unlock_local n t s = ml_set n t ML_idle ((ml_lock s n)\<lparr>local_lock := False\<rparr>) (ml_clock s) s"

definition ml_reset_stats :: "nat \<Rightarrow> ml_sys \<Rightarrow> ml_sys" where
  "ml_reset_stats n s = s\<lparr>ml_lock := (ml_lock s)(n := reset_stats (ml_lock s n))\<rparr>"

text \<open>
  The interleaved system. A thread inside the epoch, and no other, calls \<^verbatim>\<open>unlock\<close>; the clock never
  runs backwards; \<^verbatim>\<open>reset_stats\<close> may come at any time.
\<close>

inductive ml_step :: "ml_sys \<Rightarrow> argo_error + ml_sys \<Rightarrow> bool" where
  start: "ml_pcs s n t = ML_idle \<Longrightarrow> ml_clock s \<le> a \<Longrightarrow> ml_step s (Inr (ml_lock_start n t ty a s))"
| spin: "ml_pcs s n t = ML_spin ty a \<Longrightarrow> \<not> local_lock (ml_lock s n) \<Longrightarrow> ml_clock s \<le> b \<Longrightarrow> b \<le> d \<Longrightarrow>
    ml_step s (Inr (ml_lock_local n t ty a b d s))"
| window: "ml_pcs s n t = ML_win ty a b d \<Longrightarrow> grantable n ty (ml_epochs s) \<Longrightarrow> ml_clock s \<le> e \<Longrightarrow>
    ml_step s (ml_lock_window n t ty a b d e s)"
| trylock: "ml_pcs s n t = ML_idle \<Longrightarrow> ml_clock s \<le> a \<Longrightarrow> ml_step s (Inr (snd (ml_trylock n t ty a s)))"
| trywin: "ml_pcs s n t = ML_trywin ty \<Longrightarrow> grantable n ty (ml_epochs s) \<Longrightarrow> ml_clock s \<le> a \<Longrightarrow>
    ml_step s (ml_trylock_window n t ty a s)"
| unlock: "ml_pcs s n t = ML_hold ty \<Longrightarrow> ml_clock s \<le> a \<Longrightarrow> a \<le> b \<Longrightarrow> b \<le> d \<Longrightarrow>
    ml_step s (ml_unlock_window n t a b d s)"
| release: "ml_pcs s n t = ML_release \<Longrightarrow> ml_step s (Inr (ml_unlock_local n t s))"
| reset: "ml_step s (Inr (ml_reset_stats n s))"

abbreviation ml_next :: "ml_sys \<Rightarrow> ml_sys \<Rightarrow> bool" where
  "ml_next s s' \<equiv> ml_step s (Inr s')"

definition ml_init :: ml_sys where
  "ml_init = \<lparr>ml_lock = (\<lambda>_. mpi_lock_new), ml_pcs = (\<lambda>_ _. ML_idle), ml_epochs = (\<lambda>_. None), ml_clock = 0\<rparr>"

section \<open>The invariant\<close>

text \<open>The thread that owns the spin lock.\<close>

fun owns_local :: "ml_pc \<Rightarrow> bool" where
  "owns_local ML_idle = False"
| "owns_local (ML_spin _ _) = False"
| "owns_local _ = True"

fun held_type :: "ml_pc \<Rightarrow> lock_type option" where
  "held_type (ML_hold ty) = Some ty"
| "held_type _ = None"

definition node_owner :: "(nat \<Rightarrow> ml_pc) \<Rightarrow> mpi_lock \<Rightarrow> lock_type option \<Rightarrow> bool" where
  "node_owner pcs L e \<longleftrightarrow>
     (if local_lock L then \<exists>t. owns_local (pcs t) \<and> (\<forall>u. owns_local (pcs u) \<longrightarrow> u = t) \<and> e = held_type (pcs t)
      else (\<forall>t. \<not> owns_local (pcs t)) \<and> e = None)"

text \<open>The epochs open at the same time are shared.\<close>

definition epochs_ok :: "epochs \<Rightarrow> bool" where
  "epochs_ok h \<longleftrightarrow> (\<forall>n m a b. n \<noteq> m \<and> h n = Some a \<and> h m = Some b \<longrightarrow> compatible a b)"

text \<open>The recorded times.\<close>

fun pc_times :: "ml_pc \<Rightarrow> real \<Rightarrow> mpi_lock \<Rightarrow> bool" where
  "pc_times ML_idle now L = True"
| "pc_times (ML_spin _ a) now L = (a \<le> now)"
| "pc_times (ML_win _ a b d) now L = (a \<le> b \<and> b \<le> d \<and> d \<le> now \<and> local_acquire_time L = b)"
| "pc_times (ML_trywin _) now L = (local_acquire_time L \<le> now)"
| "pc_times (ML_hold _) now L = (local_acquire_time L \<le> mpi_acquire_time L \<and> mpi_acquire_time L \<le> now)"
| "pc_times ML_release now L = True"

definition stats_ok :: "mpi_lock \<Rightarrow> bool" where
  "stats_ok L \<longleftrightarrow> 0 \<le> num_locks L \<and> 0 \<le> max_local_lock_time L \<and> max_local_lock_time L \<le> local_lock_time L
     \<and> 0 \<le> max_mpi_lock_time L \<and> max_mpi_lock_time L \<le> mpi_lock_time L
     \<and> 0 \<le> mpi_unlock_time L \<and> max_mpi_unlock_time L = 0
     \<and> 0 \<le> max_mpi_hold_time L \<and> max_mpi_hold_time L \<le> mpi_hold_time L \<and> mpi_hold_time L \<le> local_hold_time L
     \<and> max_mpi_hold_time L \<le> max_local_hold_time L \<and> max_local_hold_time L \<le> local_hold_time L"

definition ml_inv :: "ml_sys \<Rightarrow> bool" where
  "ml_inv s \<longleftrightarrow> epochs_ok (ml_epochs s)
     \<and> (\<forall>n. node_owner (ml_pcs s n) (ml_lock s n) (ml_epochs s n) \<and> stats_ok (ml_lock s n)
            \<and> (\<forall>t. pc_times (ml_pcs s n t) (ml_clock s) (ml_lock s n)))"


lemma pc_times_mono: "pc_times pc now L \<Longrightarrow> now \<le> now' \<Longrightarrow> \<not> owns_local pc \<or> L' = L \<Longrightarrow> pc_times pc now' L'"
  by (cases pc) auto

lemma ml_set_simps [simp]:
  "ml_lock (ml_set n t pc L now s) m = (if m = n then L else ml_lock s m)"
  "ml_pcs (ml_set n t pc L now s) m = (if m = n then (ml_pcs s n)(t := pc) else ml_pcs s m)"
  "ml_epochs (ml_set n t pc L now s) = ml_epochs s"
  "ml_clock (ml_set n t pc L now s) = now"
  by (simp_all add: ml_set_def)

lemma ml_invD:
  assumes "ml_inv s"
  shows "epochs_ok (ml_epochs s)" and "node_owner (ml_pcs s n) (ml_lock s n) (ml_epochs s n)"
    and "stats_ok (ml_lock s n)" and "pc_times (ml_pcs s n t) (ml_clock s) (ml_lock s n)"
  using assms by (auto simp: ml_inv_def)

text \<open>A step of thread \<open>t\<close> of node \<open>n\<close> keeps the invariant when it does so on its own node.\<close>

lemma ml_inv_set:
  assumes "ml_inv s" and "ml_clock s \<le> now" and "epochs_ok h" and "\<And>m. m \<noteq> n \<Longrightarrow> h m = ml_epochs s m"
    and "node_owner ((ml_pcs s n)(t := pc)) L (h n)" and "stats_ok L" and "pc_times pc now L"
    and "\<And>u. u \<noteq> t \<Longrightarrow> owns_local (ml_pcs s n u) \<Longrightarrow> L = ml_lock s n"
  shows "ml_inv (ml_set n t pc L now (s\<lparr>ml_epochs := h\<rparr>))"
proof -
  have "pc_times (ml_pcs s m u) now (ml_lock s m)" for m u
    by (rule pc_times_mono [OF ml_invD(4) [OF assms(1)] assms(2)]) simp
  moreover have "pc_times (ml_pcs s n u) now L" if "u \<noteq> t" for u
    by (rule pc_times_mono [OF ml_invD(4) [OF assms(1)] assms(2)]) (use assms(8) [OF that] in blast)
  ultimately show ?thesis
    using assms ml_invD [OF assms(1)] by (auto simp: ml_inv_def)
qed

lemma node_owner_unique:
  assumes "node_owner pcs L e" and "owns_local (pcs t)"
  shows "owns_local (pcs u) \<longleftrightarrow> u = t" and "local_lock L" and "e = held_type (pcs t)"
  using assms by (auto simp: node_owner_def split: if_split_asm)

lemma node_owner_owned:
  "local_lock L \<Longrightarrow> owns_local (pcs t) \<Longrightarrow> (\<And>u. u \<noteq> t \<Longrightarrow> \<not> owns_local (pcs u)) \<Longrightarrow> e = held_type (pcs t) \<Longrightarrow>
     node_owner pcs L e"
  unfolding node_owner_def by auto

lemma node_owner_free: "node_owner pcs L e \<Longrightarrow> \<not> local_lock L \<Longrightarrow> \<not> owns_local (pcs t) \<and> e = None"
  by (simp add: node_owner_def)

lemma node_owner_enter:
  assumes "node_owner pcs L e" and "\<not> owns_local (pcs t)" and "\<not> owns_local pc"
  shows "node_owner (pcs(t := pc)) L e"
proof (cases "local_lock L")
  case True
  then obtain u where u: "owns_local (pcs u)" using assms(1) by (auto simp: node_owner_def)
  note o = node_owner_unique [OF assms(1) u]
  show ?thesis by (rule node_owner_owned [where t = u]) (use assms u o in auto)
next
  case False
  then show ?thesis using assms by (simp add: node_owner_def)
qed

lemma node_owner_take:
  assumes "node_owner pcs L e" and "\<not> local_lock L" and "local_lock L'" and "owns_local pc" and "held_type pc = None"
  shows "node_owner (pcs(t := pc)) L' e"
  by (rule node_owner_owned [where t = t]) (use assms node_owner_free [OF assms(1,2)] in auto)

lemma node_owner_move:
  assumes "node_owner pcs L e" and "owns_local (pcs t)" and "local_lock L' = local_lock L" and "owns_local pc"
  shows "node_owner (pcs(t := pc)) L' (held_type pc)"
  by (rule node_owner_owned [where t = t]) (use assms node_owner_unique [OF assms(1,2)] in auto)

lemma node_owner_leave:
  assumes "node_owner pcs L e" and "owns_local (pcs t)" and "\<not> local_lock L'" and "\<not> owns_local pc"
  shows "node_owner (pcs(t := pc)) L' None"
  using assms node_owner_unique [OF assms(1,2)] by (simp add: node_owner_def)

lemma epochs_ok_upd:
  assumes "epochs_ok h"
  shows "epochs_ok (h(n := None))" and "grantable n ty h \<Longrightarrow> epochs_ok (h(n := Some ty))"
  using assms by (auto simp: epochs_ok_def grantable_def compatible_def)

lemma stats_ok_lock:
  assumes "stats_ok L" and "a \<le> b" and "b \<le> d" and "d \<le> e"
  shows "stats_ok (lock_stats a b d e L)"
  using assms by (auto simp: stats_ok_def lock_stats_def)

lemma stats_ok_unlock:
  assumes "stats_ok L" and "local_acquire_time L \<le> mpi_acquire_time L" and "mpi_acquire_time L \<le> a"
    and "a \<le> b" and "b \<le> d"
  shows "stats_ok (unlock_stats a b d L)"
  using assms by (auto simp: stats_ok_def unlock_stats_def Let_def)

lemma stats_ok_frame: "stats_ok L \<Longrightarrow> stats_ok (L\<lparr>local_lock := x, local_acquire_time := y\<rparr>)"
   "stats_ok L \<Longrightarrow> stats_ok (L\<lparr>mpi_acquire_time := y\<rparr>)" "stats_ok L \<Longrightarrow> stats_ok (L\<lparr>local_lock := x\<rparr>)"
  by (simp_all add: stats_ok_def)

section \<open>Every step keeps the invariant\<close>

lemma ml_inv_enter:
  assumes i: "ml_inv s" and pc: "ml_pcs s n t = ML_idle" and c: "ml_clock s \<le> a"
  shows "ml_inv (ml_lock_start n t ty a s)"
  using ml_inv_set [OF i c ml_invD(1) [OF i] refl, of n t "ML_spin ty a" "ml_lock s n"]
    node_owner_enter [OF ml_invD(2) [OF i], of n t "ML_spin ty a"] ml_invD(3) [OF i] pc
  by (simp add: ml_lock_start_def)

lemma ml_inv_take:
  assumes i: "ml_inv s" and free: "\<not> local_lock (ml_lock s n)" and c: "ml_clock s \<le> now"
    and pc: "owns_local pc" "held_type pc = None"
    and tm: "pc_times pc now ((ml_lock s n)\<lparr>local_lock := True, local_acquire_time := b\<rparr>)"
  shows "ml_inv (ml_set n t pc ((ml_lock s n)\<lparr>local_lock := True, local_acquire_time := b\<rparr>) now s)"
proof -
  have "node_owner ((ml_pcs s n)(t := pc)) ((ml_lock s n)\<lparr>local_lock := True, local_acquire_time := b\<rparr>) (ml_epochs s n)"
    by (rule node_owner_take [OF ml_invD(2) [OF i]]) (use free pc in simp_all)
  from ml_inv_set [OF i c ml_invD(1) [OF i] refl this stats_ok_frame(1) [OF ml_invD(3) [OF i]] tm]
  show ?thesis using node_owner_free [OF ml_invD(2) [OF i] free] by simp
qed

lemma ml_inv_hold:
  assumes i: "ml_inv s" and own: "owns_local (ml_pcs s n t)" and g: "grantable n ty (ml_epochs s)"
    and c: "ml_clock s \<le> now" and L: "local_lock L" "stats_ok L" "pc_times (ML_hold ty) now L"
  shows "ml_inv (ml_set n t (ML_hold ty) L now (s\<lparr>ml_epochs := (ml_epochs s)(n := Some ty)\<rparr>))"
proof -
  note u = node_owner_unique [OF ml_invD(2) [OF i] own]
  have "node_owner ((ml_pcs s n)(t := ML_hold ty)) L (((ml_epochs s)(n := Some ty)) n)"
    using node_owner_move [OF ml_invD(2) [OF i] own, of L "ML_hold ty"] L(1) u(2) by simp
  then show ?thesis
    using u(1) by (intro ml_inv_set [OF i c epochs_ok_upd(2) [OF ml_invD(1) [OF i] g]] L(2,3)) simp_all
qed

lemma ml_win_lock:
  assumes "ml_inv s" and "owns_local (ml_pcs s n t)" and "held_type (ml_pcs s n t) = None"
  shows "MPI_Win_lock n ty (ml_epochs s) = Inr ((ml_epochs s)(n := Some ty))"
  using node_owner_unique(3) [OF ml_invD(2) [OF assms(1)] assms(2)] assms(3) by (simp add: MPI_Win_lock_def)

lemma ml_inv_window:
  assumes i: "ml_inv s" and pc: "ml_pcs s n t = ML_win ty a b d" and g: "grantable n ty (ml_epochs s)" and c: "ml_clock s \<le> e"
  shows "\<exists>s'. ml_lock_window n t ty a b d e s = Inr s' \<and> ml_inv s'"
proof -
  have own: "owns_local (ml_pcs s n t)" by (simp add: pc)
  note tm = ml_invD(4) [OF i, of n t, unfolded pc, simplified]
  have "stats_ok (lock_stats a b d e (ml_lock s n))" using stats_ok_lock [OF ml_invD(3) [OF i]] tm c by simp
  moreover have "local_lock (lock_stats a b d e (ml_lock s n))"
    using node_owner_unique(2) [OF ml_invD(2) [OF i] own] by (simp add: lock_stats_def)
  moreover have "pc_times (ML_hold ty) e (lock_stats a b d e (ml_lock s n))" using tm c by (simp add: lock_stats_def)
  ultimately show ?thesis
    using ml_inv_hold [OF i own g c] ml_win_lock [OF i own] by (simp add: ml_lock_window_def pc)
qed

lemma ml_inv_trywin:
  assumes i: "ml_inv s" and pc: "ml_pcs s n t = ML_trywin ty" and g: "grantable n ty (ml_epochs s)" and c: "ml_clock s \<le> a"
  shows "\<exists>s'. ml_trylock_window n t ty a s = Inr s' \<and> ml_inv s'"
proof -
  have own: "owns_local (ml_pcs s n t)" by (simp add: pc)
  note tm = ml_invD(4) [OF i, of n t, unfolded pc, simplified]
  have "local_lock ((ml_lock s n)\<lparr>mpi_acquire_time := a\<rparr>)"
    using node_owner_unique(2) [OF ml_invD(2) [OF i] own] by simp
  moreover have "pc_times (ML_hold ty) a ((ml_lock s n)\<lparr>mpi_acquire_time := a\<rparr>)" using tm c by simp
  ultimately show ?thesis
    using ml_inv_hold [OF i own g c _ stats_ok_frame(2) [OF ml_invD(3) [OF i]]] ml_win_lock [OF i own]
    by (simp add: ml_trylock_window_def pc)
qed

lemma ml_inv_unlock:
  assumes i: "ml_inv s" and pc: "ml_pcs s n t = ML_hold ty" and c: "ml_clock s \<le> a" "a \<le> b" "b \<le> d"
  shows "\<exists>s'. ml_unlock_window n t a b d s = Inr s' \<and> ml_inv s'"
proof -
  let ?L = "unlock_stats a b d (ml_lock s n)" and ?h = "(ml_epochs s)(n := None)"
  have own: "owns_local (ml_pcs s n t)" by (simp add: pc)
  note u = node_owner_unique [OF ml_invD(2) [OF i] own]
  note tm = ml_invD(4) [OF i, of n t, unfolded pc, simplified]
  have "stats_ok ?L" using stats_ok_unlock [OF ml_invD(3) [OF i]] tm c by simp
  moreover have "node_owner ((ml_pcs s n)(t := ML_release)) ?L (?h n)"
    using node_owner_move [OF ml_invD(2) [OF i] own, of ?L ML_release] by (simp add: unlock_stats_def Let_def)
  ultimately have "ml_inv (ml_set n t ML_release ?L d (s\<lparr>ml_epochs := ?h\<rparr>))"
    using ml_inv_set [OF i _ epochs_ok_upd(1) [OF ml_invD(1) [OF i]], of d n n t ML_release ?L] c u(1) by simp
  then show ?thesis using u(3) by (simp add: ml_unlock_window_def MPI_Win_unlock_def pc)
qed

lemma ml_inv_release:
  assumes i: "ml_inv s" and pc: "ml_pcs s n t = ML_release"
  shows "ml_inv (ml_unlock_local n t s)"
proof -
  let ?L = "(ml_lock s n)\<lparr>local_lock := False\<rparr>"
  have own: "owns_local (ml_pcs s n t)" by (simp add: pc)
  note u = node_owner_unique [OF ml_invD(2) [OF i] own]
  have "node_owner ((ml_pcs s n)(t := ML_idle)) ?L (ml_epochs s n)"
    using node_owner_leave [OF ml_invD(2) [OF i] own, of ?L ML_idle] u(3) by (simp add: pc)
  from ml_inv_set [OF i order_refl ml_invD(1) [OF i] refl this stats_ok_frame(3) [OF ml_invD(3) [OF i]]]
  show ?thesis using u(1) by (simp add: ml_unlock_local_def)
qed

lemma ml_inv_reset: "ml_inv s \<Longrightarrow> ml_inv (ml_reset_stats n s)"
proof -
  assume i: "ml_inv s"
  have "node_owner p (reset_stats L) e = node_owner p L e" "pc_times q now (reset_stats L) = pc_times q now L"
    "stats_ok (reset_stats L)" for p L e q now
    by (simp_all add: node_owner_def reset_stats_def stats_ok_def) (cases q; simp)
  then show ?thesis using i by (simp add: ml_inv_def ml_reset_stats_def)
qed

lemma ml_inv_step:
  assumes "ml_step s r" and i: "ml_inv s"
  shows "\<exists>s'. r = Inr s' \<and> ml_inv s'"
  using assms(1)
proof cases
  case (start n t a ty)
  then show ?thesis using ml_inv_enter [OF i] by simp
next
  case (spin n t ty a b d)
  then show ?thesis
    using ml_inv_take [OF i, of n d "ML_win ty a b d" b t] ml_invD(4) [OF i, of n t] by (simp add: ml_lock_local_def)
next
  case (window n t ty a b d e)
  then show ?thesis using ml_inv_window [OF i] by simp
next
  case (trylock n t a ty)
  then show ?thesis using ml_inv_take [OF i, of n a "ML_trywin ty" a t] i by (simp add: ml_trylock_def)
next
  case (trywin n t ty a)
  then show ?thesis using ml_inv_trywin [OF i] by simp
next
  case (unlock n t ty a b d)
  then show ?thesis using ml_inv_unlock [OF i] by simp
next
  case (release n t)
  then show ?thesis using ml_inv_release [OF i] by simp
next
  case (reset n)
  then show ?thesis using ml_inv_reset [OF i] by simp
qed

lemma ml_inv_init: "ml_inv ml_init"
  by (simp add: ml_inv_def ml_init_def epochs_ok_def node_owner_def stats_ok_def mpi_lock_new_def)

lemma ml_inv_reach: "ml_next\<^sup>*\<^sup>* ml_init s \<Longrightarrow> ml_inv s"
proof (induction rule: rtranclp_induct)
  case base
  show ?case by (rule ml_inv_init)
next
  case (step s t)
  then show ?case using ml_inv_step by fastforce
qed

section \<open>Progress\<close>

text \<open>A step of thread \<open>t\<close> of node \<open>n\<close> is possible.\<close>

definition ml_moves :: "nat \<Rightarrow> nat \<Rightarrow> ml_sys \<Rightarrow> bool" where
  "ml_moves n t s \<longleftrightarrow> ml_pcs s n t \<noteq> ML_idle \<and> (\<exists>s'. ml_next s s' \<and> ml_pcs s' n t \<noteq> ml_pcs s n t)"

lemma held_type_Some [simp]: "held_type pc = Some ty \<longleftrightarrow> pc = ML_hold ty"
  by (cases pc) auto

lemma node_owner_held: "node_owner pcs L (Some ty) \<Longrightarrow> \<exists>t. pcs t = ML_hold ty"
  unfolding node_owner_def by (cases "local_lock L") (simp_all, metis held_type_Some)

lemma ml_moves_hold:
  assumes "ml_inv s" and "ml_pcs s n t = ML_hold ty"
  shows "ml_moves n t s"
proof -
  obtain s' where s': "ml_unlock_window n t (ml_clock s) (ml_clock s) (ml_clock s) s = Inr s'"
    using ml_inv_unlock [OF assms order_refl order_refl order_refl] by blast
  then have "ml_pcs s' n t = ML_release"
    by (auto simp: ml_unlock_window_def bindE_eq_Inr_conv)
  moreover have "ml_next s s'" using ml_step.unlock [OF assms(2), of "ml_clock s" "ml_clock s" "ml_clock s"] s' by simp
  ultimately show ?thesis using assms(2) by (auto simp: ml_moves_def)
qed

lemma ml_moves_window:
  assumes i: "ml_inv s" and pc: "ml_pcs s n t = ML_win ty a b d \<or> ml_pcs s n t = ML_trywin ty"
    and g: "grantable n ty (ml_epochs s)"
  shows "ml_moves n t s"
proof (cases "ml_pcs s n t = ML_trywin ty")
  case True
  obtain s' where s': "ml_trylock_window n t ty (ml_clock s) s = Inr s'" using ml_inv_trywin [OF i True g order_refl] by blast
  then have "ml_pcs s' n t = ML_hold ty" by (auto simp: ml_trylock_window_def bindE_eq_Inr_conv)
  moreover have "ml_next s s'" using ml_step.trywin [OF True g order_refl] s' by simp
  ultimately show ?thesis using True by (auto simp: ml_moves_def)
next
  case False
  then have pc: "ml_pcs s n t = ML_win ty a b d" using pc by simp
  obtain s' where s': "ml_lock_window n t ty a b d (ml_clock s) s = Inr s'" using ml_inv_window [OF i pc g order_refl] by blast
  then have "ml_pcs s' n t = ML_hold ty" by (auto simp: ml_lock_window_def bindE_eq_Inr_conv)
  moreover have "ml_next s s'" using ml_step.window [OF pc g order_refl] s' by simp
  ultimately show ?thesis using pc by (auto simp: ml_moves_def)
qed

lemma ml_moves_release:
  assumes "ml_pcs s n t = ML_release"
  shows "ml_moves n t s"
proof -
  have "ml_pcs (ml_unlock_local n t s) n t = ML_idle" by (simp add: ml_unlock_local_def)
  then show ?thesis unfolding ml_moves_def assms using ml_step.release [OF assms] by fastforce
qed

lemma ml_moves_spin:
  assumes "ml_pcs s n t = ML_spin ty a" and "\<not> local_lock (ml_lock s n)"
  shows "ml_moves n t s"
proof -
  have "ml_pcs (ml_lock_local n t ty a (ml_clock s) (ml_clock s) s) n t \<noteq> ML_spin ty a" by (simp add: ml_lock_local_def)
  then show ?thesis unfolding ml_moves_def assms(1) using ml_step.spin [OF assms order_refl order_refl] by fastforce
qed

lemma ml_progress:
  assumes i: "ml_inv s" and pc: "ml_pcs s n t \<noteq> ML_idle"
  shows "\<exists>m u. ml_moves m u s"
proof (cases "\<exists>m u. owns_local (ml_pcs s m u)")
  case False
  then have "\<not> local_lock (ml_lock s n)" using ml_invD(2) [OF i, of n] by (auto simp: node_owner_def)
  moreover have "\<exists>ty a. ml_pcs s n t = ML_spin ty a" using False pc by (cases "ml_pcs s n t") (metis owns_local.simps)+
  ultimately show ?thesis using ml_moves_spin by blast
next
  case True
  then obtain m u where own: "owns_local (ml_pcs s m u)" by blast
  consider (wait) ty a b d where "ml_pcs s m u = ML_win ty a b d \<or> ml_pcs s m u = ML_trywin ty"
    | (hold) ty where "ml_pcs s m u = ML_hold ty" | (rel) "ml_pcs s m u = ML_release"
    using own by (cases "ml_pcs s m u") auto
  then show ?thesis
  proof cases
    case wait
    show ?thesis
    proof (cases "grantable m ty (ml_epochs s)")
      case True
      then show ?thesis using ml_moves_window [OF i wait] by blast
    next
      case False
      then obtain k b where "ml_epochs s k = Some b" by (auto simp: grantable_def)
      then obtain v where "ml_pcs s k v = ML_hold b" using node_owner_held ml_invD(2) [OF i, of k] by metis
      then show ?thesis using ml_moves_hold [OF i] by blast
    qed
  next
    case hold
    then show ?thesis using ml_moves_hold [OF i] by blast
  next
    case rel
    then show ?thesis using ml_moves_release by blast
  qed
qed

section \<open>Property\<close>

text \<open>
  Claim C24. The lock of an MPI window, for every interleaving of the threads of all nodes: \<^verbatim>\<open>MPI_Win_lock\<close> is
  never called while the node has an epoch open and \<^verbatim>\<open>MPI_Win_unlock\<close> never without one; two threads that
  are inside an epoch are on different nodes and both epochs are shared; unless all threads are outside,
  one of those inside can go on. The time a node has held the window is at most the time it has held
  the spin lock, and the longest time of an \<^verbatim>\<open>MPI_Win_unlock\<close> is never recorded.
\<close>

theorem mpi_lock_epochs:
  assumes "ml_next\<^sup>*\<^sup>* ml_init s"
  shows "\<not> ml_step s (Inl e)
     \<and> (ml_pcs s n t = ML_hold a \<and> ml_pcs s m u = ML_hold b \<and> (n, t) \<noteq> (m, u) \<longrightarrow>
          n \<noteq> m \<and> a = MPI_LOCK_SHARED \<and> b = MPI_LOCK_SHARED)
     \<and> (ml_pcs s n t \<noteq> ML_idle \<longrightarrow> (\<exists>m u. ml_moves m u s))
     \<and> mpi_hold_time (ml_lock s n) \<le> local_hold_time (ml_lock s n) \<and> max_mpi_unlock_time (ml_lock s n) = 0"
proof -
  note i = ml_inv_reach [OF assms]
  have "n \<noteq> m \<and> a = MPI_LOCK_SHARED \<and> b = MPI_LOCK_SHARED"
    if h: "ml_pcs s n t = ML_hold a" "ml_pcs s m u = ML_hold b" "(n, t) \<noteq> (m, u)"
  proof -
    have o: "owns_local (ml_pcs s n t)" "owns_local (ml_pcs s m u)" using h by simp_all
    have ne: "n \<noteq> m" using node_owner_unique(1) [OF ml_invD(2) [OF i] o(1), of u] o(2) h(3) by auto
    have "ml_epochs s n = Some a" "ml_epochs s m = Some b"
      using node_owner_unique(3) [OF ml_invD(2) [OF i] o(1)] node_owner_unique(3) [OF ml_invD(2) [OF i] o(2)] h by simp_all
    then show ?thesis using ml_invD(1) [OF i] ne unfolding epochs_ok_def compatible_def by blast
  qed
  moreover have "mpi_hold_time (ml_lock s n) \<le> local_hold_time (ml_lock s n)" "max_mpi_unlock_time (ml_lock s n) = 0"
    using ml_invD(3) [OF i, of n] by (simp_all add: stats_ok_def)
  ultimately show ?thesis using ml_progress [OF i, of n t] ml_inv_step [OF _ i, of "Inl e"] by blast
qed

text \<open>Thread 0 of node 0 inside an exclusive epoch, thread 1 in front of the spin lock.\<close>

definition ml_demo :: ml_sys where
  "ml_demo = ml_lock_start 0 1 MPI_LOCK_SHARED 5
     (ml_set 0 0 (ML_hold MPI_LOCK_EXCLUSIVE)
        (lock_stats 1 2 3 4 (mpi_lock_new\<lparr>local_lock := True, local_acquire_time := 2\<rparr>)) 4
        (ml_lock_local 0 0 MPI_LOCK_EXCLUSIVE 1 2 3 (ml_lock_start 0 0 MPI_LOCK_EXCLUSIVE 1 ml_init)
           \<lparr>ml_epochs := (\<lambda>_. None)(0 := Some MPI_LOCK_EXCLUSIVE)\<rparr>))"

lemma ml_demo_reach: "ml_next\<^sup>*\<^sup>* ml_init ml_demo"
proof -
  let ?a = "ml_lock_start 0 0 MPI_LOCK_EXCLUSIVE 1 ml_init"
  let ?b = "ml_lock_local 0 0 MPI_LOCK_EXCLUSIVE 1 2 3 ?a"
  let ?c = "ml_set 0 0 (ML_hold MPI_LOCK_EXCLUSIVE)
        (lock_stats 1 2 3 4 (mpi_lock_new\<lparr>local_lock := True, local_acquire_time := 2\<rparr>)) 4
        (?b\<lparr>ml_epochs := (\<lambda>_. None)(0 := Some MPI_LOCK_EXCLUSIVE)\<rparr>)"
  have "ml_next ml_init ?a" by (rule ml_step.start) (simp_all add: ml_init_def)
  moreover have "ml_next ?a ?b" by (rule ml_step.spin) (simp_all add: ml_lock_start_def ml_init_def mpi_lock_new_def)
  moreover have "ml_next ?b ?c"
    using ml_step.window [of ?b 0 0 MPI_LOCK_EXCLUSIVE 1 2 3 4]
    by (simp add: ml_lock_window_def ml_lock_local_def ml_lock_start_def ml_init_def grantable_def MPI_Win_lock_def)
  moreover have "ml_next ?c ml_demo"
    unfolding ml_demo_def by (rule ml_step.start) (simp_all add: ml_lock_local_def ml_lock_start_def ml_init_def)
  ultimately show ?thesis by (meson converse_rtranclp_into_rtranclp rtranclp.rtrancl_refl)
qed

theorem mpi_lock_epochs_witness:
  "ml_pcs ml_demo 0 0 = ML_hold MPI_LOCK_EXCLUSIVE \<and> ml_pcs ml_demo 0 1 = ML_spin MPI_LOCK_SHARED 5
     \<and> \<not> ml_step ml_demo (Inl Bad_alloc) \<and> (\<exists>m u. ml_moves m u ml_demo)"
proof -
  have "ml_pcs ml_demo 0 0 = ML_hold MPI_LOCK_EXCLUSIVE" "ml_pcs ml_demo 0 1 = ML_spin MPI_LOCK_SHARED 5"
    by (simp_all add: ml_demo_def ml_lock_start_def)
  then show ?thesis using mpi_lock_epochs [OF ml_demo_reach, of Bad_alloc 0 1 MPI_LOCK_SHARED 0 0] by simp
qed

end
