(* ===== verification/Statistics.thy ===== *)
theory Statistics
  imports Mpi_Lock Swdsm_Sync Argo_Env
begin

text \<open>
  What the MPI backend counts and prints: the class \<^verbatim>\<open>cache_lock\<close> of \<^verbatim>\<open>swdsm.h\<close> with its clocks, the object parts of
  \<^verbatim>\<open>write_buffer.hpp\<close>, and \<^verbatim>\<open>print_statistics\<close>. Times are real numbers. The report is a list of lines with the
  values that are printed; the layout of a line is left out. The nodes print in turn, kept apart by
  barriers only, so the order of the lines is a result.
\<close>

section \<open>Cache locks\<close>

record cache_lock_obj =
  c_mutex :: "nat option"
  wait_time :: real
  hold_time :: real
  acquire_time :: real
  cl_num_locks :: nat

definition cache_lock_new :: cache_lock_obj where
  "cache_lock_new = \<lparr>c_mutex = None, wait_time = 0, hold_time = 0, acquire_time = 0, cl_num_locks = 0\<rparr>"

text \<open>Copying and moving take the statistics; the new object has a mutex of its own.\<close>

definition cache_lock_copy :: "cache_lock_obj \<Rightarrow> cache_lock_obj" where
  "cache_lock_copy other = cache_lock_new\<lparr>wait_time := wait_time other, hold_time := hold_time other,
     acquire_time := acquire_time other, cl_num_locks := cl_num_locks other\<rparr>"

definition cache_lock_move :: "cache_lock_obj \<Rightarrow> cache_lock_obj" where
  "cache_lock_move other = cache_lock_new\<lparr>wait_time := wait_time other, hold_time := hold_time other,
     acquire_time := acquire_time other, cl_num_locks := cl_num_locks other\<rparr>"

text \<open>\<^verbatim>\<open>lock\<close> by thread \<open>t\<close>, with the two readings of the clock, once the mutex is free.\<close>

definition cl_lock :: "nat \<Rightarrow> real \<Rightarrow> real \<Rightarrow> cache_lock_obj \<Rightarrow> cache_lock_obj" where
  "cl_lock t start stop L =
     L\<lparr>c_mutex := Some t, wait_time := wait_time L + (stop - start), acquire_time := stop,
       cl_num_locks := add64 (cl_num_locks L) 1\<rparr>"

definition cl_try_lock :: "nat \<Rightarrow> real \<Rightarrow> cache_lock_obj \<Rightarrow> bool \<times> cache_lock_obj" where
  "cl_try_lock t now L =
     (if c_mutex L = None
      then (True, L\<lparr>c_mutex := Some t, acquire_time := now, cl_num_locks := add64 (cl_num_locks L) 1\<rparr>)
      else (False, L))"

definition cl_unlock :: "real \<Rightarrow> cache_lock_obj \<Rightarrow> cache_lock_obj" where
  "cl_unlock now L = L\<lparr>hold_time := hold_time L + (now - acquire_time L), c_mutex := None\<rparr>"

definition cl_reset_stats :: "cache_lock_obj \<Rightarrow> cache_lock_obj" where
  "cl_reset_stats L = L\<lparr>wait_time := 0, hold_time := 0, cl_num_locks := 0\<rparr>"

text \<open>
  The threads of a node at one cache lock: \<open>cl_waits t\<close> is the time thread \<open>t\<close> has read before it waits for
  the mutex. \<open>cl_since\<close> and \<open>cl_taken\<close> record when the statistics were last cleared and how often the lock has been
  taken since. Every reading of the clock is at or after the one before.
\<close>

record cl_sys =
  cl_obj :: cache_lock_obj
  cl_waits :: "nat \<Rightarrow> real option"
  cl_now :: real
  cl_since :: real
  cl_taken :: nat

definition cl_init :: cl_sys where
  "cl_init = \<lparr>cl_obj = cache_lock_new, cl_waits = (\<lambda>_. None), cl_now = 0, cl_since = 0, cl_taken = 0\<rparr>"

inductive cl_step :: "cl_sys \<Rightarrow> cl_sys \<Rightarrow> bool" where
  start: "cl_waits s t = None \<Longrightarrow> c_mutex (cl_obj s) \<noteq> Some t \<Longrightarrow> cl_now s \<le> now \<Longrightarrow>
    cl_step s (s\<lparr>cl_waits := (cl_waits s)(t := Some now), cl_now := now\<rparr>)"
| lock: "cl_waits s t = Some b0 \<Longrightarrow> c_mutex (cl_obj s) = None \<Longrightarrow> cl_now s \<le> now \<Longrightarrow>
    cl_step s (s\<lparr>cl_obj := cl_lock t b0 now (cl_obj s), cl_waits := (cl_waits s)(t := None), cl_now := now, cl_taken := cl_taken s + 1\<rparr>)"
| try_lock: "cl_waits s t = None \<Longrightarrow> cl_try_lock t now (cl_obj s) = (b, L) \<Longrightarrow> cl_now s \<le> now \<Longrightarrow>
    cl_step s (s\<lparr>cl_obj := L, cl_now := now, cl_taken := (if b then cl_taken s + 1 else cl_taken s)\<rparr>)"
| unlock: "c_mutex (cl_obj s) = Some t \<Longrightarrow> cl_now s \<le> now \<Longrightarrow>
    cl_step s (s\<lparr>cl_obj := cl_unlock now (cl_obj s), cl_now := now\<rparr>)"
| reset: "c_mutex (cl_obj s) = None \<Longrightarrow>
    cl_step s (s\<lparr>cl_obj := cl_reset_stats (cl_obj s), cl_since := cl_now s, cl_taken := 0\<rparr>)"

text \<open>The time the lock has been held since the statistics were cleared, the current holder included.\<close>

definition held_so_far :: "cl_sys \<Rightarrow> real" where
  "held_so_far s = hold_time (cl_obj s) + (if c_mutex (cl_obj s) = None then 0 else cl_now s - acquire_time (cl_obj s))"

definition cl_inv :: "cl_sys \<Rightarrow> bool" where
  "cl_inv s \<longleftrightarrow> cl_num_locks (cl_obj s) = wrap64 (cl_taken s)
   \<and> 0 \<le> wait_time (cl_obj s) \<and> 0 \<le> hold_time (cl_obj s) \<and> held_so_far s \<le> cl_now s - cl_since s
   \<and> (c_mutex (cl_obj s) \<noteq> None \<longrightarrow> acquire_time (cl_obj s) \<le> cl_now s)
   \<and> (\<forall>t b. cl_waits s t = Some b \<longrightarrow> b \<le> cl_now s)"

lemma wrap64_Suc: "add64 (wrap64 k) (Suc 0) = wrap64 (Suc k)"
  by (simp add: add64_def wrap64_def mod_simps)

lemma cl_step_inv: "cl_step s s' \<Longrightarrow> cl_inv s \<Longrightarrow> cl_inv s'"
proof (induction rule: cl_step.induct)
  case (start s t now)
  then show ?case by (fastforce simp: cl_inv_def held_so_far_def)
next
  case (lock s t b0 now)
  then have "b0 \<le> now" by (force simp: cl_inv_def)
  with lock show ?case
    by (auto simp: cl_inv_def held_so_far_def cl_lock_def wrap64_Suc intro: order_trans)
next
  case (try_lock s t now b L)
  then show ?case
    by (fastforce simp: cl_inv_def held_so_far_def cl_try_lock_def wrap64_Suc split: if_splits)
next
  case (unlock s t now)
  then show ?case by (fastforce simp: cl_inv_def held_so_far_def cl_unlock_def)
next
  case (reset s)
  then show ?case by (auto simp: cl_inv_def held_so_far_def cl_reset_stats_def wrap64_def)
qed

lemma cl_steps_inv: "cl_step\<^sup>*\<^sup>* cl_init s \<Longrightarrow> cl_inv s"
proof (induction rule: rtranclp_induct)
  case base
  then show ?case by (simp add: cl_init_def cl_inv_def held_so_far_def cache_lock_new_def wrap64_def)
qed (rule cl_step_inv)

section \<open>The write buffer object\<close>

text \<open>
  The members of a \<^verbatim>\<open>write_buffer\<close>. The buffer that the operations of \<open>Swdsm_Cache\<close> work on is \<open>wb_buffer\<close> of the
  node; here are construction, copying, moving and the clocks. What a move leaves in the deque of the
  other object is not specified and an argument.
\<close>

record write_buffer_obj =
  ob_buffer :: "nat list"
  ob_max_size :: nat
  ob_write_back_size :: nat
  page_count :: nat
  partial_flush_count :: nat
  flush_time :: real
  flush_wait_time :: real
  write_back_time :: real
  buffer_lock_time :: real

definition write_buffer_new :: "env \<Rightarrow> nat \<Rightarrow> write_buffer_obj" where
  "write_buffer_new e cacheline =
     \<lparr>ob_buffer = [], ob_max_size = value_write_buffer_size e div cacheline,
      ob_write_back_size = value_write_buffer_write_back_size e div cacheline, page_count = 0, partial_flush_count = 0,
      flush_time = 0, flush_wait_time = 0, write_back_time = 0, buffer_lock_time = 0\<rparr>"

definition write_buffer_copy :: "write_buffer_obj \<Rightarrow> write_buffer_obj" where
  "write_buffer_copy other =
     \<lparr>ob_buffer = ob_buffer other, ob_max_size = ob_max_size other, ob_write_back_size = ob_write_back_size other,
      page_count = page_count other, partial_flush_count = partial_flush_count other,
      flush_time = flush_time other, flush_wait_time = flush_wait_time other,
      write_back_time = write_back_time other, buffer_lock_time = buffer_lock_time other\<rparr>"

text \<open>Assignments between the objects of a store, which may be the same object.\<close>

definition write_buffer_copy_assign :: "nat \<Rightarrow> nat \<Rightarrow> (nat \<Rightarrow> write_buffer_obj) \<Rightarrow> nat \<Rightarrow> write_buffer_obj" where
  "write_buffer_copy_assign this other st = (if other \<noteq> this then st(this := write_buffer_copy (st other)) else st)"

definition write_buffer_move :: "nat list \<Rightarrow> write_buffer_obj \<Rightarrow> write_buffer_obj \<times> write_buffer_obj" where
  "write_buffer_move left other = (write_buffer_copy other, other\<lparr>ob_buffer := left\<rparr>)"

definition write_buffer_move_assign :: "nat list \<Rightarrow> nat \<Rightarrow> nat \<Rightarrow> (nat \<Rightarrow> write_buffer_obj) \<Rightarrow> nat \<Rightarrow> write_buffer_obj" where
  "write_buffer_move_assign left this other st =
     (if other \<noteq> this then let (new, old) = write_buffer_move left (st other) in st(other := old, this := new) else st)"

definition note_lock_time :: "real \<Rightarrow> real \<Rightarrow> write_buffer_obj \<Rightarrow> write_buffer_obj" where
  "note_lock_time t_start t_stop w = w\<lparr>buffer_lock_time := buffer_lock_time w + (t_stop - t_start)\<rparr>"

definition note_flush_wait :: "real \<Rightarrow> real \<Rightarrow> real \<Rightarrow> real \<Rightarrow> write_buffer_obj \<Rightarrow> write_buffer_obj" where
  "note_flush_wait t_start t_stop w_start w_stop w =
     w\<lparr>buffer_lock_time := buffer_lock_time w + (t_stop - t_start),
       flush_wait_time := flush_wait_time w + (w_stop - w_start)\<rparr>"

definition get_size :: "write_buffer_obj \<Rightarrow> nat" where
  "get_size w = length (ob_buffer w)"

definition write_buffer_reset_stats :: "write_buffer_obj \<Rightarrow> write_buffer_obj" where
  "write_buffer_reset_stats w =
     w\<lparr>flush_time := 0, flush_wait_time := 0, write_back_time := 0, buffer_lock_time := 0, page_count := 0, partial_flush_count := 0\<rparr>"

section \<open>Totals of the window locks\<close>



record lock_sums =
  s_num_locks :: int
  s_local_lock_time :: real
  s_max_local_lock_time :: real
  s_local_hold_time :: real
  s_max_local_hold_time :: real
  s_mpi_lock_time :: real
  s_max_mpi_lock_time :: real
  s_mpi_unlock_time :: real
  s_max_mpi_unlock_time :: real
  s_mpi_hold_time :: real
  s_max_mpi_hold_time :: real

definition no_sums :: lock_sums where
  "no_sums = \<lparr>s_num_locks = 0, s_local_lock_time = 0, s_max_local_lock_time = 0, s_local_hold_time = 0, s_max_local_hold_time = 0,
     s_mpi_lock_time = 0, s_max_mpi_lock_time = 0, s_mpi_unlock_time = 0, s_max_mpi_unlock_time = 0, s_mpi_hold_time = 0, s_max_mpi_hold_time = 0\<rparr>"

definition add_sums :: "mpi_lock \<Rightarrow> lock_sums \<Rightarrow> lock_sums" where
  "add_sums L a =
     \<lparr>s_num_locks = s_num_locks a + num_locks L,
      s_local_lock_time = s_local_lock_time a + local_lock_time L,
      s_max_local_lock_time = (if max_local_lock_time L > s_max_local_lock_time a then max_local_lock_time L else s_max_local_lock_time a),
      s_local_hold_time = s_local_hold_time a + local_hold_time L,
      s_max_local_hold_time = (if max_local_hold_time L > s_max_local_hold_time a then max_local_hold_time L else s_max_local_hold_time a),
      s_mpi_lock_time = s_mpi_lock_time a + mpi_lock_time L,
      s_max_mpi_lock_time = (if max_mpi_lock_time L > s_max_mpi_lock_time a then max_mpi_lock_time L else s_max_mpi_lock_time a),
      s_mpi_unlock_time = s_mpi_unlock_time a + mpi_unlock_time L,
      s_max_mpi_unlock_time = (if max_mpi_unlock_time L > s_max_mpi_unlock_time a then max_mpi_unlock_time L else s_max_mpi_unlock_time a),
      s_mpi_hold_time = s_mpi_hold_time a + mpi_hold_time L,
      s_max_mpi_hold_time = (if max_mpi_hold_time L > s_max_mpi_hold_time a then max_mpi_hold_time L else s_max_mpi_hold_time a)\<rparr>"

text \<open>The two loops over \<^verbatim>\<open>mpi_lock_data\<close> and \<^verbatim>\<open>mpi_lock_sharer\<close>, which are the same.\<close>

definition lock_totals :: "nat \<Rightarrow> nat \<Rightarrow> (nat \<Rightarrow> nat \<Rightarrow> mpi_lock) \<Rightarrow> lock_sums" where
  "lock_totals windows tasks ls = fold (\<lambda>i. fold (\<lambda>j. add_sums (ls i j)) [0..<tasks]) [0..<windows] no_sums"


section \<open>The size of the memory\<close>

function readable_size :: "real \<Rightarrow> nat \<Rightarrow> real \<times> nat" where
  "readable_size m order = (if m \<ge> 1024 \<and> order < 4 then readable_size (m / 1024) (order + 1) else (m, order))"
  by pat_completeness auto
termination by (relation "measure (\<lambda>(_, order). 4 - order)") auto

declare readable_size.simps [simp del]

lemma readable_size_ok:
  assumes "readable_size m k = (v, order)" and "k \<le> 4"
  shows "k \<le> order \<and> order \<le> 4 \<and> v * 1024 ^ (order - k) = m \<and> (v < 1024 \<or> order = 4) \<and> (k < order \<longrightarrow> 1 \<le> v)"
  using assms
proof (induction m k rule: readable_size.induct)
  case (1 m k)
  show ?case
  proof (cases "m \<ge> 1024 \<and> k < 4")
    case True
    then have r: "readable_size (m / 1024) (k + 1) = (v, order)" using 1(2) by (subst (asm) readable_size.simps) simp
    have ih: "k + 1 \<le> order" "order \<le> 4" "v * 1024 ^ (order - (k + 1)) = m / 1024" "v < 1024 \<or> order = 4" "k + 1 < order \<longrightarrow> 1 \<le> v"
      using 1(1) [OF True r] True by auto
    from ih(1) have "order - k = Suc (order - (k + 1))" by simp
    with ih(3) have "v * 1024 ^ (order - k) = m" by (simp add: field_simps)
    moreover have "1 \<le> v"
    proof (cases "k + 1 < order")
      case False
      with ih(1) have "order = k + 1" by simp
      with ih(3) True show ?thesis by simp
    qed (use ih(5) in simp)
    ultimately show ?thesis using ih(1,2,4) by simp
  next
    case False
    have "(m, k) = (v, order)" using 1(2) unfolding readable_size.simps [of m k] if_not_P [OF False] .
    then show ?thesis using False 1(3) by auto
  qed
qed

section \<open>The report\<close>



























section \<open>The totals\<close>

text \<open>The order in which the locks of all windows and nodes are visited.\<close>

definition all_locks :: "nat \<Rightarrow> nat \<Rightarrow> (nat \<Rightarrow> nat \<Rightarrow> mpi_lock) \<Rightarrow> mpi_lock list" where
  "all_locks windows tasks ls = concat (map (\<lambda>i. map (ls i) [0..<tasks]) [0..<windows])"

lemma lock_totals_fold: "lock_totals windows tasks ls = fold add_sums (all_locks windows tasks ls) no_sums"
proof -
  have "fold (\<lambda>i. fold (\<lambda>j. add_sums (ls i j)) [0..<tasks]) xs a = fold add_sums (concat (map (\<lambda>i. map (ls i) [0..<tasks]) xs)) a" for xs a
    by (induction xs arbitrary: a) (simp_all add: fold_map comp_def)
  then show ?thesis by (simp add: lock_totals_def all_locks_def)
qed

lemma fold_sum:
  fixes f :: "'a \<Rightarrow> 'b :: comm_monoid_add"
  assumes "\<And>L a. g (h L a) = g a + f L"
  shows "g (fold h Ls a) = g a + sum_list (map f Ls)"
  by (induction Ls arbitrary: a) (simp_all add: assms add.assoc)

lemma fold_max:
  fixes f :: "'a \<Rightarrow> real"
  assumes "\<And>L a. g (h L a) = (if f L > g a then f L else g a)"
  shows "(\<forall>L \<in> set Ls. f L \<le> g (fold h Ls a)) \<and> g a \<le> g (fold h Ls a)
     \<and> (g (fold h Ls a) = g a \<or> (\<exists>L \<in> set Ls. g (fold h Ls a) = f L))"
proof (induction Ls arbitrary: a)
  case (Cons L Ls)
  from Cons.IH [of "h L a"] show ?case using assms [of L a] by (auto split: if_splits)
qed simp

section \<open>Properties\<close>




text \<open>
  The statistics of a cache lock are sound: for every sequence of \<^verbatim>\<open>lock\<close>, \<^verbatim>\<open>try_lock\<close>, \<^verbatim>\<open>unlock\<close> and
  \<^verbatim>\<open>reset_stats\<close> by any threads, with a clock that does not run backwards, the time held is at most the time
  since the statistics were cleared, no time is negative, and the counter is the number of times the lock
  was taken since then, modulo \<open>2 ^ 64\<close>.
\<close>

lemma cache_lock_times:
  assumes "cl_step\<^sup>*\<^sup>* cl_init s"
  shows "0 \<le> hold_time (cl_obj s) \<and> hold_time (cl_obj s) \<le> cl_now s - cl_since s \<and> 0 \<le> wait_time (cl_obj s)
     \<and> cl_num_locks (cl_obj s) = cl_taken s mod 2 ^ 64"
proof -
  have i: "cl_inv s" by (rule cl_steps_inv [OF assms])
  then have "hold_time (cl_obj s) \<le> held_so_far s" by (auto simp: cl_inv_def held_so_far_def)
  then show ?thesis using i by (auto simp: cl_inv_def wrap64_def)
qed

lemma cache_lock_times_example:
  "\<exists>s. cl_step\<^sup>*\<^sup>* cl_init s \<and> hold_time (cl_obj s) = 3 \<and> hold_time (cl_obj s) \<le> cl_now s - cl_since s"
proof -
  let ?s1 = "cl_init\<lparr>cl_obj := cache_lock_new\<lparr>c_mutex := Some 0, acquire_time := 2, cl_num_locks := 1\<rparr>, cl_now := 2, cl_taken := 1\<rparr>"
  let ?s2 = "?s1\<lparr>cl_obj := cl_unlock 5 (cl_obj ?s1), cl_now := 5\<rparr>"
  have "cl_step cl_init ?s1"
    using cl_step.try_lock [of cl_init 0 2 True "cache_lock_new\<lparr>c_mutex := Some 0, acquire_time := 2, cl_num_locks := 1\<rparr>"]
    by (simp add: cl_init_def cl_try_lock_def cache_lock_new_def add64_def wrap64_def)
  moreover have "cl_step ?s1 ?s2" by (rule cl_step.unlock [of _ 0]) simp_all
  ultimately have r: "cl_step\<^sup>*\<^sup>* cl_init ?s2" by (meson converse_rtranclp_into_rtranclp r_into_rtranclp)
  moreover have "hold_time (cl_obj ?s2) = 3" by (simp add: cl_unlock_def cache_lock_new_def)
  ultimately show ?thesis using cache_lock_times [OF r] by blast
qed

text \<open>
  The totals of the report are the sums over the locks of all windows and nodes and the largest of their
  largest times; the average is not a number when no lock was taken.
\<close>

lemma lock_totals_sound:
  fixes ls :: "nat \<Rightarrow> nat \<Rightarrow> mpi_lock" and windows tasks :: nat
  defines "T \<equiv> lock_totals windows tasks ls" and "Ls \<equiv> all_locks windows tasks ls"
  shows "s_num_locks T = sum_list (map num_locks Ls)" and "s_mpi_hold_time T = sum_list (map mpi_hold_time Ls)"
    and "s_local_hold_time T = sum_list (map local_hold_time Ls)"
    and "\<forall>L \<in> set Ls. max_mpi_hold_time L \<le> s_max_mpi_hold_time T"
    and "s_max_mpi_hold_time T = 0 \<or> (\<exists>L \<in> set Ls. s_max_mpi_hold_time T = max_mpi_hold_time L)"
  unfolding T_def Ls_def lock_totals_fold
  using fold_sum [of s_num_locks add_sums num_locks _ no_sums] fold_sum [of s_mpi_hold_time add_sums mpi_hold_time _ no_sums]
    fold_sum [of s_local_hold_time add_sums local_hold_time _ no_sums]
    fold_max [of s_max_mpi_hold_time add_sums max_mpi_hold_time _ no_sums]
  by (simp_all add: add_sums_def no_sums_def)

end
