(* ===== verification/Upgrade_Coherence.thy ===== *)
theory Upgrade_Coherence
  imports Coherence_Main
begin

text \<open>
  The barrier with a classification upgrade. \<^verbatim>\<open>self_upgrade\<close> with \<^verbatim>\<open>upgrade_writers\<close> forgets all writers
  and takes write access away; the memory stays coherent because the flush has written everything
  back and the invalidation has left only copies that agree with their homes.
\<close>

section \<open>What the upgrade of the writers does to a node\<close>

text \<open>The node after the first \<open>k\<close> rounds of the loop.\<close>

definition writers_cleared :: "swdsm_config \<Rightarrow> nat \<Rightarrow> nat \<Rightarrow> node \<Rightarrow> node" where
  "writers_cleared c r k nd = nd\<lparr>
     globalSharers := (\<lambda>i. if odd i \<and> i < 2 * k then 0 else globalSharers nd i),
     vprot := (\<lambda>p. if is_page c p \<and> p < k * PAGE_SIZE c \<and> r \<in> ranks (globalSharers nd (get_classification_index c p + 1))
         \<and> (home_of c p = r \<or> tag (cacheControl nd (getCacheIndex c p)) = p
              \<and> state (cacheControl nd (getCacheIndex c p)) = VALID)
       then PROT_READ else vprot nd p)\<rparr>"

text \<open>Every node is clean.\<close>

definition all_clean :: "swdsm_config \<Rightarrow> cluster \<Rightarrow> bool" where
  "all_clean c s \<longleftrightarrow> (\<forall>n < numtasks c. \<forall>i < cachesize c. dirty (cacheControl (s n) i) = CLEAN)"

text \<open>Every cached page is one that its node may keep.\<close>

definition kept_at :: "swdsm_config \<Rightarrow> nat \<Rightarrow> node \<Rightarrow> bool" where
  "kept_at c n nd \<longleftrightarrow> (\<forall>i < cachesize c. state (cacheControl nd i) = VALID \<longrightarrow>
     keep_page n (get_classification_index c (tag (cacheControl nd i))) nd)"

text \<open>
  \<open>pending c s w x v\<close>: node \<open>w\<close> reads \<open>v\<close> at \<open>x\<close> and will publish it, or has published it; no other
  node has a modification of this byte.
\<close>

definition pending :: "swdsm_config \<Rightarrow> cluster \<Rightarrow> nat \<Rightarrow> nat \<Rightarrow> byte \<Rightarrow> bool" where
  "pending c s w x v \<longleftrightarrow> (let a = page_of c x; j = x mod PAGE_SIZE c in
     (\<forall>n < numtasks c. n \<noteq> w \<longrightarrow> no_own_write c s n a j)
   \<and> (load_byte c w x s = Some v \<and> published c s w a j \<or> home_byte c s a j = v \<and> no_own_write c s w a j))"

definition agreed :: "swdsm_config \<Rightarrow> nat \<Rightarrow> byte \<Rightarrow> cluster \<Rightarrow> bool" where
  "agreed c x v s \<longleftrightarrow> coherent c s \<and> home_byte c s (page_of c x) (x mod PAGE_SIZE c) = v
     \<and> (\<forall>n < numtasks c. load_byte c n x s = None \<or> load_byte c n x s = Some v)"

text \<open>
  Page \<open>h\<close> is at home on a node, the remote page \<open>q\<close> behind it has the same cache entry. \<open>upgrade_rounds c h q k nd nd'\<close>: how
  \<open>k\<close> rounds of \<^verbatim>\<open>upgrade_all\<close> change the node \<open>nd\<close>. Once \<open>h\<close> has been treated the entry is invalid; \<open>q\<close> keeps its protection.
\<close>

definition upgrade_rounds :: "swdsm_config \<Rightarrow> nat \<Rightarrow> nat \<Rightarrow> nat \<Rightarrow> node \<Rightarrow> node \<Rightarrow> bool" where
  "upgrade_rounds c h q k nd nd' \<longleftrightarrow> vprot nd' q = vprot nd q \<and> vmap nd' = vmap nd \<and> backing nd' = backing nd
     \<and> (\<forall>i. tag (cacheControl nd' i) = tag (cacheControl nd i) \<and> (dirty (cacheControl nd i) = CLEAN \<longrightarrow> dirty (cacheControl nd' i) = CLEAN)
          \<and> (touchedcache nd' i \<longrightarrow> touchedcache nd i))
     \<and> (\<forall>i. globalSharers nd' i = (if i < 2 * k then 0 else globalSharers nd i))
     \<and> (h < k * PAGE_SIZE c \<longrightarrow> state (cacheControl nd' (getCacheIndex c q)) = INVALID \<and> \<not> touchedcache nd' (getCacheIndex c q))"

text \<open>Page \<open>q\<close> is as accessible in \<open>u\<close> as it was in \<open>s\<close>, while the cache entry and the directory of the node no longer know of it.\<close>

definition left_behind :: "swdsm_config \<Rightarrow> nat \<Rightarrow> nat \<Rightarrow> cluster \<Rightarrow> cluster \<Rightarrow> bool" where
  "left_behind c r q s u \<longleftrightarrow> vprot (u r) q = vprot (s r) q \<and> vmap (u r) = vmap (s r) \<and> backing (u r) = backing (s r)
     \<and> state (slot c u r q) = INVALID \<and> \<not> touchedcache (u r) (getCacheIndex c q) \<and> r \<notin> sharers c u r q
     \<and> (\<forall>i < cachesize c. tag (cacheControl (u r) i) = tag (cacheControl (s r) i) \<and> dirty (cacheControl (u r) i) = CLEAN
          \<and> (touchedcache (u r) i \<longrightarrow> touchedcache (s r) i))"

context dsm
begin

lemma page_k: "k < size_of_all c div PAGE_SIZE c \<Longrightarrow> is_page c (k * PAGE_SIZE c)"
  using size_pages page_pos by (auto simp: is_page_def elim!: dvdE)

lemma is_cached_eq:
  assumes "startAddr c + size_of_all c < 2 ^ 64" and "is_page c p"
  shows "is_cached c r (startAddr c + p) nd = Inr (home_of c p = r
     \<or> (tag (cacheControl nd (getCacheIndex c p)) = p \<and> state (cacheControl nd (getCacheIndex c p)) = VALID))"
proof -
  have "sub64 (startAddr c + p) (startAddr c) = p"
    using assms by (intro sub64_add_left) (simp add: is_page_def)
  moreover have "align_backwards p (PAGE_SIZE c) = p"
    using assms(2) by (auto simp: align_backwards_def is_page_def)
  ultimately show ?thesis
    using assms(2) by (simp add: is_cached_def Let_def peek_home page_less get_homenode_eq)
qed

lemma writers_cleared_Suc:
  assumes k: "k < size_of_all c div PAGE_SIZE c"
  defines "p \<equiv> k * PAGE_SIZE c"
  shows "writers_cleared c r (Suc k) nd =
    (let nd' = set_sharers ((globalSharers (writers_cleared c r k nd))(2 * k + 1 := 0)) (writers_cleared c r k nd)
     in if (home_of c p = r \<or> tag (cacheControl nd (getCacheIndex c p)) = p \<and> state (cacheControl nd (getCacheIndex c p)) = VALID)
           \<and> r \<in> ranks (globalSharers nd (2 * k + 1))
        then nd'\<lparr>vprot := (vprot nd')(p := PROT_READ)\<rparr> else nd')"
proof -
  have p: "is_page c p" unfolding p_def using k by (rule page_k)
  have ci: "get_classification_index c p = 2 * k" using class_index [OF p] page_pos by (simp add: p_def)
  have g: "(\<lambda>i. if odd i \<and> i < 2 * Suc k then 0 else globalSharers nd i)
      = (\<lambda>i. if odd i \<and> i < 2 * k then 0 else globalSharers nd i)(2 * k + 1 := 0)"
    by (rule ext) (auto simp: less_Suc_eq)
  have "q < Suc k * PAGE_SIZE c \<longleftrightarrow> q < k * PAGE_SIZE c \<or> q = p" if q: "is_page c q" for q
  proof -
    have "q = q div PAGE_SIZE c * PAGE_SIZE c" using q by (simp add: is_page_def)
    then obtain m where "q = m * PAGE_SIZE c" by blast
    then show ?thesis using page_pos by (auto simp: p_def less_Suc_eq simp del: mult_Suc)
  qed
  moreover have "\<not> p < k * PAGE_SIZE c" by (simp add: p_def)
  ultimately have v: "(\<lambda>q. if is_page c q \<and> q < Suc k * PAGE_SIZE c \<and> R q \<and> C q then PROT_READ else f q)
      = (if C p \<and> R p then (\<lambda>q. if is_page c q \<and> q < k * PAGE_SIZE c \<and> R q \<and> C q then PROT_READ else f q)(p := PROT_READ)
         else (\<lambda>q. if is_page c q \<and> q < k * PAGE_SIZE c \<and> R q \<and> C q then PROT_READ else f q))" for R C f
    using p by (auto simp: fun_eq_iff simp del: mult_Suc)
  show ?thesis
    unfolding writers_cleared_def g v Let_def set_sharers_def ci
    by (simp del: mult_Suc)
qed

lemma self_upgrade_step_writers:
  assumes st: "startAddr c + size_of_all c < 2 ^ 64" and k: "k < size_of_all c div PAGE_SIZE c" and r: "r < numtasks c"
  shows "self_upgrade_step c r upgrade_writers (2 * k) (writers_cleared c r k nd) = Inr (writers_cleared c r (Suc k) nd)"
proof -
  let ?p = "k * PAGE_SIZE c"
  have w: "globalSharers (writers_cleared c r k nd) (2 * k + 1) = globalSharers nd (2 * k + 1)"
      "cacheControl (writers_cleared c r k nd) = cacheControl nd"
    by (simp_all add: writers_cleared_def)
  show ?thesis
    unfolding writers_cleared_Suc [OF k] self_upgrade_step_def Let_def cacheline
    by (simp add: is_cached_eq [OF st page_k [OF k]] and_node_bit_iff [OF rank_64 [OF r]] mprotect_page w [simplified])
qed

lemma self_upgrade_writers:
  assumes st: "startAddr c + size_of_all c < 2 ^ 64" and r: "r < numtasks c"
  shows "self_upgrade c upgrade_writers r s = Inr (s(r := writers_cleared c r (size_of_all c div PAGE_SIZE c) (s r)))"
proof -
  have "k \<le> size_of_all c div PAGE_SIZE c \<Longrightarrow>
      foldE (self_upgrade_step c r upgrade_writers) (map (\<lambda>k. k * 2) [0..<k]) (s r) = Inr (writers_cleared c r k (s r))" for k
  proof (induction k)
    case 0
    then show ?case by (simp add: writers_cleared_def)
  next
    case (Suc k)
    then show ?case using self_upgrade_step_writers [OF st _ r, of k] by (simp add: foldE_append mult.commute)
  qed
  moreover have "c_range 0 (classificationSize c) 2 = map (\<lambda>k. k * 2) [0..<size_of_all c div PAGE_SIZE c]"
    by (simp add: c_range_def class_size)
  ultimately show ?thesis by (simp add: self_upgrade_def)
qed

section \<open>The upgraded memory is coherent\<close>

lemma cleared_pages:
  fixes r :: nat and nd :: node
  assumes "is_page c p"
  defines "nd' \<equiv> writers_cleared c r (size_of_all c div PAGE_SIZE c) nd"
  shows "ranks (globalSharers nd' (get_classification_index c p + 1)) = {}"
    and "globalSharers nd' (get_classification_index c p) = globalSharers nd (get_classification_index c p)"
    and "vprot nd' p = (if r \<in> ranks (globalSharers nd (get_classification_index c p + 1))
         \<and> (home_of c p = r \<or> tag (cacheControl nd (getCacheIndex c p)) = p
              \<and> state (cacheControl nd (getCacheIndex c p)) = VALID)
       then PROT_READ else vprot nd p)"
proof -
  have l: "p div PAGE_SIZE c < size_of_all c div PAGE_SIZE c" and "p < size_of_all c div PAGE_SIZE c * PAGE_SIZE c"
    using assms(1) size_pages page_pos by (auto simp: is_page_def div_less_iff_less_mult)
  then show "ranks (globalSharers nd' (get_classification_index c p + 1)) = {}"
    and "globalSharers nd' (get_classification_index c p) = globalSharers nd (get_classification_index c p)"
    and "vprot nd' p = (if r \<in> ranks (globalSharers nd (get_classification_index c p + 1))
         \<and> (home_of c p = r \<or> tag (cacheControl nd (getCacheIndex c p)) = p
              \<and> state (cacheControl nd (getCacheIndex c p)) = VALID)
       then PROT_READ else vprot nd p)"
    using assms(1) by (simp_all add: nd'_def writers_cleared_def class_index)
qed

lemma cleared_node_ok:
  assumes co: "coherent c s" "all_clean c s" and n: "n < numtasks c"
  shows "node_ok c {} {} n (writers_cleared c n (size_of_all c div PAGE_SIZE c) (s n))"
proof -
  let ?nd = "writers_cleared c n (size_of_all c div PAGE_SIZE c) (s n)"
  have ok: "node_ok c {} {} n (s n)" using co n by (simp add: coherent_def)
  have same: "cacheControl ?nd = cacheControl (s n)" "touchedcache ?nd = touchedcache (s n)" "vmap ?nd = vmap (s n)"
      "wb_buffer ?nd = wb_buffer (s n)" "cache_locks ?nd = cache_locks (s n)"
    by (simp_all add: writers_cleared_def)
  have "slot_ok c n ?nd i" if i: "i < cachesize c" for i
  proof -
    have "slot_ok c n (s n) i" using ok i by (simp add: node_ok_def)
    moreover have "dirty (cacheControl (s n) i) = CLEAN" using co(2) n i by (simp add: all_clean_def)
    ultimately show ?thesis
      using cleared_pages(3) [of "tag (cacheControl (s n) i)" n "s n"]
      by (auto simp: slot_ok_def Let_def same slot_prot_def split: if_splits)
  qed
  moreover have "pages_ok c n ?nd"
    unfolding pages_ok_def
  proof (intro allI impI)
    fix p assume p: "is_page c p"
    have pg: "if home_of c p = n
       then vprot (s n) p \<noteq> PROT_NONE \<longrightarrow> vmap (s n) p = Some (cacheoffset c + off_of c p)
       else tag (slot c s n p) \<noteq> p \<longrightarrow> vprot (s n) p = PROT_NONE"
      using ok p by (simp add: node_ok_def pages_ok_def)
    moreover have "vprot (s n) p \<noteq> PROT_NONE" if "home_of c p = n" "n \<in> writers c s n p"
      using co(1) n p that by (auto simp: coherent_def link_ok_def)
    ultimately show "if home_of c p = n
       then vprot ?nd p \<noteq> PROT_NONE \<longrightarrow> vmap ?nd p = Some (cacheoffset c + off_of c p)
       else tag (cacheControl ?nd (getCacheIndex c p)) \<noteq> p \<longrightarrow> vprot ?nd p = PROT_NONE"
      by (auto simp: same cleared_pages(3) [OF p] writers_def)
  qed
  ultimately show ?thesis using ok by (simp add: node_ok_def buffer_ok_def same)
qed

lemma upgraded_coherent:
  assumes co: "coherent c s" "all_clean c s" and kept: "\<forall>n < numtasks c. kept_at c n (s n)"
  defines "t \<equiv> \<lambda>n. if n < numtasks c then writers_cleared c n (size_of_all c div PAGE_SIZE c) (s n) else s n"
  shows "coherent c t"
    and "n < numtasks c \<Longrightarrow> is_page c p \<Longrightarrow> writers c t n p = {}"
    and "n < numtasks c \<Longrightarrow> is_page c p \<Longrightarrow> vprot (t n) p \<noteq> PROT_READ_WRITE"
    and "home_byte c t = home_byte c s"
proof -
  have w: "writers c t n p = {}" "sharers c t n p = sharers c s n p" if "n < numtasks c" "is_page c p" for n p
    using that cleared_pages(1,2) [OF that(2), of n "s n"] by (simp_all add: t_def writers_def sharers_def)
  show "n < numtasks c \<Longrightarrow> is_page c p \<Longrightarrow> writers c t n p = {}" by (rule w(1))
  have vp: "vprot (t n) p = (if n \<in> writers c s n p \<and> (home_of c p = n \<or> cached c s n p) then PROT_READ else vprot (s n) p)"
    if "n < numtasks c" "is_page c p" for n p
    using that cleared_pages(3) [OF that(2), of n "s n"] by (simp add: t_def writers_def cached_def conj_commute)
  have ca: "cached c t = cached c s" "dirty_at c t = dirty_at c s" "cache_byte c t = cache_byte c s"
    by (intro ext; simp add: t_def cached_def dirty_at_def cache_byte_def writers_cleared_def)+
  show hb: "home_byte c t = home_byte c s"
    by (rule home_byte_cong) (simp add: t_def writers_cleared_def)
  have nd: "\<not> dirty_at c s n p" if "n < numtasks c" for n p
    using co(2) that cache_index_less by (simp add: all_clean_def dirty_at_def)
  have lk: "if home_of c p = n
      then (vprot (s n) p = PROT_READ_WRITE \<longrightarrow> n \<in> writers c s n p)
         \<and> (n \<in> sharers c s n p \<or> n \<in> writers c s n p \<longrightarrow> vprot (s n) p \<noteq> PROT_NONE)
      else cached c s n p \<longrightarrow> n \<in> sharers c s n p" if "n < numtasks c" "is_page c p" for n p
    using co(1) that by (auto simp: coherent_def link_ok_def)
  show "vprot (t n) p \<noteq> PROT_READ_WRITE" if n: "n < numtasks c" and p: "is_page c p"
  proof (cases "home_of c p = n")
    case True
    then show ?thesis using lk [OF n p] vp [OF n p] by auto
  next
    case False
    have ok: "node_ok c {} {} n (s n)" using co n by (simp add: coherent_def)
    have "vprot (s n) p \<noteq> PROT_READ_WRITE"
    proof (cases "tag (slot c s n p) = p")
      case True
      then show ?thesis using node_home(3) [OF ok p True] nd [OF n, of p] by (auto simp: slot_prot_def dirty_at_def)
    next
      case False
      with ok p \<open>home_of c p \<noteq> n\<close> show ?thesis by (auto simp: node_ok_def pages_ok_def)
    qed
    with vp [OF n p] show ?thesis by simp
  qed
  have "dir_ok c t"
    unfolding dir_ok_def
  proof (intro conjI allI impI; (elim conjE)?)
    fix n k assume n: "n < numtasks c"
    have "ranks (globalSharers (s n) k) \<subseteq> {..<numtasks c}" using co n by (simp add: coherent_def dir_ok_def)
    then show "ranks (globalSharers (t n) k) \<subseteq> {..<numtasks c}" using n by (simp add: t_def writers_cleared_def)
  next
    fix n p assume n: "n < numtasks c" and p: "is_page c p" and h: "home_of c p \<noteq> n" and sh: "n \<in> sharers c t n p"
    then show "n \<in> sharers c t (home_of c p) p" using co home_less [OF p] by (auto simp: w coherent_def dir_ok_def)
  qed (simp_all add: w home_less)
  moreover have "link_ok c t"
    unfolding link_ok_def using lk nd by (auto simp: w vp ca)
  moreover have "data_ok c t"
    unfolding data_ok_def hb ca
  proof (intro allI impI, elim conjE)
    fix n p j
    assume n: "n < numtasks c" and p: "is_page c p" and j: "j < PAGE_SIZE c" and h: "home_of c p \<noteq> n" and c': "cached c s n p"
    have "keep_page n (get_classification_index c p) (s n)"
      using kept [rule_format, OF n] c' cache_index_less [of p] by (auto simp: kept_at_def cached_def)
    from kept_fresh [OF co(1) n p j h c' nd [OF n] this] nd [OF n, of p]
    show "home_byte c s p j = (if dirty_at c s n p then twin_byte c t n p j else cache_byte c s n p j)" by simp
  qed
  moreover have "node_ok c {} {} n (t n)" if "n < numtasks c" for n
    using cleared_node_ok [OF co that] that by (simp add: t_def)
  ultimately show "coherent c t" by (simp add: coherent_def)
qed

lemma single_writer_fresh:
  assumes co: "coherent c t" and n: "n < numtasks c" and x: "x < size_of_all c"
    and cl: "\<not> dirty_at c t n (page_of c x)" and acc: "vprot (t n) (page_of c x) \<noteq> PROT_NONE"
    and one: "home_of c (page_of c x) \<noteq> n \<Longrightarrow> cached c t n (page_of c x) \<Longrightarrow> writers c t (home_of c (page_of c x)) (page_of c x) \<subseteq> {n}"
  shows "vm_read c (t n) x = home_byte c t (page_of c x) (x mod PAGE_SIZE c)"
proof (cases "home_of c (page_of c x) = n")
  case True
  then show ?thesis using vm_read_cases(1) [OF co n x acc] by simp
next
  case False
  have ca: "cached c t n (page_of c x)" using vm_read_cases(2) [OF co n x acc] False by simp
  then have "home_byte c t (page_of c x) (x mod PAGE_SIZE c) = cache_byte c t n (page_of c x) (x mod PAGE_SIZE c)"
    using co n address_split(1,3) [OF x] False one cl by (auto simp: coherent_def data_ok_def)
  then show ?thesis using vm_read_cases(1) [OF co n x acc] False by simp
qed

section \<open>What was written before a barrier is read after it\<close>

lemma agreed_read:
  assumes a: "agreed c x v s" and n: "n < numtasks c" and x: "x < size_of_all c"
  shows "\<exists>t. read_byte E c n x s = Inr (Some v, t)"
proof -
  have "load_byte c n x s = None \<or> load_byte c n x s = Some v" using a n by (simp add: agreed_def)
  then have "vm_read c (s n) x = home_byte c s (page_of c x) (x mod PAGE_SIZE c)" if "vprot (s n) (page_of c x) \<noteq> PROT_NONE"
    using that a by (auto simp: load_byte_def agreed_def)
  with read_byte_home [of s n x] a n x show ?thesis by (auto simp: agreed_def)
qed

lemma load_byte_bump: "load_byte c m x (upd n (\<lambda>nd. nd\<lparr>barriers := add64 (barriers nd) 1\<rparr>) s) = load_byte c m x s"
  by (cases "m = n") (simp_all add: load_byte_def vm_read_def split: option.split)

lemma agreed_bump: "agreed c x v s \<Longrightarrow> agreed c x v (upd n (\<lambda>nd. nd\<lparr>barriers := add64 (barriers nd) 1\<rparr>) s)"
proof -
  let ?t = "upd n (\<lambda>nd. nd\<lparr>barriers := add64 (barriers nd) 1\<rparr>) s"
  assume a: "agreed c x v s"
  have "home_byte c ?t = home_byte c s" by (rule home_byte_cong) (simp add: upd_def)
  then show ?thesis using a count_coherent [of s n] load_byte_bump [of _ x n s] by (simp add: agreed_def)
qed

lemma flush_pending:
  assumes co: "coherent c s" and w: "w < numtasks c" and m: "m < numtasks c" and x: "x < size_of_all c"
    and pe: "pending c s w x v" and wb: "wrote_back c m (set (wb_buffer (s m))) s t" and e: "wb_buffer (t m) = []" and ct: "coherent c t"
  shows "pending c t w x v"
proof -
  let ?a = "page_of c x" and ?j = "x mod PAGE_SIZE c"
  note sp = address_split [OF x]
  have own: "no_own_write c t n ?a ?j" if "no_own_write c s n ?a ?j" "n \<noteq> m" for n
  proof -
    have loc: "same_local c (s n) (t n)" using wb by (simp add: wrote_back_def)
    show ?thesis
      using that wrote_back_views(2) [OF wb, of n ?a] same_local_bytes [of s n t ?j ?a, OF loc sp(3)]
      by (simp add: no_own_write_def)
  qed
  have done': "no_own_write c t m ?a ?j" using buffered [OF ct m, of ?a] e by (auto simp: no_own_write_def)
  have keep: "home_byte c t ?a ?j = home_byte c s ?a ?j" if "no_own_write c s m ?a ?j"
  proof -
    have "buffer_ok c {} (s m)" using co m by (simp add: coherent_def node_ok_def)
    then have "dirty_at c s m ?a" if "getCacheIndex c ?a \<in> set (wb_buffer (s m))" "tag (slot c s m ?a) = ?a"
      using that by (auto simp: buffer_ok_def dirty_at_def)
    then show ?thesis using wb sp(1,3) that by (auto simp: wrote_back_def no_own_write_def)
  qed
  show ?thesis
  proof (cases "m = w")
    case True
    have "home_byte c t ?a ?j = v"
      using pe keep written_back_publishes [OF co w x _ _ wb [unfolded True]] buffered [OF co w]
      by (auto simp: pending_def Let_def True)
    then show ?thesis using pe own done' True by (auto simp: pending_def Let_def)
  next
    case False
    then have h: "home_byte c t ?a ?j = home_byte c s ?a ?j" using keep pe m by (simp add: pending_def Let_def)
    have loc: "same_local c (s w) (t w)" and vp: "vprot (t w) = vprot (s w)" using wb False by (simp_all add: wrote_back_def)
    note same = same_local_bytes [of s w t ?j ?a, OF loc sp(3)] wrote_back_views(2) [OF wb, of w ?a]
    have "load_byte c w x t = load_byte c w x s"
      using vm_read_cases(1) [OF co w x] vm_read_cases(1) [OF ct w x] by (simp add: load_byte_def vp h same)
    moreover have "published c t w ?a ?j = published c s w ?a ?j" using False by (simp add: published_def same h)
    moreover have "no_own_write c t n ?a ?j" if "n < numtasks c" "n \<noteq> w" for n
      using that pe own done' by (cases "n = m") (simp_all add: pending_def Let_def)
    ultimately show ?thesis using pe own [of w] False by (auto simp: pending_def Let_def h)
  qed
qed

text \<open>Once everything is clean, a pending value is in the home memory.\<close>

lemma pending_clean:
  assumes co: "coherent c s" and cl: "all_clean c s" and w: "w < numtasks c" and x: "x < size_of_all c" and pe: "pending c s w x v"
  shows "home_byte c s (page_of c x) (x mod PAGE_SIZE c) = v"
proof -
  have "\<not> dirty_at c s w (page_of c x)" using cl w cache_index_less by (simp add: all_clean_def dirty_at_def)
  then show ?thesis
    using pe vm_read_cases(1) [OF co w x] by (auto simp: pending_def Let_def published_def load_byte_def split: if_splits)
qed


section \<open>The phases of the barrier\<close>

lemma flush_all:
  assumes co: "coherent c s" and ns: "set ns = {..<numtasks c}"
  shows "\<exists>t. foldE (wb_flush E c) ns s = Inr t \<and> coherent c t \<and> all_clean c t
     \<and> (\<forall>w x v. w < numtasks c \<and> x < size_of_all c \<and> pending c s w x v \<longrightarrow> pending c t w x v)"
proof -
  let ?P = "\<lambda>u. coherent c u \<and> (\<forall>w x v. w < numtasks c \<and> x < size_of_all c \<and> pending c s w x v \<longrightarrow> pending c u w x v)"
  let ?Q = "\<lambda>n t. \<forall>i < cachesize c. dirty (cacheControl (t n) i) = CLEAN"
  have "\<exists>t. foldE (wb_flush E c) ns s = Inr t \<and> ?P t \<and> (\<forall>n \<in> set ns. ?Q n t) \<and> (\<forall>y. ?Q y s \<longrightarrow> ?Q y t)"
  proof (rule foldE_each [where P = ?P and Q = ?Q])
    fix n u assume n: "n \<in> set ns" and u: "?P u"
    have n': "n < numtasks c" using n ns by simp
    obtain t where t: "wb_flush E c n u = Inr t" "coherent c t" "wrote_back c n (set (wb_buffer (u n))) u t"
        "wb_buffer (t n) = []"
      using argo_release_effect [of u n] u n' by (auto simp: argo_release_def)
    have "?Q n t"
    proof (intro allI impI)
      fix i assume "i < cachesize c"
      moreover have "buffer_ok c {} (t n)" using t(2) n' by (simp add: coherent_def node_ok_def)
      ultimately show "dirty (cacheControl (t n) i) = CLEAN"
        using t(4) by (cases "dirty (cacheControl (t n) i)") (auto simp: buffer_ok_def)
    qed
    moreover have "?Q y t" if "?Q y u" for y
      using that t(3) \<open>?Q n t\<close> by (cases "y = n") (simp_all add: wrote_back_def)
    moreover have "?P t" using u t(2) flush_pending [OF _ _ n' _ _ t(3,4,2)] by auto
    ultimately show "\<exists>t. wb_flush E c n u = Inr t \<and> ?P t \<and> ?Q n t \<and> (\<forall>y. ?Q y u \<longrightarrow> ?Q y t)"
      using t(1,2) by blast
  qed (use co in simp)
  with ns show ?thesis by (auto simp: all_clean_def)
qed

text \<open>A node with nothing to write back invalidates without touching the other nodes.\<close>

lemma clean_invalidation_local:
  assumes "\<And>i. i < cachesize c \<Longrightarrow> dirty (cacheControl (s r) i) = CLEAN" and "self_invalidation E c r s = Inr t" and "n \<noteq> r"
  shows "t n = s n"
proof -
  obtain f where f: "foldE (self_invalidation_step E c r) [0..<cachesize c] (False, s) = Inr (f, t)"
    using assms(2) by (auto simp: self_invalidation_def cacheline bindE_eq_Inr_conv)
  let ?P = "\<lambda>(f :: bool, u). (\<forall>n. n \<noteq> r \<longrightarrow> u n = s n) \<and> (\<forall>i < cachesize c. dirty (cacheControl (u r) i) = CLEAN)"
  have "?P (f, t)"
    using f
  proof (rule foldE_invariant [where P = ?P])
    fix i st st' assume i: "i \<in> set [0..<cachesize c]" and P: "?P st" and s: "self_invalidation_step E c r i st = Inr st'"
    obtain g u where st: "st = (g, u)" by (cases st)
    have "dirty (cacheControl (u r) i) = CLEAN" using P i st by simp
    with s P show "?P st'"
      by (auto simp: st self_invalidation_step_def Let_def invalidate_entry_def mprotect_page split: if_splits)
  qed (use assms(1) in simp)
  with assms(3) show ?thesis by simp
qed

lemma invalidate_all:
  assumes co: "coherent c s" "all_clean c s" and ns: "set ns = {..<numtasks c}"
  shows "\<exists>t. foldE (self_invalidation E c) ns s = Inr t \<and> coherent c t \<and> all_clean c t
     \<and> (\<forall>n < numtasks c. kept_at c n (t n)) \<and> (\<forall>p j. is_page c p \<and> j < PAGE_SIZE c \<longrightarrow> home_byte c t p j = home_byte c s p j)"
proof -
  let ?P = "\<lambda>u. coherent c u \<and> all_clean c u \<and> (\<forall>p j. is_page c p \<and> j < PAGE_SIZE c \<longrightarrow> home_byte c u p j = home_byte c s p j)"
    and ?Q = "\<lambda>n t. kept_at c n (t n)"
  have "\<exists>t. foldE (self_invalidation E c) ns s = Inr t \<and> ?P t \<and> (\<forall>n \<in> set ns. ?Q n t) \<and> (\<forall>y. ?Q y s \<longrightarrow> ?Q y t)"
  proof (rule foldE_each [where P = ?P and Q = ?Q])
    fix n u assume n: "n \<in> set ns" and u: "?P u"
    have n': "n < numtasks c" using n ns by simp
    obtain f t where t: "self_invalidation E c n u = Inr t" "invalidating c n u (cachesize c) (f, t)"
      using self_invalidation_effect [of u n] u n' by blast
    have same: "t y = u y" if "y \<noteq> n" for y
      using u n' clean_invalidation_local [OF _ t(1) that] by (simp add: all_clean_def)
    have q: "coherent c t" "kept_at c n (t n)" "\<forall>i < cachesize c. dirty (cacheControl (t n) i) = CLEAN"
      using t(2) by (simp_all add: invalidating_def kept_at_def)
    have "all_clean c t" using u q(3) same by (fastforce simp: all_clean_def)
    moreover have "\<not> dirty_at c u n p" for p using u n' cache_index_less by (simp add: all_clean_def dirty_at_def)
    then have "home_byte c t p j = home_byte c s p j" if "is_page c p" "j < PAGE_SIZE c" for p j
      using t(2) u that by (auto simp: invalidating_def)
    moreover have "?Q y t" if "?Q y u" for y using that same q(2) by (cases "y = n") simp_all
    ultimately show "\<exists>t. self_invalidation E c n u = Inr t \<and> ?P t \<and> ?Q n t \<and> (\<forall>y. ?Q y u \<longrightarrow> ?Q y t)"
      using t(1) q by blast
  qed (use co in simp)
  with ns show ?thesis by auto
qed

lemma upgrade_all_writers:
  assumes st: "startAddr c + size_of_all c < 2 ^ 64" and ns: "set ns \<subseteq> {..<numtasks c}" "distinct ns"
  shows "foldE (self_upgrade c upgrade_writers) ns s
     = Inr (\<lambda>n. if n \<in> set ns then writers_cleared c n (size_of_all c div PAGE_SIZE c) (s n) else s n)"
  using ns
proof (induction ns arbitrary: s)
  case (Cons n ns)
  then show ?case using self_upgrade_writers [OF st, of n s] by (auto simp: fun_eq_iff)
qed simp

text \<open>After flush and invalidation, and after an upgrade, whatever can be read is the home memory.\<close>

lemma settled_agreed:
  assumes co: "coherent c s" "all_clean c s" and x: "x < size_of_all c" and v: "home_byte c s (page_of c x) (x mod PAGE_SIZE c) = v"
    and one: "\<And>n. n < numtasks c \<Longrightarrow> home_of c (page_of c x) \<noteq> n \<Longrightarrow> cached c s n (page_of c x) \<Longrightarrow>
        writers c s (home_of c (page_of c x)) (page_of c x) \<subseteq> {n}"
  shows "agreed c x v s"
proof -
  have "\<not> dirty_at c s n (page_of c x)" if "n < numtasks c" for n
    using co(2) that cache_index_less by (simp add: all_clean_def dirty_at_def)
  then have "load_byte c n x s = None \<or> load_byte c n x s = Some v" if "n < numtasks c" for n
    using single_writer_fresh [OF co(1) that x _ _ one] that v by (auto simp: load_byte_def)
  with co v show ?thesis by (simp add: agreed_def)
qed

lemma upgrade_phase:
  assumes co: "coherent c s" "all_clean c s" "\<forall>n < numtasks c. kept_at c n (s n)" and st: "startAddr c + size_of_all c < 2 ^ 64"
    and ns: "set ns = {..<numtasks c}" "distinct ns" and up: "upgrade \<noteq> upgrade_all"
  shows "\<exists>t. (if upgrade \<noteq> upgrade_none then foldE (self_upgrade c upgrade) ns s else Inr s) = Inr t \<and> coherent c t
     \<and> (\<forall>x < size_of_all c. agreed c x (home_byte c s (page_of c x) (x mod PAGE_SIZE c)) t)
     \<and> (upgrade = upgrade_writers \<longrightarrow> (\<forall>n < numtasks c. \<forall>p. is_page c p \<longrightarrow> writers c t n p = {} \<and> vprot (t n) p \<noteq> PROT_READ_WRITE))"
proof (cases upgrade)
  case upgrade_none
  have "agreed c x (home_byte c s (page_of c x) (x mod PAGE_SIZE c)) s" if x: "x < size_of_all c" for x
  proof (rule settled_agreed [OF co(1,2) x refl])
    fix n assume n: "n < numtasks c" and h: "home_of c (page_of c x) \<noteq> n" and ca: "cached c s n (page_of c x)"
    have "keep_page n (get_classification_index c (page_of c x)) (s n)"
      using co(3) [rule_format, OF n] ca cache_index_less [of "page_of c x"] by (auto simp: kept_at_def cached_def)
    then show "writers c s (home_of c (page_of c x)) (page_of c x) \<subseteq> {n}"
      using kept_single_writer [OF co(1) n address_split(1) [OF x] h ca] by simp
  qed
  with upgrade_none co(1) show ?thesis by simp
next
  case upgrade_writers
  define t where "t = (\<lambda>n. if n < numtasks c then writers_cleared c n (size_of_all c div PAGE_SIZE c) (s n) else s n)"
  have t: "coherent c t" "\<And>n p. n < numtasks c \<Longrightarrow> is_page c p \<Longrightarrow> writers c t n p = {}"
      "\<And>n p. n < numtasks c \<Longrightarrow> is_page c p \<Longrightarrow> vprot (t n) p \<noteq> PROT_READ_WRITE" "home_byte c t = home_byte c s"
    unfolding t_def by (rule upgraded_coherent [OF co]; assumption)+
  have "all_clean c t" using co(2) by (simp add: all_clean_def t_def writers_cleared_def)
  then have "agreed c x (home_byte c s (page_of c x) (x mod PAGE_SIZE c)) t" if "x < size_of_all c" for x
    using t address_split(1) [OF that] home_less that by (intro settled_agreed) simp_all
  moreover have "foldE (self_upgrade c upgrade) ns s = Inr t"
    using upgrade_all_writers [OF st _ ns(2), of s] ns(1) upgrade_writers by (simp add: t_def)
  ultimately show ?thesis using t upgrade_writers by auto
qed (use up in simp)

lemma barrier_publishes_effect:
  assumes co: "coherent c s" and st: "startAddr c + size_of_all c < 2 ^ 64" and N: "numtasks c \<noteq> 1"
    and ns: "set ns = {..<numtasks c}" "distinct ns" and up: "upgrade \<noteq> upgrade_all"
  shows "\<exists>t. swdsm_argo_barrier E c ns upgrade s = Inr t \<and> coherent c t
     \<and> (\<forall>w x v. w < numtasks c \<and> x < size_of_all c \<and> pending c s w x v \<longrightarrow> agreed c x v t)
     \<and> (upgrade = upgrade_writers \<longrightarrow> (\<forall>n < numtasks c. \<forall>p. is_page c p \<longrightarrow> writers c t n p = {} \<and> vprot (t n) p \<noteq> PROT_READ_WRITE))"
proof -
  let ?bump = "\<lambda>n. upd n (\<lambda>nd. nd\<lparr>barriers := add64 (barriers nd) 1\<rparr>)"
  let ?W = "\<lambda>u. upgrade = upgrade_writers \<longrightarrow> (\<forall>n < numtasks c. \<forall>p. is_page c p \<longrightarrow> writers c u n p = {} \<and> vprot (u n) p \<noteq> PROT_READ_WRITE)"
  let ?P = "\<lambda>u. coherent c u \<and> (\<forall>w x v. w < numtasks c \<and> x < size_of_all c \<and> pending c s w x v \<longrightarrow> agreed c x v u) \<and> ?W u"
  obtain s1 where s1: "foldE (wb_flush E c) ns s = Inr s1" "coherent c s1" "all_clean c s1"
      "\<And>w x v. w < numtasks c \<Longrightarrow> x < size_of_all c \<Longrightarrow> pending c s w x v \<Longrightarrow> pending c s1 w x v"
    using flush_all [OF co ns(1)] by blast
  obtain s2 where s2: "foldE (self_invalidation E c) ns s1 = Inr s2" "coherent c s2" "all_clean c s2"
      "\<forall>n < numtasks c. kept_at c n (s2 n)" "\<forall>p j. is_page c p \<and> j < PAGE_SIZE c \<longrightarrow> home_byte c s2 p j = home_byte c s1 p j"
    using invalidate_all [OF s1(2,3) ns(1)] by blast
  have hv: "home_byte c s2 (page_of c x) (x mod PAGE_SIZE c) = v"
    if "w < numtasks c" "x < size_of_all c" "pending c s w x v" for w x v
    using pending_clean [OF s1(2,3) that(1,2) s1(4) [OF that]] s2(5) address_split(1,3) [OF that(2)] by simp
  obtain s3 where s3: "(if upgrade \<noteq> upgrade_none then foldE (self_upgrade c upgrade) ns s2 else Inr s2) = Inr s3" "coherent c s3"
      "\<forall>x < size_of_all c. agreed c x (home_byte c s2 (page_of c x) (x mod PAGE_SIZE c)) s3" "?W s3"
    using upgrade_phase [OF s2(2-4) st ns up] by blast
  have P: "?P s3" using s3(2-4) hv by blast
  have "?P (fold ?bump ns s3)"
  proof (rule fold_invariant_set [where P = ?P, OF P])
    show "?P (?bump n u)" if "?P u" for n u
      using that count_coherent [of u n] agreed_bump [of _ _ u n] by (auto simp: writers_def upd_def)
  qed
  moreover have "swdsm_argo_barrier E c ns upgrade s = Inr (fold ?bump ns s3)"
    using N s1(1) s2(1) s3(1) by (simp add: swdsm_argo_barrier_def Let_def)
  ultimately show ?thesis by blast
qed

lemma barrier_publishes_read:
  assumes co: "coherent c s" and st: "startAddr c + size_of_all c < 2 ^ 64" and ns: "set ns = {..<numtasks c}" "distinct ns"
    and up: "upgrade \<noteq> upgrade_all" and w: "w < numtasks c" and x: "x < size_of_all c"
    and v: "load_byte c w x s = Some v" "published c s w (page_of c x) (x mod PAGE_SIZE c)"
    and own: "\<forall>n < numtasks c. n \<noteq> w \<longrightarrow> no_own_write c s n (page_of c x) (x mod PAGE_SIZE c)"
  shows "\<exists>t. swdsm_argo_barrier E c ns upgrade s = Inr t \<and> coherent c t
     \<and> (\<forall>n < numtasks c. \<exists>u. read_byte E c n x t = Inr (Some v, u))"
proof (cases "numtasks c = 1")
  case False
  have pe: "pending c s w x v" using own v by (simp add: pending_def Let_def)
  then show ?thesis
    using barrier_publishes_effect [OF co st False ns up] agreed_read [OF _ _ x] w x by blast
next
  case True
  let ?bump = "\<lambda>n. upd n (\<lambda>nd. nd\<lparr>barriers := add64 (barriers nd) 1\<rparr>)"
  let ?P = "\<lambda>u. coherent c u \<and> load_byte c w x u = Some v"
  have "?P (fold ?bump ns s)"
  proof (rule fold_invariant_set [where P = ?P])
    show "?P (?bump n u)" if "?P u" for n u using that count_coherent [of u n] load_byte_bump [of w x n u] by simp
  qed (use co v in simp)
  moreover have "n = w" if "n < numtasks c" for n using that w True by simp
  ultimately show ?thesis using True by (auto simp: swdsm_argo_barrier_def Let_def read_byte_def)
qed

section \<open>The upgrade of everything leaves a copy behind\<close>

lemma self_upgrade_step_all:
  assumes st: "startAddr c + size_of_all c < 2 ^ 64" and k: "k < size_of_all c div PAGE_SIZE c" and r: "r < numtasks c"
  defines "p \<equiv> k * PAGE_SIZE c"
  shows "self_upgrade_step c r upgrade_all (2 * k) nd = Inr
    (let nd' = set_sharers ((globalSharers nd)(2 * k := 0, 2 * k + 1 := 0)) nd
     in if home_of c p = r \<or> tag (cacheControl nd (getCacheIndex c p)) = p \<and> state (cacheControl nd (getCacheIndex c p)) = VALID
        then if r \<in> ranks (globalSharers nd (2 * k)) then invalidate_entry c (getCacheIndex c p) p nd'
             else if r \<in> ranks (globalSharers nd (2 * k + 1)) then nd'\<lparr>vprot := (vprot nd')(p := PROT_READ)\<rparr> else nd'
        else nd')"
  unfolding self_upgrade_step_def Let_def cacheline p_def
  by (simp add: is_cached_eq [OF st page_k [OF k]] and_node_bit_iff [OF rank_64 [OF r]] mprotect_page)

lemma upgrade_rounds_step:
  assumes st: "startAddr c + size_of_all c < 2 ^ 64" and k: "k < size_of_all c div PAGE_SIZE c" and r: "r < numtasks c"
    and h: "is_page c h" "home_of c h = r" "r \<in> ranks (globalSharers nd (get_classification_index c h))"
    and q: "is_page c q" "home_of c q \<noteq> r" "h < q" "getCacheIndex c q = getCacheIndex c h"
    and I: "upgrade_rounds c h q k nd nd1"
  shows "\<exists>nd2. self_upgrade_step c r upgrade_all (2 * k) nd1 = Inr nd2 \<and> upgrade_rounds c h q (Suc k) nd nd2"
proof -
  let ?p = "k * PAGE_SIZE c" and ?i = "getCacheIndex c q"
  obtain nd2 where nd2: "self_upgrade_step c r upgrade_all (2 * k) nd1 = Inr nd2"
    using self_upgrade_step_all [OF st k r] by blast
  note e = self_upgrade_step_all [OF st k r, of nd1, unfolded nd2 sum.inject Let_def]
  have gs: "globalSharers nd2 = (globalSharers nd1)(2 * k := 0, 2 * k + 1 := 0)"
    and fr: "vmap nd2 = vmap nd1" "backing nd2 = backing nd1"
    and cc: "tag (cacheControl nd2 i) = tag (cacheControl nd1 i)" "dirty (cacheControl nd1 i) = CLEAN \<Longrightarrow> dirty (cacheControl nd2 i) = CLEAN"
      "touchedcache nd2 i \<Longrightarrow> touchedcache nd1 i" "state (cacheControl nd1 i) = INVALID \<Longrightarrow> state (cacheControl nd2 i) = INVALID"
    and vp: "p \<noteq> ?p \<Longrightarrow> vprot nd2 p = vprot nd1 p" for i p
    unfolding e by (auto simp: set_sharers_def invalidate_entry_def mprotect_page split: if_splits)
  have at_h: "state (cacheControl nd2 ?i) = INVALID \<and> \<not> touchedcache nd2 ?i" if "?p = h"
  proof -
    have "get_classification_index c h = 2 * k" using class_index [OF h(1)] page_pos that by auto
    then have "r \<in> ranks (globalSharers nd1 (2 * k))" using h(3) I by (simp add: upgrade_rounds_def)
    then show ?thesis unfolding e using h(2) q(4) that by (simp add: set_sharers_def invalidate_entry_def mprotect_page)
  qed
  have at_q: "vprot nd2 q = vprot nd1 q" if "?p = q"
  proof -
    have "state (cacheControl nd1 ?i) = INVALID" using I q(3) that by (simp add: upgrade_rounds_def)
    then show ?thesis unfolding e using q(2) that by (simp add: set_sharers_def)
  qed
  have "h < ?p \<or> h = ?p" if "h < Suc k * PAGE_SIZE c"
    using that h(1) page_pos by (auto simp: is_page_def less_Suc_eq mult.commute [of "PAGE_SIZE c"] simp del: mult_Suc elim!: dvdE)
  then have "upgrade_rounds c h q (Suc k) nd nd2"
    using I at_h at_q vp [of q] cc
    unfolding upgrade_rounds_def gs fr by (auto simp: less_Suc_eq simp del: mult_Suc)
  with nd2 show ?thesis by blast
qed

lemma self_upgrade_all:
  assumes st: "startAddr c + size_of_all c < 2 ^ 64" and r: "r < numtasks c"
    and h: "is_page c h" "home_of c h = r" "r \<in> sharers c s r h"
    and q: "is_page c q" "home_of c q \<noteq> r" "h < q" "getCacheIndex c q = getCacheIndex c h"
  shows "\<exists>nd. self_upgrade c upgrade_all r s = Inr (s(r := nd)) \<and> upgrade_rounds c h q (size_of_all c div PAGE_SIZE c) (s r) nd"
proof -
  have "k \<le> size_of_all c div PAGE_SIZE c \<Longrightarrow>
      \<exists>nd. foldE (self_upgrade_step c r upgrade_all) (map (\<lambda>k. k * 2) [0..<k]) (s r) = Inr nd \<and> upgrade_rounds c h q k (s r) nd" for k
  proof (induction k)
    case 0
    then show ?case by (simp add: upgrade_rounds_def)
  next
    case (Suc k)
    then obtain nd where nd: "foldE (self_upgrade_step c r upgrade_all) (map (\<lambda>k. k * 2) [0..<k]) (s r) = Inr nd"
        "upgrade_rounds c h q k (s r) nd" by auto
    from upgrade_rounds_step [OF st _ r h(1,2) h(3) [unfolded sharers_def] q nd(2)] Suc.prems
    show ?case by (auto simp: foldE_append nd(1) mult.commute)
  qed
  moreover have "c_range 0 (classificationSize c) 2 = map (\<lambda>k. k * 2) [0..<size_of_all c div PAGE_SIZE c]"
    by (simp add: c_range_def class_size)
  ultimately show ?thesis by (fastforce simp: self_upgrade_def)
qed

lemma acquire_left_behind:
  assumes ok: "node_ok c {} {} r (s r)" and lb: "left_behind c r q s t"
  shows "\<exists>u. argo_acquire E c r t = Inr u \<and> left_behind c r q s u"
proof -
  let ?P = "\<lambda>(f :: bool, u). left_behind c r q s u"
  have "\<exists>st. foldE (self_invalidation_step E c r) [0..<cachesize c] (False, t) = Inr st \<and> ?P st"
  proof (rule foldE_total [where P = ?P])
    fix i st assume i: "i \<in> set [0..<cachesize c]" and P: "?P st"
    obtain f u where st: "st = (f, u)" by (cases st)
    let ?a = "tag (cacheControl (u r) i)"
    have u: "left_behind c r q s u" using P st by simp
    show "\<exists>st'. self_invalidation_step E c r i st = Inr st' \<and> ?P st'"
    proof (cases "touchedcache (u r) i")
      case False
      with u st show ?thesis by (simp add: self_invalidation_step_def)
    next
      case True
      have "slot_ok c r (s r) i" using ok i by (simp add: node_ok_def)
      moreover have "touchedcache (s r) i" "?a = tag (cacheControl (s r) i)" "i \<noteq> getCacheIndex c q" "dirty (cacheControl (u r) i) = CLEAN"
        using u i True by (auto simp: left_behind_def)
      ultimately have a: "is_page c ?a" "getCacheIndex c ?a = i" "?a \<noteq> q" "i \<noteq> getCacheIndex c q" "dirty (cacheControl (u r) i) = CLEAN"
        by (auto simp: slot_ok_def Let_def split: if_splits)
      then have line: "?a div PAGE_SIZE c * PAGE_SIZE c = ?a" by (simp add: is_page_def)
      have "left_behind c r q s (upd r (invalidate_entry c i ?a) u)"
        using u a(3,4) by (auto simp: left_behind_def invalidate_entry_def mprotect_page sharers_def)
      with u True st a(5) line show ?thesis
        by (simp add: self_invalidation_step_def Let_def cacheline touch_again)
    qed
  qed (use lb in simp)
  then show ?thesis by (auto simp: argo_acquire_def self_invalidation_def cacheline)
qed

lemma upgrade_all_stale:
  assumes co: "coherent c s" and st: "startAddr c + size_of_all c < 2 ^ 64" and r: "r < numtasks c" and e: "wb_buffer (s r) = []"
    and h: "is_page c h" "home_of c h = r" "r \<in> sharers c s r h"
    and q: "is_page c q" "home_of c q \<noteq> r" "h < q" "getCacheIndex c q = getCacheIndex c h" and ca: "cached c s r q"
  shows "\<exists>t u. self_upgrade c upgrade_all r s = Inr t \<and> \<not> coherent c t \<and> argo_acquire E c r t = Inr u \<and> r \<notin> sharers c u r q
     \<and> (\<forall>x. page_of c x = q \<longrightarrow> load_byte c r x u = load_byte c r x s \<and> load_byte c r x s \<noteq> None)"
proof -
  have ok: "node_ok c {} {} r (s r)" using co r by (simp add: coherent_def)
  obtain nd where nd: "self_upgrade c upgrade_all r s = Inr (s(r := nd))" "upgrade_rounds c h q (size_of_all c div PAGE_SIZE c) (s r) nd"
    using self_upgrade_all [OF st r h q] by blast
  let ?t = "s(r := nd)"
  have "h < size_of_all c div PAGE_SIZE c * PAGE_SIZE c" using h(1) size_pages by (simp add: is_page_def)
  moreover have "get_classification_index c q < 2 * (size_of_all c div PAGE_SIZE c)"
    using class_index [OF q(1)] q(1) size_pages page_pos by (auto simp: is_page_def div_less_iff_less_mult)
  moreover have "dirty (cacheControl (s r) i) = CLEAN" if "i < cachesize c" for i
    using ok e that by (cases "dirty (cacheControl (s r) i)") (auto simp: node_ok_def buffer_ok_def)
  ultimately have lb: "left_behind c r q s ?t" using nd(2) by (auto simp: left_behind_def upgrade_rounds_def sharers_def)
  obtain u where u: "argo_acquire E c r ?t = Inr u" "left_behind c r q s u" using acquire_left_behind [OF ok lb] by blast
  have vp: "vprot (s r) q \<noteq> PROT_NONE"
    using node_home(3) [OF ok q(1)] ca by (auto simp: cached_def slot_prot_def)
  have "\<not> coherent c ?t"
  proof
    assume c: "coherent c ?t"
    have qq: "page_of c q = q" "q < size_of_all c" using q(1) by (auto simp: is_page_def align_backwards_def cacheline)
    have "cached c ?t r (page_of c q)"
      using vm_read_cases(2) [OF c r qq(2)] vp lb q(2) by (simp add: qq left_behind_def)
    then show False using lb by (simp add: qq cached_def left_behind_def)
  qed
  moreover have "load_byte c r x u = load_byte c r x s" "load_byte c r x s \<noteq> None" if "page_of c x = q" for x
    using that u(2) vp by (simp_all add: load_byte_def vm_read_def left_behind_def split: option.split)
  ultimately show ?thesis using nd(1) u by (auto simp: left_behind_def)
qed

end

end
