(* ===== verification/Spec2Isabelle.thy ===== *)
theory Spec2Isabelle
  imports Argo_Api Local_Locks Objects First_Touch_Placement Singlenode Barrier_Threads Handler_Races Statistics Upgrade_Coherence
begin

text \<open>
  A verification development of ArgoDSM, a software distributed shared memory. Every node of a cluster
  runs the same program; a range of virtual addresses is shared. Each page has a home node. A node that
  touches a page gets a page fault, whose handler maps the page of the home memory or loads a copy into
  the page cache. Copies become coherent only at synchronisation: a release writes modified pages back to
  their homes, an acquire throws away copies that may be stale. A directory at the home node records
  who reads and who writes a page, so that pages with a single user are kept.

  \<^bold>\<open>Parts and how they meet.\<close> \<^verbatim>\<open>argo::init\<close> reads the environment, reserves the address range, brings up the
  backend and the allocators. The policies of \<^verbatim>\<open>data_distribution\<close> say where a byte lives. The MPI backend
  (\<^verbatim>\<open>swdsm.cpp\<close>, \<^verbatim>\<open>write_buffer.hpp\<close>, \<^verbatim>\<open>coherence.cpp\<close>, \<^verbatim>\<open>mpi.cpp\<close>) implements the memory and its atomic
  operations on one-sided MPI; \<^verbatim>\<open>singlenode.cpp\<close> is the backend without MPI. Locks of the application use
  the atomics and acquire and release. Memory pools carve the global memory into chunks, the allocators
  carve the chunks into blocks, and \<^verbatim>\<open>new_\<close> and \<^verbatim>\<open>conew_\<close> construct objects in the blocks.

  \<^bold>\<open>Theories.\<close>

  \<^item> \<open>Argo_Prelude\<close>: results that may be errors, 32- and 64-bit arithmetic on natural numbers, loops as lists of
    indices, bytes. A C++ exception, a failed assertion and undefined behaviour are values of \<open>argo_error\<close>.
  \<^item> \<open>Data_Distribution\<close>, \<open>Distribution_Policies\<close>, \<open>Global_Ptr\<close>: the naive, cyclic, skew-mapp and prime-mapp policies
    with their range checks and \<^verbatim>\<open>global_ptr.hpp\<close>. The locale \<open>block_distribution\<close> derives that a policy is a
    bijection of addresses and places from its action on blocks; the four policies are interpretations.
    The search of prime-mapp is shown to end.
  \<^item> \<open>First_Touch\<close>, \<open>First_Touch_Placement\<close>: the first-touch policy. A call is a sequence of steps, one for each access
    to a window, and the calls of all nodes interleave. They refine a placement that is injective and
    written once; a call that runs alone ends within \<open>4 n + 9\<close> steps for \<open>n\<close> nodes, the longest way round all
    nodes when each is full but the last.
  \<^item> \<open>Mpi_Rma\<close>: the MPI operations, as parameters with laws, and an instance.
  \<^item> \<open>Swdsm_State\<close>: configuration, state of a node, address arithmetic. \<open>Swdsm_Cache\<close>: \<^verbatim>\<open>storepageDIFF\<close> and the write
    buffer. \<open>Swdsm_Load\<close>: \<^verbatim>\<open>load_cache_entry\<close>. \<open>Swdsm_Handler\<close>: \<^verbatim>\<open>handler\<close>. \<open>Swdsm_Sync\<close>: acquire, release, barrier, reset
    and the selective operations of \<^verbatim>\<open>coherence.cpp\<close>. \<open>Swdsm_Init\<close>: \<^verbatim>\<open>argo_initialize\<close> and \<^verbatim>\<open>argo_finalize\<close>.
  \<^item> \<open>Directory_Bits\<close>, \<open>Cache_Invariant\<close>, \<open>Coherence_Invariant\<close>, \<open>Coherence_Fill\<close>, \<open>Coherence_Load\<close>, \<open>Coherence_Handler\<close>,
    \<open>Coherence_Main\<close>: the invariant \<open>coherent\<close> of the whole cluster, inside the locale \<open>dsm\<close>, and that every
    operation keeps it and does what it promises. \<open>dsm_step\<close> is the relation of faults, stores, acquires,
    releases and barriers of all nodes in any order. \<open>Selective_Coherence\<close>: what the selective operations do
    to a range, and that an acquire of a modified page loses the modification. \<open>Upgrade_Coherence\<close>: the barrier of
    all nodes with a classification upgrade. The upgrade of the writers keeps \<open>coherent\<close> and every node then reads what
    was written before; the upgrade of everything can leave a copy behind that is never thrown away.
  \<^item> \<open>Barrier_Threads\<close>: the threads of all nodes in \<^verbatim>\<open>swdsm_argo_barrier\<close>, one step per call, thread barrier, trylock, flush,
    \<^verbatim>\<open>MPI_Barrier\<close>, invalidation, upgrade and return. \<open>Handler_Races\<close>: the window between the release of the cache lock and
    the entry in the write buffer, and the reset of the coherence state with modified pages.
  \<^item> \<open>Statistics\<close>: the cache lock with its clocks, the write buffer as an object with its statistics, and
    \<^verbatim>\<open>print_statistics\<close> as a collective of all nodes.
  \<^item> \<open>Virtual_Memory\<close>: the three implementations of \<^verbatim>\<open>virtual_memory.hpp\<close> and the layout of the internal arrays. The
    pair of a backing memory and a mapping that a node of \<open>Swdsm_State\<close> has is shown to be what the process
    has, by a simulation over the locale \<open>vm_backend\<close>.
  \<^item> \<open>Mpi_Atomics\<close>, \<open>Global_Locks\<close>: the atomic operations of \<^verbatim>\<open>backend.hpp\<close> and \<^verbatim>\<open>mpi.cpp\<close>, the global test-and-set lock
    and the cohort lock on top of them.
  \<^item> \<open>Mpi_Lock\<close>: the lock of an MPI window. \<open>Local_Locks\<close>: ticket lock and MCS lock; both refine a queue of threads,
    stated once in the locale \<open>queue_lock\<close>.
  \<^item> \<open>Mempools\<close>, \<open>Allocators\<close>, \<open>Allocation\<close>, \<open>Objects\<close>: pools, \<^verbatim>\<open>generic_allocator\<close>, the default allocators of all nodes,
    construction and destruction of objects. The locales \<open>mempool\<close>, \<open>allocator\<close> and \<open>growing\<close> are the contracts
    through which an allocator uses a pool and a pool uses an allocator.
  \<^item> \<open>Singlenode\<close>: the backend without MPI. \<open>Argo_Env\<close>: the environment variables. \<open>Argo_Api\<close>: \<^verbatim>\<open>argo::init\<close>, \<^verbatim>\<open>reset\<close>,
    \<^verbatim>\<open>finalize\<close>, the queries and the dispatch of signals.

  \<^bold>\<open>This theory\<close> holds the properties that span components: the coherence invariant, what a reader sees after
  release and acquire, of the memory or of a range, and after a barrier, completion of reads and writes, the
  rounds of the barrier, the ways in which entries of the write buffer become invalid, atomics and global
  locks over the shared memory, and that the two backends agree.

  \<^bold>\<open>Conventions.\<close> A node's operation is atomic: the cache locks and the synchronisation lock of the code make
  operations on one cache entry, and synchronisations of one node, exclude each other; the interleaving of
  nodes is that of whole operations. Locks, the threads at a barrier of either backend and the first-touch
  policy, whose correctness is about finer steps, have one step per access to shared data or call that waits. Atomic
  accesses are sequentially consistent.

  \<^bold>\<open>Bounds.\<close> A page is \<open>granularity\<close> bytes and \<^verbatim>\<open>CACHELINE\<close> is 1, the only value \<^verbatim>\<open>CMakeLists.txt\<close> allows. At most 64 nodes, the
  width of a directory entry. \<open>init_ok\<close> admits memories below \<open>2 ^ 42\<close> bytes, so that the index into the directory
  fits an \<^verbatim>\<open>int\<close>; pools are below \<open>size_bound\<close>, \<open>2 ^ 62\<close> bytes, so that their sums do not wrap around. The loop
  that flushes the write buffer and the loops over pages recurse on the remaining entries. \<open>tas_lock\<close> has fuel,
  the number of attempts; with the lock free one attempt is enough, which is shown.

  \<^bold>\<open>Not modelled.\<close> The statistics that only count time outside the locks, the write buffer and the report. The
  creation of MPI windows and communicators. The C functions, which forward. Interleavings of two page faults of
  one node, apart from the window of \<open>Handler_Races\<close>. The delegation lock is a submodule and, like MPI and the system
  calls, a parameter with its documented effect. A \<^verbatim>\<open>double\<close> time is a real number. Constructors that throw.
\<close>

section \<open>A concrete system\<close>

text \<open>
  Two nodes with the naive policy and a global memory of four pages: the instance on which the
  properties below are exercised.
\<close>

definition demo_params :: init_params where
  "demo_params = \<lparr>p_PAGE_SIZE = 4096, p_CACHELINE = 1, p_numtasks = 2, p_start = 4096,
     p_env = \<lparr>value_memory_size = 16384, value_cache_size = 8192, value_write_buffer_size = 512,
        value_write_buffer_write_back_size = 32, value_allocation_policy = 0,
        value_allocation_block_size = 16, value_load_size = 8, value_mpi_windows_per_node = 4,
        value_print_statistics = 2, is_initialized = True\<rparr>\<rparr>"

definition demo_policy :: dist_ops where
  "demo_policy = plain_ops (naive_homenode (init_space demo_params 16384))
     (naive_local_offset (init_space demo_params 16384))"

definition demo_config :: swdsm_config where
  "demo_config = init_config demo_params demo_policy 16384 8192"

lemma demo_init: "init_ok demo_params 16384" "init_policy demo_params 16384 = Some demo_policy"
  by (simp_all add: init_ok_def demo_params_def granularity_def init_unit_def plain_padding_def
      is_cyclic_policy_def is_prime_mapp_policy_def init_policy_def policy_of_number_def demo_policy_def)

lemma demo_size: "size_of_all demo_config = 16384" "numtasks demo_config = 2"
  by (simp_all add: demo_config_def init_config_def Let_def demo_params_def standard_size_def
      init_padding_def policy_padding_def is_cyclic_policy_def is_prime_mapp_policy_def mul64_def wrap64_def
      add64_def align_forwards_def)

lemma demo_cache: "cachesize demo_config = 2" "wb_max_size demo_config = 512"
proof -
  have "cachesize demo_config = cache_pages demo_params (size_of_all demo_config) 8192"
    by (simp add: demo_config_def init_config_def Let_def)
  also have "\<dots> = 2"
    by (simp add: demo_size cache_pages_def align_forwards_def mul64_def wrap64_def add64_def) (simp add: demo_params_def)
  finally show "cachesize demo_config = 2" .
  show "wb_max_size demo_config = 512" by (simp add: demo_config_def init_config_def Let_def) (simp add: demo_params_def)
qed

interpretation demo: initialised ext_seq demo_params demo_policy 16384 8192
  by unfold_locales (rule demo_init)+

lemma demo_coherent: "\<exists>s. dsm ext_seq demo_config \<and> coherent demo_config s
     \<and> (\<forall>r < 2. \<forall>p. is_page demo_config p \<longrightarrow> vprot (s r) p = PROT_NONE)"
  using demo.starts_coherent demo.dsm_axioms by (fastforce simp: demo_config_def demo_params_def)

lemma demo_page: "x < 16384 \<Longrightarrow> page_of demo_config x = x div 4096 * 4096" "PAGE_SIZE demo_config = 4096"
  by (simp_all add: demo_config_def init_config_def Let_def demo_params_def align_backwards_def)

lemma demo_home_of: "x < 16384 \<Longrightarrow> home_of demo_config x = x div 8192"
proof -
  assume x: "x < 16384"
  let ?D = "init_space demo_params 16384"
  have ss: "standard_size demo_params 16384 = 16384"
    using demo_size(1) by (simp add: demo_config_def init_config_def Let_def)
  have sp: "size_per_node ?D = 8192" "start_address ?D = 4096" "total_size ?D = 16384"
    using ss by (simp_all add: init_space_def set_memory_space_def) (simp_all add: demo_params_def)
  have "get_homenode demo_config x = naive_homenode ?D (start_address ?D + x)"
    using plain_policy(1) [of demo_config "naive_homenode ?D" "naive_local_offset ?D" x] x
    by (simp add: sp) (simp add: demo_config_def init_config_def Let_def demo_policy_def demo_params_def add64_def wrap64_def add.commute)
  moreover have "naive_homenode ?D (start_address ?D + x) = Inr (x div 8192)"
    using naive.home_block [OF init_space_wf(1) [OF demo_init(1)], of x] x by (simp add: sp)
  ultimately show ?thesis by (simp add: home_of_def)
qed

lemma demo_home: "home_of demo_config 0 = 0"
  by (simp add: demo_home_of)

lemma demo_zero: "align_backwards 0 k = 0" "is_page demo_config 0"
  by (simp_all add: align_backwards_def is_page_def demo_size)

lemma demo_start: "startAddr demo_config = 4096"
  by (simp add: demo_config_def init_config_def Let_def demo_params_def)

text \<open>A reachable state in which node 0, the home of page 0, has read its first byte.\<close>

lemma demo_uncached:
  assumes "dsm ext_seq demo_config" and "coherent demo_config s"
    and "\<forall>r < 2. \<forall>p. is_page demo_config p \<longrightarrow> vprot (s r) p = PROT_NONE"
    and "n < 2" and "is_page demo_config p"
  shows "\<not> cached demo_config s n p" and "\<not> dirty_at demo_config s n p"
proof -
  have c0: "coherent_at demo_config n {} {} s" using assms(2) by (simp add: coherent_at_empty)
  have n: "n < numtasks demo_config" using assms(4) by (simp add: demo_size)
  show nc: "\<not> cached demo_config s n p"
  proof
    assume d: "cached demo_config s n p"
    have "vprot (s n) p = slot_prot (slot demo_config s n p)"
      using dsm.node_home(3) [OF assms(1) coherent_at_node [OF c0 n] assms(5)] d by (simp add: cached_def)
    then show False using assms(3-5) d by (auto simp: cached_def slot_prot_def split: if_splits)
  qed
  show "\<not> dirty_at demo_config s n p" using dsm.dirty_cached [OF assms(1) c0 n] nc by blast
qed

lemma demo_read: "\<exists>s. dsm ext_seq demo_config \<and> coherent demo_config s \<and> (\<exists>v. load_byte demo_config 0 0 s = Some v)
     \<and> \<not> dirty_at demo_config s 1 0 \<and> (\<forall>n < 2. \<forall>p. is_page demo_config p \<longrightarrow> \<not> cached demo_config s n p)"
proof -
  obtain s where s: "dsm ext_seq demo_config" "coherent demo_config s" "\<forall>r < 2. \<forall>p. is_page demo_config p \<longrightarrow> vprot (s r) p = PROT_NONE"
    using demo_coherent by blast
  have pg: "page_of demo_config 0 = 0" "is_page demo_config 0"
    using demo_page(1) [of 0] by (simp_all add: is_page_def demo_size)
  have nd: "\<not> dirty_at demo_config s 1 0" using demo_uncached(2) [OF s _ pg(2), of 1] by simp
  obtain t where t: "coherent demo_config t" "load_byte demo_config 0 0 t \<noteq> None" "\<forall>n. cacheControl (t n) = cacheControl (s n)"
    using dsm.read_fault_effect [OF s(1,2), of 0 0] s(3) pg demo_home demo_size by auto
  have "\<not> cached demo_config t n p" if "n < 2" "is_page demo_config p" for n p
    using demo_uncached(1) [OF s that] t(3) by (simp add: cached_def)
  then show ?thesis using s(1) nd t by (auto simp: dirty_at_def)
qed

text \<open>A state in which node 1 has page 0 in its cache, and node 0, its home, can read it.\<close>

lemma demo_shared: "\<exists>s v. dsm ext_seq demo_config \<and> coherent demo_config s \<and> load_byte demo_config 0 0 s = Some v
     \<and> slot demo_config s 1 0 = \<lparr>state = VALID, dirty = CLEAN, tag = 0\<rparr>"
proof -
  obtain s where s: "dsm ext_seq demo_config" "coherent demo_config s" "vprot (s 1) 0 = PROT_NONE"
    using demo_coherent demo_zero by fastforce
  obtain t where t: "coherent demo_config t" "slot demo_config t 1 0 = \<lparr>state = VALID, dirty = CLEAN, tag = 0\<rparr>"
    using dsm.read_fault_effect [OF s(1,2), of 1 0] s(3) demo_zero demo_home demo_size by auto
  show ?thesis
  proof (cases "vprot (t 0) 0 = PROT_NONE")
    case True
    then obtain u where "coherent demo_config u" "load_byte demo_config 0 0 u \<noteq> None" "cacheControl (u 1) = cacheControl (t 1)"
      using dsm.read_fault_effect [OF s(1) t(1), of 0 0] demo_zero demo_home demo_size by auto
    then show ?thesis using s(1) t(2) by auto
  qed (use s(1) t demo_zero in \<open>auto simp: load_byte_def\<close>)
qed

text \<open>A state in which nodes 0 and 1 have both written page 0.\<close>

lemma demo_written: "\<exists>s. dsm ext_seq demo_config \<and> coherent demo_config s \<and> dirty_at demo_config s 1 0
     \<and> \<not> keep_page 1 (get_classification_index demo_config 0) (s 1)"
proof -
  obtain s where s: "dsm ext_seq demo_config" "coherent demo_config s" using demo_coherent by blast
  obtain t where t: "coherent demo_config t" "dirty_at demo_config t 1 0"
    using dsm.handler_effect [OF s, of 1 0 write_access] demo_zero demo_home demo_size by auto
  have home_write: "\<exists>v. coherent demo_config v \<and> dirty_at demo_config v 1 0
      \<and> (if 0 \<in> sharers demo_config u 0 0 then vprot (v 0) 0 = PROT_READ_WRITE else 0 \<in> sharers demo_config v 0 0)"
    if "coherent demo_config u" "dirty_at demo_config u 1 0" for u
    using dsm.handler_effect [OF s(1) that(1), of 0 0 write_access] that(2) demo_zero demo_home demo_size
    by (auto simp: dirty_at_def)
  obtain u where u: "coherent demo_config u" "dirty_at demo_config u 1 0" "vprot (u 0) 0 = PROT_READ_WRITE"
    using home_write [OF t] home_write by (metis (full_types))
  have "0 \<in> writers demo_config u 0 0" using u(1,3) demo_zero demo_home demo_size by (auto simp: coherent_def link_ok_def)
  moreover have "cached demo_config u 1 0"
    using dsm.dirty_cached [OF s(1), of 1 "{}" "{}" u 0] u(1,2) demo_size by (simp add: coherent_at_empty)
  ultimately have "\<not> keep_page 1 (get_classification_index demo_config 0) (u 1)"
    using dsm.kept_single_writer [OF s(1) u(1), of 1 0] demo_zero demo_home demo_size by auto
  then show ?thesis using s(1) u(1,2) by blast
qed


section \<open>Properties of the shared memory\<close>

text \<open>
  Claim C2. The coherence invariant holds in every state the system can reach by page faults,
  application stores, acquires, releases and barriers, in any order and on any nodes.
\<close>

theorem coherence_invariant:
  assumes "dsm E c" and "coherent c s" and "(dsm_step E c)\<^sup>*\<^sup>* s t"
  shows "coherent c t"
  using dsm.reachable_coherent [OF assms(1,3,2)] .

theorem coherence_invariant_witness:
  "\<exists>s t. coherent demo_config s \<and> dsm_step ext_seq demo_config s t \<and> coherent demo_config t"
proof -
  obtain s where s: "dsm ext_seq demo_config" "coherent demo_config s" using demo_coherent by blast
  then obtain t where "argo_release ext_seq demo_config 0 s = Inr t"
    using dsm.argo_release_effect [OF s, of 0] by (auto simp: demo_size)
  then have "dsm_step ext_seq demo_config s t" by (rule dsm_step.release [rotated]) (simp add: demo_size)
  then show ?thesis using coherence_invariant [OF s, of t] s(2) by blast
qed

text \<open>
  Claim C1. A write becomes visible through synchronisation: when node \<open>w\<close> reads \<open>v\<close> at an address
  it has written (nobody else having changed the byte since), then after a release by \<open>w\<close> and an
  acquire by \<open>n\<close> a read by \<open>n\<close>, with the page fault it may take, succeeds and returns \<open>v\<close>.
\<close>

theorem release_acquire_visibility:
  assumes "dsm E c" and "coherent c s" and "w < numtasks c" and "n < numtasks c" and "x < size_of_all c"
    and "load_byte c w x s = Some v" and "published c s w (page_of c x) (x mod PAGE_SIZE c)"
    and "n \<noteq> w \<Longrightarrow> no_own_write c s n (page_of c x) (x mod PAGE_SIZE c)"
  shows "\<exists>s1 s2 s3. argo_release E c w s = Inr s1 \<and> argo_acquire E c n s1 = Inr s2
     \<and> read_byte E c n x s2 = Inr (Some v, s3)"
  using assms by (rule dsm.release_acquire)

theorem release_acquire_visibility_witness:
  "\<exists>s v s1 s2 s3. load_byte demo_config 0 0 s = Some v \<and> argo_release ext_seq demo_config 0 s = Inr s1
     \<and> argo_acquire ext_seq demo_config 1 s1 = Inr s2 \<and> read_byte ext_seq demo_config 1 0 s2 = Inr (Some v, s3)"
proof -
  obtain s v where s: "dsm ext_seq demo_config" "coherent demo_config s" "load_byte demo_config 0 0 s = Some v"
      "\<not> dirty_at demo_config s 1 0" using demo_read by blast
  have "\<exists>s1 s2 s3. argo_release ext_seq demo_config 0 s = Inr s1 \<and> argo_acquire ext_seq demo_config 1 s1 = Inr s2
     \<and> read_byte ext_seq demo_config 1 0 s2 = Inr (Some v, s3)"
    by (rule release_acquire_visibility [OF s(1,2) _ _ _ s(3)])
      (use s(4) demo_page(1) [of 0] in \<open>simp_all add: demo_size published_def demo_home no_own_write_def\<close>)
  with s(3) show ?thesis by blast
qed

text \<open>
  Claim C6. After an acquire every page the node can still access holds the bytes of the home
  memory: nothing stale stays readable.
\<close>

theorem acquire_leaves_no_stale_page:
  assumes "dsm E c" and "coherent c s" and "r < numtasks c"
  shows "\<exists>t. argo_acquire E c r s = Inr t \<and> coherent c t
     \<and> (\<forall>p j. is_page c p \<and> j < PAGE_SIZE c \<and> vprot (t r) p \<noteq> PROT_NONE \<longrightarrow>
          vm_read c (t r) (p + j) = home_byte c t p j)"
proof -
  obtain f t where t: "argo_acquire E c r s = Inr t" "invalidating c r s (cachesize c) (f, t)"
    using dsm.argo_acquire_effect [OF assms] by blast
  then have "coherent c t" by (simp add: invalidating_def)
  moreover have "vm_read c (t r) (p + j) = home_byte c t p j"
    if "is_page c p" "j < PAGE_SIZE c" "vprot (t r) p \<noteq> PROT_NONE" for p j
    by (rule dsm.acquired_fresh [OF assms(1) t(2) assms(3) that(1,3,2)])
  ultimately show ?thesis using t(1) by blast
qed

theorem acquire_leaves_no_stale_page_witness:
  "\<exists>s t. coherent demo_config s \<and> argo_acquire ext_seq demo_config 0 s = Inr t \<and> coherent demo_config t"
proof -
  obtain s where s: "dsm ext_seq demo_config" "coherent demo_config s" using demo_coherent by blast
  from acquire_leaves_no_stale_page [OF s, of 0] s(2) show ?thesis by (auto simp: demo_size)
qed

text \<open>
  Claim C7. A release ends, empties the write buffer, keeps the invariant, and merges exactly the
  modified bytes into the home memory: where a page the releasing node has modified differs
  from its twin the home byte becomes the cached one, and every other byte of the global memory
  is unchanged.
\<close>

theorem release_writes_back:
  assumes "dsm E c" and "coherent c s" and "r < numtasks c"
  shows "\<exists>t. argo_release E c r s = Inr t \<and> coherent c t \<and> wb_buffer (t r) = []
     \<and> (\<forall>p. \<not> dirty_at c t r p)
     \<and> (\<forall>p j. is_page c p \<and> j < PAGE_SIZE c \<longrightarrow> home_byte c t p j =
          (if dirty_at c s r p \<and> cache_byte c s r p j \<noteq> twin_byte c s r p j
           then cache_byte c s r p j else home_byte c s p j))"
proof -
  obtain t where t: "argo_release E c r s = Inr t" "coherent c t" "wrote_back c r (set (wb_buffer (s r))) s t"
      "wb_buffer (t r) = []" using dsm.argo_release_effect [OF assms] by blast
  have b: "getCacheIndex c p \<in> set (wb_buffer (s r)) \<and> tag (slot c s r p) = p \<longleftrightarrow> dirty_at c s r p" for p
    using dsm.buffered [OF assms(1,2,3), of p] assms(2,3)
    by (auto simp: dirty_at_def coherent_def node_ok_def buffer_ok_def)
  have "home_byte c t p j = (if dirty_at c s r p \<and> cache_byte c s r p j \<noteq> twin_byte c s r p j
           then cache_byte c s r p j else home_byte c s p j)" if "is_page c p" "j < PAGE_SIZE c" for p j
    using t(3) that by (simp add: wrote_back_def flip: b)
  moreover have "\<not> dirty_at c t r p" for p
    using dsm.buffered [OF assms(1) t(2) assms(3), of p] t(4) by auto
  ultimately show ?thesis using t(1,2,4) by blast
qed

theorem release_writes_back_witness:
  "\<exists>s t. coherent demo_config s \<and> argo_release ext_seq demo_config 1 s = Inr t \<and> wb_buffer (t 1) = []"
proof -
  obtain s where s: "dsm ext_seq demo_config" "coherent demo_config s" using demo_coherent by blast
  from release_writes_back [OF s, of 1] s(2) show ?thesis by (auto simp: demo_size)
qed

text \<open>
  Claim C8. Every read completes: it succeeds at once or after one run of the page fault handler,
  which raises no error and keeps the invariant.
\<close>

theorem read_completes:
  assumes "dsm E c" and "coherent c s" and "r < numtasks c" and "x < size_of_all c"
  shows "\<exists>v t. read_byte E c r x s = Inr (Some v, t) \<and> coherent c t"
  using assms by (rule dsm.read_byte_total)

theorem read_completes_witness:
  "\<exists>s v t. coherent demo_config s \<and> read_byte ext_seq demo_config 1 5000 s = Inr (Some v, t)"
proof -
  obtain s where s: "dsm ext_seq demo_config" "coherent demo_config s" using demo_coherent by blast
  from read_completes [OF s, of 1 5000] s(2) show ?thesis by (auto simp: demo_size)
qed

text \<open>
  Claim C12. Every write completes: after at most two runs of the page fault handler (the first may
  only grant read access to a home page) the store is allowed, and the writer then reads the
  value it stored.
\<close>

theorem write_completes:
  assumes "dsm E c" and "coherent c s" and "r < numtasks c" and "x < size_of_all c"
  shows "\<exists>k \<le> 2. \<exists>t u. foldE (\<lambda>_. handler E c r x write_access) [0..<k] s = Inr t
     \<and> store_byte c r x v t = Some u \<and> coherent c u \<and> load_byte c r x u = Some v"
  using assms by (rule dsm.write_progress)

theorem write_completes_witness:
  "\<exists>s t u k. foldE (\<lambda>_. handler ext_seq demo_config 1 0 write_access) [0..<k] s = Inr t
     \<and> store_byte demo_config 1 0 42 t = Some u \<and> load_byte demo_config 1 0 u = Some 42"
proof -
  obtain s where s: "dsm ext_seq demo_config" "coherent demo_config s" using demo_coherent by blast
  from write_completes [OF s, of 1 0 42] show ?thesis by (auto simp: demo_size)
qed

section \<open>Selective coherence\<close>

text \<open>
  Claim C11. A range is handed over by selective coherence: when node \<open>w\<close> reads \<open>v\<close> at an address of the range
  it has written, then after a selective release of the range by \<open>w\<close> and a selective acquire by \<open>n\<close> a read by
  \<open>n\<close> returns \<open>v\<close>, provided that no cache entry of the range holds a modified page or a valid page other than its own.
\<close>

theorem selective_release_acquire:
  assumes "dsm E c" and "coherent c s" and "w < numtasks c" and "n < numtasks c" and "n \<noteq> w"
    and "PAGE_SIZE c dvd startAddr c" and "startAddr c + size_of_all c < 2 ^ 64"
    and "x0 + sz \<le> size_of_all c" and "x0 \<le> x" and "x < x0 + sz"
    and "\<forall>p \<in> set (selective_pages c (startAddr c + x0) sz). releasable c s w p"
    and "\<forall>p \<in> set (selective_pages c (startAddr c + x0) sz). acquirable c s n p"
    and "load_byte c w x s = Some v" and "published c s w (page_of c x) (x mod PAGE_SIZE c)"
  shows "\<exists>s1 s2 s3. selective_release E c w (startAddr c + x0) sz s = Inr s1
     \<and> selective_acquire c n (startAddr c + x0) sz s1 = Inr s2 \<and> read_byte E c n x s2 = Inr (Some v, s3)"
  using assms by (rule dsm.selective_handover)

theorem selective_release_acquire_witness:
  "\<exists>s v s1 s2 s3. cached demo_config s 1 0 \<and> load_byte demo_config 0 0 s = Some v
     \<and> selective_release ext_seq demo_config 0 4096 1 s = Inr s1 \<and> selective_acquire demo_config 1 4096 1 s1 = Inr s2
     \<and> read_byte ext_seq demo_config 1 0 s2 = Inr (Some v, s3)"
proof -
  obtain s v where s: "dsm ext_seq demo_config" "coherent demo_config s" "load_byte demo_config 0 0 s = Some v"
      "slot demo_config s 1 0 = \<lparr>state = VALID, dirty = CLEAN, tag = 0\<rparr>" using demo_shared by blast
  have "selective_pages demo_config 4096 1 = [0]"
    using dsm.selective_page [OF s(1), of 0] by (simp add: demo_start demo_page(2) demo_size demo_zero)
  moreover have "GLOBAL_NULL demo_config \<noteq> 0" using dsm.page_not_null [OF s(1) demo_zero(2)] by simp
  ultimately have "\<exists>s1 s2 s3. selective_release ext_seq demo_config 0 (startAddr demo_config + 0) 1 s = Inr s1
     \<and> selective_acquire demo_config 1 (startAddr demo_config + 0) 1 s1 = Inr s2 \<and> read_byte ext_seq demo_config 1 0 s2 = Inr (Some v, s3)"
    by (intro selective_release_acquire [OF s(1,2)])
      (use s(3,4) in \<open>simp_all add: demo_start demo_page(2) demo_size demo_zero demo_home releasable_def acquirable_def published_def\<close>)
  moreover have "cached demo_config s 1 0" using s(4) by (simp add: cached_def)
  ultimately show ?thesis using s(3) by (simp only: demo_start add_0_right) blast
qed

text \<open>
  Claim C30. A selective acquire of a modified page that another node writes drops the modification: the
  page becomes inaccessible, the home memory is as before, and the next release of the node
  fails the assertion that every entry of the write buffer is modified.
\<close>

theorem selective_acquire_loses_write:
  assumes "dsm E c" and "coherent c s" and "r < numtasks c"
    and "PAGE_SIZE c dvd startAddr c" and "startAddr c + size_of_all c < 2 ^ 64" and "x < size_of_all c"
    and "home_of c (page_of c x) \<noteq> r" and "dirty_at c s r (page_of c x)"
    and "\<not> keep_page r (get_classification_index c (page_of c x)) (s r)"
  shows "\<exists>t. selective_acquire c r (startAddr c + x) 1 s = Inr t
     \<and> load_byte c r x t = None \<and> home_byte c t = home_byte c s
     \<and> argo_release E c r t = Inl (Assert_failed ''cacheControl[cache_index].dirty == DIRTY'')"
proof -
  have "\<exists>t. selective_acquire_page c r (page_of c x) s = Inr t \<and> vprot (t r) (page_of c x) = PROT_NONE \<and> home_byte c t = home_byte c s
     \<and> argo_release E c r t = Inl (Assert_failed ''cacheControl[cache_index].dirty == DIRTY'')"
    by (rule dsm.acquire_dirty_page [OF assms(1-3) dsm.address_split(1) [OF assms(1,6)] assms(7-9)])
  then obtain t where "selective_acquire_page c r (page_of c x) s = Inr t" "vprot (t r) (page_of c x) = PROT_NONE"
      "home_byte c t = home_byte c s" "argo_release E c r t = Inl (Assert_failed ''cacheControl[cache_index].dirty == DIRTY'')" by blast
  moreover from this(1) have "selective_acquire c r (startAddr c + x) 1 s = Inr t"
    unfolding selective_acquire_def dsm.selective_page [OF assms(1,4-6)] by simp
  ultimately show ?thesis by (auto simp: load_byte_def)
qed

theorem selective_acquire_loses_write_witness:
  "\<exists>s t. coherent demo_config s \<and> dirty_at demo_config s 1 0 \<and> selective_acquire demo_config 1 4096 1 s = Inr t
     \<and> argo_release ext_seq demo_config 1 t = Inl (Assert_failed ''cacheControl[cache_index].dirty == DIRTY'')"
proof -
  obtain s where s: "dsm ext_seq demo_config" "coherent demo_config s" "dirty_at demo_config s 1 0"
      "\<not> keep_page 1 (get_classification_index demo_config 0) (s 1)" using demo_written by blast
  show ?thesis
    using selective_acquire_loses_write [OF s(1,2), of 1 0] s(2-4)
    by (auto simp: demo_start demo_page(2) demo_size demo_zero demo_home)
qed

section \<open>The barrier\<close>



text \<open>
  Claim C10. A barrier publishes: when node \<open>w\<close> reads \<open>v\<close> at an address it has written and no other node has a
  modification of the byte, then after a barrier of all nodes, plain or with an upgrade of the writers, every
  node reads \<open>v\<close>, with the page fault it may take. The barrier keeps the coherence invariant.
\<close>

theorem barrier_publishes:
  assumes "dsm E c" and "coherent c s" and "startAddr c + size_of_all c < 2 ^ 64"
    and "set ns = {..<numtasks c}" and "distinct ns" and "upgrade \<noteq> upgrade_all"
    and "w < numtasks c" and "x < size_of_all c"
    and "load_byte c w x s = Some v" and "published c s w (page_of c x) (x mod PAGE_SIZE c)"
    and "\<forall>n < numtasks c. n \<noteq> w \<longrightarrow> no_own_write c s n (page_of c x) (x mod PAGE_SIZE c)"
  shows "\<exists>t. swdsm_argo_barrier E c ns upgrade s = Inr t \<and> coherent c t
     \<and> (\<forall>n < numtasks c. \<exists>u. read_byte E c n x t = Inr (Some v, u))"
  using assms by (rule dsm.barrier_publishes_read)

theorem barrier_publishes_witness:
  "\<exists>s v t u. load_byte demo_config 0 0 s = Some v \<and> swdsm_argo_barrier ext_seq demo_config [0, 1] upgrade_writers s = Inr t
     \<and> coherent demo_config t \<and> read_byte ext_seq demo_config 1 0 t = Inr (Some v, u)"
proof -
  obtain s v where s: "dsm ext_seq demo_config" "coherent demo_config s" "load_byte demo_config 0 0 s = Some v"
      "slot demo_config s 1 0 = \<lparr>state = VALID, dirty = CLEAN, tag = 0\<rparr>" using demo_shared by blast
  have "\<exists>t. swdsm_argo_barrier ext_seq demo_config [0, 1] upgrade_writers s = Inr t \<and> coherent demo_config t
     \<and> (\<forall>n < numtasks demo_config. \<exists>u. read_byte ext_seq demo_config n 0 t = Inr (Some v, u))"
    by (rule barrier_publishes [OF s(1,2) _ _ _ _ _ _ s(3)])
      (use s(4) in \<open>auto simp: demo_start demo_size demo_zero demo_home published_def no_own_write_def dirty_at_def less_2_cases_iff\<close>)
  then obtain t where t: "swdsm_argo_barrier ext_seq demo_config [0, 1] upgrade_writers s = Inr t" "coherent demo_config t"
      "\<forall>n < 2. \<exists>u. read_byte ext_seq demo_config n 0 t = Inr (Some v, u)" by (auto simp: demo_size)
  from t(3) [rule_format, of 1] s(3) t(1,2) show ?thesis by auto
qed



section \<open>Entries that are not modified\<close>

text \<open>
  Claim C26. The page fault handler leaves a window between the release of the cache lock and the entry in
  the write buffer: when another thread of the node runs a selective release of the page there, the
  entry is made for a page that is clean again, and the next release of the node fails its
  assertion.
\<close>

theorem fault_window_breaks_release:
  assumes "dsm E c" and "coherent c s" and "r < numtasks c" and "x < size_of_all c"
    and "PAGE_SIZE c dvd startAddr c" and "startAddr c + size_of_all c < 2 ^ 64"
    and "home_of c (page_of c x) \<noteq> r" and "\<not> dirty_at c s r (page_of c x)"
    and "handler_locked E c r x write_access s = Inr (True, u)" and "length (wb_buffer (u r)) < wb_max_size c"
  shows "\<exists>v w. selective_release E c r (startAddr c + x) 1 u = Inr v \<and> wb_add E c r (getCacheIndex c (page_of c x)) v = Inr w
     \<and> argo_release E c r w = Inl (Assert_failed ''cacheControl[cache_index].dirty == DIRTY'')"
proof -
  have u: "coherent_at c r {} {getCacheIndex c (page_of c x)} u" "dirty_at c u r (page_of c x)"
    using dsm.handler_locked_write [OF assms(1-4,7,8)] assms(9) by auto
  obtain v w where v: "selective_release_page E c r (page_of c x) u = Inr v" "wb_add E c r (getCacheIndex c (page_of c x)) v = Inr w"
      "argo_release E c r w = Inl (Assert_failed ''cacheControl[cache_index].dirty == DIRTY'')"
    using dsm.fault_window [OF assms(1) u(1) assms(3) dsm.address_split(1) [OF assms(1,4)] assms(7) u(2) assms(10)] by blast
  from v(1) have "selective_release E c r (startAddr c + x) 1 u = Inr v"
    unfolding selective_release_def dsm.selective_page [OF assms(1,5,6,4)] by simp
  with v(2,3) show ?thesis by blast
qed

theorem fault_window_breaks_release_witness:
  "\<exists>s u v w. coherent demo_config s \<and> handler_locked ext_seq demo_config 1 0 write_access s = Inr (True, u)
     \<and> selective_release ext_seq demo_config 1 4096 1 u = Inr v \<and> wb_add ext_seq demo_config 1 (getCacheIndex demo_config 0) v = Inr w
     \<and> argo_release ext_seq demo_config 1 w = Inl (Assert_failed ''cacheControl[cache_index].dirty == DIRTY'')"
proof -
  obtain s where s: "dsm ext_seq demo_config" "coherent demo_config s" "\<forall>r < 2. \<forall>p. is_page demo_config p \<longrightarrow> vprot (s r) p = PROT_NONE"
    using demo_coherent by blast
  have nd: "\<not> dirty_at demo_config s 1 (page_of demo_config 0)" using demo_uncached(2) [OF s, of 1] demo_zero by simp
  have N: "1 < numtasks demo_config" "0 < size_of_all demo_config" "home_of demo_config (page_of demo_config 0) \<noteq> 1"
    by (simp_all add: demo_size demo_zero demo_home)
  obtain u where u: "handler_locked ext_seq demo_config 1 0 write_access s = Inr (True, u)"
      "coherent_at demo_config 1 {} {getCacheIndex demo_config (page_of demo_config 0)} u"
    using dsm.handler_locked_write [OF s(1,2) N nd] by blast
  have "length (wb_buffer (u 1)) \<le> cachesize demo_config"
    by (rule dsm.buffer_length [OF s(1) coherent_at_node [OF u(2) N(1)]])
  also have "\<dots> < wb_max_size demo_config"
    by (simp add: demo_cache)
  finally have room: "length (wb_buffer (u 1)) < wb_max_size demo_config" .
  have al: "PAGE_SIZE demo_config dvd startAddr demo_config" "startAddr demo_config + size_of_all demo_config < 2 ^ 64"
    by (simp_all add: demo_start demo_page(2) demo_size)
  show ?thesis
    using fault_window_breaks_release [OF s(1,2) N(1,2) al N(3) nd u(1) room, unfolded demo_start demo_zero(1) add_0_right] s(2) u(1)
    by blast
qed

text \<open>
  Claim C28. \<^verbatim>\<open>argo_reset_coherence\<close> fails when a node has a modified page: it marks all entries as clean and leaves
  them in the write buffer, so that the flush in its first barrier fails the assertion.
\<close>

theorem reset_coherence_fails:
  assumes "dsm E c" and "coherent c s" and "1 < numtasks c" and "set ns = {..<numtasks c}"
    and "r < numtasks c" and "dirty_at c s r p"
  shows "argo_reset_coherence E c ns s = Inl (Assert_failed ''cacheControl[cache_index].dirty == DIRTY'')"
  using assms by (rule dsm.reset_coherence_dirty)

theorem reset_coherence_fails_witness:
  "\<exists>s. coherent demo_config s \<and> dirty_at demo_config s 1 0
     \<and> argo_reset_coherence ext_seq demo_config [0, 1] s = Inl (Assert_failed ''cacheControl[cache_index].dirty == DIRTY'')"
proof -
  obtain s where s: "dsm ext_seq demo_config" "coherent demo_config s" "dirty_at demo_config s 1 0" using demo_written by blast
  have "argo_reset_coherence ext_seq demo_config [0, 1] s = Inl (Assert_failed ''cacheControl[cache_index].dirty == DIRTY'')"
    by (rule reset_coherence_fails [OF s(1,2) _ _ _ s(3)]) (auto simp: demo_size)
  with s(2,3) show ?thesis by blast
qed

section \<open>Properties of atomics and global locks\<close>









end
